(* ===== verification/Prelude.thy ===== *)
theory Prelude
  imports
    Main
    "HOL-Library.Sublist"
    "HOL-Library.Char_ord"
    "HOL-Library.List_Lexorder"
    "HOL-Library.AList"
    "HOL-Library.Multiset"
begin

section \<open>Prelude: strings, results and finite maps shared by the components\<close>

text \<open>
  What every component of the gateway model uses and no component owns.

  \<^item> A Go \<open>string\<close> and a Go \<open>[]byte\<close> are both a list of 8-bit characters, so \<open>length\<close>
    counts bytes as Go's \<open>len\<close> does.
  \<^item> A function with an \<open>error\<close> result returns \<open>'e + 'a\<close>, with \<open>Inl\<close> for the error.
  \<^item> The functions of Go's \<open>strings\<close> package that the program calls: \<open>HasPrefix\<close>,
    \<open>HasSuffix\<close> and \<open>Contains\<close> are the library's \<open>prefix\<close>, \<open>suffix\<close> and \<open>sublist\<close> with
    Go's argument order; \<open>Split\<close>, \<open>Join\<close>, \<open>LastIndexByte\<close>, \<open>TrimPrefix\<close>, \<open>TrimSuffix\<close>
    and \<open>TrimRightByte\<close> are defined here.
  \<^item> Loops of the shape \<open>for _, r := range s\<close> that only test for ASCII characters are
    modelled byte by byte: Go's UTF-8 decoder never consumes a byte below 128 as a part
    of a longer sequence, and every other rune is at least 128, so the test has the same
    outcome on runes and on bytes.
  \<^item> A Go map that is ranged over, counted or resized is an association list with
    distinct keys (\<open>HOL-Library.AList\<close>); one that is only looked up is a HOL map.
\<close>

named_theorems go_simps \<open>rewrite rules for the Go string functions\<close>
named_theorems split_facts \<open>what the segments of a split string contain\<close>

type_synonym bytes = string
type_synonym 'k set_map = "'k set"
type_synonym ('k, 'v) gomap = "('k \<times> 'v) list"

abbreviation byte :: "char \<Rightarrow> nat" where
  "byte c \<equiv> of_char c"

abbreviation chr8 :: "nat \<Rightarrow> char" where
  "chr8 n \<equiv> char_of n"

abbreviation HasPrefix :: "string \<Rightarrow> string \<Rightarrow> bool" where
  "HasPrefix s p \<equiv> prefix p s"

abbreviation HasSuffix :: "string \<Rightarrow> string \<Rightarrow> bool" where
  "HasSuffix s p \<equiv> suffix p s"

abbreviation Contains :: "string \<Rightarrow> string \<Rightarrow> bool" where
  "Contains s t \<equiv> sublist t s"

subsection \<open>Splitting and joining\<close>

fun cons_hd :: "'a \<Rightarrow> 'a list list \<Rightarrow> 'a list list" where
  "cons_hd c [] = [[c]]"
| "cons_hd c (y # ys) = (c # y) # ys"

text \<open>\<open>strings.Split(s, sep)\<close> for a non-empty separator: the leftmost, non-overlapping
  occurrences of the separator cut the string.\<close>

function Split :: "'a list \<Rightarrow> 'a list \<Rightarrow> 'a list list" where
  "Split s sep =
     (case s of
        [] \<Rightarrow> [[]]
      | c # t \<Rightarrow>
          if sep \<noteq> [] \<and> prefix sep s then [] # Split (drop (length sep) s) sep
          else cons_hd c (Split t sep))"
  by pat_completeness auto
termination
  by (relation "measure (\<lambda>(s, sep). length s)") auto

declare Split.simps [simp del]

fun Join :: "'a list list \<Rightarrow> 'a list \<Rightarrow> 'a list" where
  "Join [] sep = []"
| "Join [x] sep = x"
| "Join (x # y # ys) sep = x @ sep @ Join (y # ys) sep"

lemma Split_Nil [simp, go_simps]: "Split [] sep = [[]]"
  by (subst Split.simps) simp

lemma Split_byte_Cons [go_simps]:
  "Split (x # s) [c] = (if x = c then [] # Split s [c] else cons_hd x (Split s [c]))"
  by (subst Split.simps) (auto simp: prefix_def)

lemma Split_not_Nil [simp]: "Split s sep \<noteq> []"
proof -
  have "cons_hd c ys \<noteq> []" for c :: 'a and ys by (cases ys) auto
  then show ?thesis by (subst Split.simps) (auto split: list.splits)
qed

lemma Join_Cons: "ys \<noteq> [] \<Longrightarrow> Join (x # ys) sep = x @ sep @ Join ys sep"
  by (cases ys) auto

lemma Join_cons_hd: "ys \<noteq> [] \<Longrightarrow> Join (cons_hd c ys) sep = c # Join ys sep"
  by (cases ys; cases "tl ys") auto

lemma Join_Split: "sep \<noteq> [] \<Longrightarrow> Join (Split s sep) sep = s"
proof (induction s sep rule: Split.induct)
  case (1 s sep)
  show ?case
  proof (cases s)
    case Nil
    then show ?thesis by simp
  next
    case (Cons c t)
    show ?thesis
    proof (cases "prefix sep s")
      case True
      with 1 Cons have "Join (Split (drop (length sep) s) sep) sep = drop (length sep) s"
        by simp
      with True Cons "1.prems" show ?thesis
        by (subst Split.simps) (auto simp: Join_Cons prefix_def)
    next
      case False
      with 1 Cons show ?thesis
        by (subst Split.simps) (auto simp: Join_cons_hd)
    qed
  qed
qed

lemma set_cons_hd: "\<Union> (set ` set (cons_hd c ys)) = insert c (\<Union> (set ` set ys))"
  by (cases ys) auto

lemma Split_byte_no_sep [split_facts]: "seg \<in> set (Split s [c]) \<Longrightarrow> c \<notin> set seg"
proof (induction s arbitrary: seg)
  case Nil
  then show ?case by simp
next
  case (Cons x s)
  obtain y ys where "Split s [c] = y # ys"
    by (cases "Split s [c]") auto
  with Cons show ?case by (auto simp: Split_byte_Cons split: if_splits)
qed

lemma Split_byte_set [split_facts]: "\<Union> (set ` set (Split s [c])) = set s - {c}"
  by (induction s) (auto simp: Split_byte_Cons set_cons_hd)

lemma Split_byte_id: "c \<notin> set s \<Longrightarrow> Split s [c] = [s]"
  by (induction s) (auto simp: Split_byte_Cons)

lemma Split_byte_append:
  "c \<notin> set a \<Longrightarrow> Split (a @ c # s) [c] = a # Split s [c]"
  by (induction a) (auto simp: Split_byte_Cons)

text \<open>A pattern without the separator that occurs in the string occurs in one segment.\<close>

lemma prefix_hd_segment:
  "c \<notin> set t \<Longrightarrow> prefix t s \<Longrightarrow> prefix t (hd (Split s [c]))"
proof (induction t arbitrary: s)
  case Nil
  then show ?case by simp
next
  case (Cons x t)
  then obtain s' where s: "s = x # s'" "prefix t s'" and "x \<noteq> c"
    by (cases s) auto
  moreover obtain y ys where "Split s' [c] = y # ys"
    by (cases "Split s' [c]") auto
  ultimately show ?case using Cons by (force simp: Split_byte_Cons)
qed

lemma sublist_segment:
  assumes "c \<notin> set t" and "t \<noteq> []" and "sublist t s"
  shows "\<exists>seg \<in> set (Split s [c]). sublist t seg"
  using assms(3)
proof (induction s)
  case Nil
  with assms(2) show ?case by simp
next
  case (Cons x s)
  obtain y ys where sp: "Split s [c] = y # ys"
    by (cases "Split s [c]") auto
  consider "prefix t (x # s)" | "sublist t s"
    using Cons.prems by (auto simp: sublist_Cons_right)
  then show ?case
  proof cases
    case 1
    then have "prefix t (hd (Split (x # s) [c]))"
      by (rule prefix_hd_segment [OF assms(1)])
    then show ?thesis
      by (metis Split_not_Nil list.set_sel(1) prefix_imp_sublist)
  next
    case 2
    with Cons.IH sp show ?thesis
      by (auto simp: Split_byte_Cons sublist_Cons_right)
  qed
qed

subsection \<open>Positions, prefixes and suffixes\<close>

text \<open>\<open>strings.LastIndex(s, string(c))\<close> for a one-byte pattern; Go's \<open>-1\<close> is \<open>None\<close>.\<close>

fun LastIndexByte :: "'a list \<Rightarrow> 'a \<Rightarrow> nat option" where
  "LastIndexByte [] c = None"
| "LastIndexByte (x # xs) c =
     (case LastIndexByte xs c of
        Some i \<Rightarrow> Some (Suc i)
      | None \<Rightarrow> if x = c then Some 0 else None)"

fun IndexByte :: "'a list \<Rightarrow> 'a \<Rightarrow> nat option" where
  "IndexByte [] c = None"
| "IndexByte (x # xs) c = (if x = c then Some 0 else map_option Suc (IndexByte xs c))"

definition TrimPrefix :: "'a list \<Rightarrow> 'a list \<Rightarrow> 'a list" where
  "TrimPrefix s p = (if prefix p s then drop (length p) s else s)"

definition TrimSuffix :: "'a list \<Rightarrow> 'a list \<Rightarrow> 'a list" where
  "TrimSuffix s p = (if suffix p s then take (length s - length p) s else s)"

definition TrimRightByte :: "'a list \<Rightarrow> 'a \<Rightarrow> 'a list" where
  "TrimRightByte s c = rev (dropWhile (\<lambda>x. x = c) (rev s))"

lemma LastIndexByte_None: "LastIndexByte s c = None \<longleftrightarrow> c \<notin> set s"
  by (induction s) (auto split: option.splits)

lemma LastIndexByte_Some:
  "LastIndexByte s c = Some i \<Longrightarrow>
     i < length s \<and> s ! i = c \<and> c \<notin> set (drop (Suc i) s)"
proof (induction s arbitrary: i)
  case Nil
  then show ?case by simp
next
  case (Cons x s)
  then show ?case
    by (auto split: option.splits if_splits simp: LastIndexByte_None)
qed

lemma LastIndexByte_append:
  "c \<notin> set b \<Longrightarrow> LastIndexByte (a @ c # b) c = Some (length a)"
proof (induction a)
  case Nil
  then have "LastIndexByte b c = None" by (simp add: LastIndexByte_None)
  then show ?case by simp
next
  case (Cons x a)
  then show ?case by simp
qed

lemma IndexByte_None: "IndexByte s c = None \<longleftrightarrow> c \<notin> set s"
  by (induction s) auto

lemma IndexByte_append: "c \<notin> set a \<Longrightarrow> IndexByte (a @ c # b) c = Some (length a)"
  by (induction a) auto

lemma TrimSuffix_append [simp]: "TrimSuffix (s @ p) p = s"
  by (simp add: TrimSuffix_def suffix_def)

lemma TrimPrefix_append [simp]: "TrimPrefix (p @ s) p = s"
  by (simp add: TrimPrefix_def)

lemma suffix_single: "suffix [c] s \<longleftrightarrow> s \<noteq> [] \<and> last s = c"
  by (cases s rule: rev_cases) (auto simp: suffix_def)

lemma set_TrimSuffix: "set (TrimSuffix s p) \<subseteq> set s"
  by (auto simp: TrimSuffix_def dest: in_set_takeD)

subsection \<open>ASCII classes\<close>

definition is_digit :: "char \<Rightarrow> bool" where
  "is_digit c \<longleftrightarrow> 48 \<le> byte c \<and> byte c \<le> 57"

definition is_lower :: "char \<Rightarrow> bool" where
  "is_lower c \<longleftrightarrow> 97 \<le> byte c \<and> byte c \<le> 122"

definition is_upper :: "char \<Rightarrow> bool" where
  "is_upper c \<longleftrightarrow> 65 \<le> byte c \<and> byte c \<le> 90"

definition is_ascii :: "char \<Rightarrow> bool" where
  "is_ascii c \<longleftrightarrow> byte c < 128"

definition lower_byte :: "char \<Rightarrow> char" where
  "lower_byte c = (if is_upper c then char_of (byte c + 32) else c)"

text \<open>A C0 control character or DEL, the test the path rules share.\<close>

definition is_control :: "char \<Rightarrow> bool" where
  "is_control c \<longleftrightarrow> byte c < 32 \<or> byte c = 127"

lemmas ascii_defs = is_digit_def is_lower_def is_upper_def is_ascii_def is_control_def

lemma lower_byte_id: "\<not> is_upper c \<Longrightarrow> lower_byte c = c"
  by (simp add: lower_byte_def)

lemma lower_byte_not_upper: "\<not> is_upper (lower_byte c)"
  by (simp add: lower_byte_def is_upper_def)

lemma lower_byte_idem [simp]: "lower_byte (lower_byte c) = lower_byte c"
  by (simp add: lower_byte_id lower_byte_not_upper)

subsection \<open>Association lists as Go maps\<close>

text \<open>Sums over a map's values, as the byte accounting of the blob stores uses them.\<close>

definition total :: "('k, int) gomap \<Rightarrow> int" where
  "total m = sum_list (map snd m)"

definition distinct_keys :: "('k, 'v) gomap \<Rightarrow> bool" where
  "distinct_keys m \<longleftrightarrow> distinct (map fst m)"

lemma total_Nil [simp]: "total [] = 0"
  by (simp add: total_def)

lemma total_Cons [simp]: "total ((k, v) # m) = v + total m"
  by (simp add: total_def)

lemma total_update_fresh:
  "k \<notin> fst ` set m \<Longrightarrow> total (AList.update k v m) = total m + v"
  by (induction m) auto

lemma total_update:
  "distinct_keys m \<Longrightarrow>
     total (AList.update k v m) = total m - (case map_of m k of None \<Rightarrow> 0 | Some w \<Rightarrow> w) + v"
proof (induction m)
  case Nil
  then show ?case by simp
next
  case (Cons p m)
  then show ?case
    by (cases p; cases "map_of m k")
      (auto simp: distinct_keys_def simp del: map_of_eq_Some_iff)
qed

lemma total_delete:
  "distinct_keys m \<Longrightarrow>
     total (AList.delete k m) = total m - (case map_of m k of None \<Rightarrow> 0 | Some w \<Rightarrow> w)"
proof (induction m)
  case Nil
  then show ?case by simp
next
  case (Cons p m)
  obtain a b where p: "p = (a, b)" by force
  show ?case
  proof (cases "a = k")
    case True
    with Cons.prems p have "k \<notin> fst ` set m" by (auto simp: distinct_keys_def)
    then have "AList.delete k m = m" by (simp add: delete_id)
    with True p show ?thesis by simp
  next
    case False
    with Cons p show ?thesis by (auto simp: distinct_keys_def)
  qed
qed

lemma distinct_keys_update: "distinct_keys m \<Longrightarrow> distinct_keys (AList.update k v m)"
  by (simp add: distinct_keys_def distinct_update)

lemma distinct_keys_delete: "distinct_keys m \<Longrightarrow> distinct_keys (AList.delete k m)"
  by (simp add: distinct_keys_def distinct_delete)

lemma keys_update: "fst ` set (AList.update k v m) = insert k (fst ` set m)"
  by (simp add: dom_update)

lemma keys_delete: "fst ` set (AList.delete k m) = fst ` set m - {k}"
  by (metis delete_keys list.set_map set_removeAll)

lemma total_nonneg: "(\<And>k v. (k, v) \<in> set m \<Longrightarrow> 0 \<le> v) \<Longrightarrow> 0 \<le> total m"
  unfolding total_def by (rule sum_list_nonneg) auto

lemmas gomap_simps = total_update total_delete distinct_keys_update distinct_keys_delete
  update_conv' delete_conv'

subsection \<open>Sums over lists\<close>

lemma sum_list_update_less:
  fixes f :: "'a \<Rightarrow> nat"
  assumes "i < length xs" and "f y < f (xs ! i)"
  shows "sum_list (map f (xs[i := y])) < sum_list (map f xs)"
  using assms
proof (induction xs arbitrary: i)
  case (Cons x xs)
  then show ?case by (cases i) auto
qed simp

end
