(* ===== verification/Codec.thy ===== *)
theory Codec
  imports Prelude
begin

section \<open>Codec contracts, hexadecimal strings and big integers\<close>

text \<open>
  The interface every encoder of the program has (a \<open>codec\<close>: decoding what was encoded
  gives it back; a \<open>canonical_codec\<close>: in addition the decoder accepts nothing but
  encodings), and the standard-library pieces \<^verbatim>\<open>internal/nip5a/label.go\<close> builds its
  labels from: \<^verbatim>\<open>encoding/hex\<close> and the operations of \<^verbatim>\<open>math/big\<close> it calls
  (\<open>SetBytes\<close>, \<open>Text\<close>, \<open>SetString\<close>, \<open>BitLen\<close>, \<open>FillBytes\<close>). The label codecs that
  interpret the canonical contract are in theory \<open>Label\<close>.
\<close>

locale codec =
  fixes valid :: "'a \<Rightarrow> bool"
    and enc :: "'a \<Rightarrow> 'b"
    and dec :: "'b \<Rightarrow> 'a option"
  assumes dec_enc: "valid x \<Longrightarrow> dec (enc x) = Some x"
begin

lemma enc_inj: "valid x \<Longrightarrow> valid y \<Longrightarrow> enc x = enc y \<Longrightarrow> x = y"
  by (metis dec_enc option.inject)

end

locale canonical_codec = codec +
  assumes dec_valid: "dec s = Some x \<Longrightarrow> valid x"
    and enc_dec: "dec s = Some x \<Longrightarrow> enc x = s"
begin

lemma dec_iff: "dec s = Some x \<longleftrightarrow> valid x \<and> enc x = s"
  using dec_enc dec_valid enc_dec by metis

lemma dec_inj: "dec s = Some x \<Longrightarrow> dec t = Some x \<Longrightarrow> s = t"
  using enc_dec by metis

end

subsection \<open>Digits in a base\<close>

text \<open>Big-endian digits without leading zeros (none at all for zero), their value, and
  padding on the left to a fixed width.\<close>

fun digits :: "nat \<Rightarrow> nat \<Rightarrow> nat list" where
  "digits b n = (if n = 0 \<or> b \<le> 1 then [] else digits b (n div b) @ [n mod b])"

declare digits.simps [simp del]

definition undigits :: "nat \<Rightarrow> nat list \<Rightarrow> nat" where
  "undigits b ds = foldl (\<lambda>a d. a * b + d) 0 ds"

definition pad :: "nat \<Rightarrow> nat list \<Rightarrow> nat list" where
  "pad k ds = replicate (k - length ds) 0 @ ds"

lemma digits_0 [simp]: "digits b 0 = []"
  by (simp add: digits.simps)

lemma undigits_Nil [simp]: "undigits b [] = 0"
  by (simp add: undigits_def)

lemma undigits_snoc [simp]: "undigits b (ds @ [d]) = undigits b ds * b + d"
  by (simp add: undigits_def)

lemma undigits_zeros [simp]: "undigits b (replicate k 0 @ ds) = undigits b ds"
proof -
  have "foldl (\<lambda>a d. a * b + d) 0 (replicate k (0::nat)) = 0"
    by (induction k) auto
  then show ?thesis by (simp add: undigits_def)
qed

lemma undigits_digits [simp]: "1 < b \<Longrightarrow> undigits b (digits b n) = n"
proof (induction b n rule: digits.induct)
  case (1 b n)
  then show ?case
    by (cases "n = 0") (auto simp: digits.simps [of b n])
qed

lemma digits_less: "d \<in> set (digits b n) \<Longrightarrow> d < b"
proof (induction b n rule: digits.induct)
  case (1 b n)
  then show ?case
    by (auto simp: digits.simps [of b n] split: if_splits)
qed

lemma length_digits: "1 < b \<Longrightarrow> length (digits b n) \<le> k \<longleftrightarrow> n < b ^ k"
proof (induction k arbitrary: n)
  case 0
  then show ?case by (auto simp: digits.simps [of b n])
next
  case (Suc k)
  show ?case
  proof (cases "n = 0")
    case False
    with Suc.prems have "length (digits b n) \<le> Suc k \<longleftrightarrow> length (digits b (n div b)) \<le> k"
      by (simp add: digits.simps [of b n])
    also have "\<dots> \<longleftrightarrow> n div b < b ^ k" using Suc by simp
    also have "\<dots> \<longleftrightarrow> n < b ^ Suc k"
      using Suc.prems by (simp add: div_less_iff_less_mult mult.commute)
    finally show ?thesis .
  qed (use Suc.prems in simp)
qed

lemma undigits_less: "(\<And>d. d \<in> set ds \<Longrightarrow> d < b) \<Longrightarrow> undigits b ds < b ^ length ds"
proof (induction ds rule: rev_induct)
  case Nil
  then show ?case by simp
next
  case (snoc d ds)
  then have "undigits b ds < b ^ length ds" and "d < b" by auto
  then have "Suc (undigits b ds) * b \<le> b ^ length ds * b"
    by (intro mult_le_mono1) simp
  with \<open>d < b\<close> show ?case by (simp add: mult.commute)
qed

lemma undigits_inj:
  assumes "length xs = length ys" and "\<forall>d \<in> set xs. d < b" and "\<forall>d \<in> set ys. d < b"
    and "undigits b xs = undigits b ys"
  shows "xs = ys"
  using assms
proof (induction xs arbitrary: ys rule: rev_induct)
  case Nil
  then show ?case by simp
next
  case (snoc x xs)
  then obtain y ys' where ys: "ys = ys' @ [y]"
    by (cases ys rule: rev_cases) auto
  with snoc.prems have lt: "x < b" "y < b"
    and eq: "undigits b xs * b + x = undigits b ys' * b + y" by auto
  from eq lt have "x = y"
    by (metis mod_less mod_mult_self3)
  moreover from eq lt have "undigits b xs = undigits b ys'"
    using calculation by simp
  ultimately show ?case using snoc ys by auto
qed

lemma length_pad: "length ds \<le> k \<Longrightarrow> length (pad k ds) = k"
  by (simp add: pad_def)

lemma undigits_pad [simp]: "undigits b (pad k ds) = undigits b ds"
  by (simp add: pad_def)

lemma pad_less: "0 < b \<Longrightarrow> (\<And>d. d \<in> set ds \<Longrightarrow> d < b) \<Longrightarrow> d \<in> set (pad k ds) \<Longrightarrow> d < b"
  by (auto simp: pad_def split: if_splits)

text \<open>Fixed-width digit strings and numbers below \<open>b ^ k\<close> are in bijection.\<close>

lemma pad_digits_undigits:
  assumes "1 < b" and "\<forall>d \<in> set ds. d < b" and "length ds = k"
  shows "pad k (digits b (undigits b ds)) = ds"
proof (rule undigits_inj [where b = b])
  have "undigits b ds < b ^ k"
    using undigits_less [of ds b] assms by auto
  then have "length (digits b (undigits b ds)) \<le> k"
    using length_digits [OF assms(1)] by blast
  then show "length (pad k (digits b (undigits b ds))) = length ds"
    using assms(3) by (simp add: length_pad)
  show "\<forall>d \<in> set (pad k (digits b (undigits b ds))). d < b"
    using assms(1) pad_less digits_less by (metis less_trans zero_less_one)
qed (use assms in auto)

subsection \<open>Hexadecimal strings (\<^verbatim>\<open>encoding/hex\<close>)\<close>

definition digit_char :: "nat \<Rightarrow> char" where
  "digit_char d = (if d < 10 then char_of (48 + d) else char_of (87 + d))"

text \<open>The value of a digit in any base up to 36; letters of either case count.\<close>

definition digit_val :: "char \<Rightarrow> nat option" where
  "digit_val c =
     (if is_digit c then Some (byte c - 48)
      else if is_lower c then Some (byte c - 87)
      else if is_upper c then Some (byte c - 55)
      else None)"

definition is_lower_digit :: "nat \<Rightarrow> char \<Rightarrow> bool" where
  "is_lower_digit b c \<longleftrightarrow> \<not> is_upper c \<and> (case digit_val c of Some d \<Rightarrow> d < b | None \<Rightarrow> False)"

definition hex_val :: "char \<Rightarrow> nat option" where
  "hex_val c = (case digit_val c of Some d \<Rightarrow> if d < 16 then Some d else None | None \<Rightarrow> None)"

lemma digit_val_char [simp]: "d < 36 \<Longrightarrow> digit_val (digit_char d) = Some d"
  by (auto simp: digit_val_def digit_char_def ascii_defs)

lemma digit_char_val:
  "\<not> is_upper c \<Longrightarrow> digit_val c = Some d \<Longrightarrow> digit_char d = c"
  by (auto simp: digit_val_def digit_char_def ascii_defs split: if_splits)

lemma digit_char_not_upper: "d < 36 \<Longrightarrow> \<not> is_upper (digit_char d)"
  by (auto simp: digit_char_def ascii_defs)

lemma digit_char_lower: "d < b \<Longrightarrow> b \<le> 36 \<Longrightarrow> is_lower_digit b (digit_char d)"
  by (simp add: is_lower_digit_def digit_char_not_upper)

lemma is_lower_digitE:
  assumes "is_lower_digit b c"
  obtains d where "d < b" "digit_val c = Some d" "digit_char d = c"
  using assms by (auto simp: is_lower_digit_def digit_char_val split: option.splits)

fun EncodeToString :: "bytes \<Rightarrow> string" where
  "EncodeToString [] = []"
| "EncodeToString (c # cs) =
     digit_char (byte c div 16) # digit_char (byte c mod 16) # EncodeToString cs"

text \<open>\<open>hex.DecodeString\<close>: \<open>None\<close> is its error (an odd length or a character that is no
  hexadecimal digit); both cases of the letters are accepted.\<close>

fun DecodeString :: "string \<Rightarrow> bytes option" where
  "DecodeString [] = Some []"
| "DecodeString [c] = None"
| "DecodeString (c # d # cs) =
     (case (hex_val c, hex_val d, DecodeString cs) of
        (Some x, Some y, Some bs) \<Rightarrow> Some (char_of (16 * x + y) # bs)
      | _ \<Rightarrow> None)"

abbreviation lower_hex :: "string \<Rightarrow> bool" where
  "lower_hex s \<equiv> list_all (is_lower_digit 16) s"

lemma hex_val_char [simp]: "d < 16 \<Longrightarrow> hex_val (digit_char d) = Some d"
  by (simp add: hex_val_def)

lemma hex_val_less: "hex_val c = Some d \<Longrightarrow> d < 16"
  by (auto simp: hex_val_def split: option.splits if_splits)

lemma hex_val_lower: "is_lower_digit 16 c \<Longrightarrow> \<exists>d<16. hex_val c = Some d \<and> digit_char d = c"
  by (auto simp: hex_val_def elim!: is_lower_digitE)

lemma byte_div_16 [simp]: "byte c div 16 < 16"
  using nat_of_char_less_256 [of c] by (simp add: div_less_iff_less_mult)

lemma DecodeString_Encode: "DecodeString (EncodeToString bs) = Some bs"
  by (induction bs) auto

lemma length_EncodeToString [simp]: "length (EncodeToString bs) = 2 * length bs"
  by (induction bs) auto

lemma EncodeToString_lower: "lower_hex (EncodeToString bs)"
  by (induction bs) (auto simp: digit_char_lower)

lemma length_DecodeString: "DecodeString s = Some bs \<Longrightarrow> length s = 2 * length bs"
  by (induction s arbitrary: bs rule: DecodeString.induct) (auto split: option.splits)

lemma EncodeToString_Decode:
  "lower_hex s \<Longrightarrow> DecodeString s = Some bs \<Longrightarrow> EncodeToString bs = s"
proof (induction s arbitrary: bs rule: DecodeString.induct)
  case (3 c d cs)
  from "3.prems"(1) have "is_lower_digit 16 c" and "is_lower_digit 16 d" by simp_all
  then obtain x y where "x < 16" "hex_val c = Some x" "digit_char x = c"
    and "y < 16" "hex_val d = Some y" "digit_char y = d"
    using hex_val_lower by metis
  moreover from this "3.prems" obtain b where "DecodeString cs = Some b"
    and "bs = char_of (16 * x + y) # b"
    by (auto split: option.splits)
  ultimately show ?case using 3 by simp
qed auto

lemma DecodeString_total: "lower_hex s \<Longrightarrow> even (length s) \<Longrightarrow> \<exists>bs. DecodeString s = Some bs"
proof (induction s rule: DecodeString.induct)
  case (3 c d cs)
  then have "is_lower_digit 16 c" and "is_lower_digit 16 d"
    and "\<exists>bs. DecodeString cs = Some bs" by simp_all
  then obtain x y bs where "hex_val c = Some x" "hex_val d = Some y" "DecodeString cs = Some bs"
    using hex_val_lower by blast
  then show ?case by simp
qed auto

interpretation hexc: codec "\<lambda>_. True" EncodeToString DecodeString
  by unfold_locales (rule DecodeString_Encode)

subsection \<open>Big integers (\<^verbatim>\<open>math/big\<close>)\<close>

definition SetBytes :: "bytes \<Rightarrow> nat" where
  "SetBytes bs = undigits 256 (map byte bs)"

definition Text :: "nat \<Rightarrow> nat \<Rightarrow> string" where
  "Text n b = (if n = 0 then ''0'' else map digit_char (digits b n))"

definition BitLen :: "nat \<Rightarrow> nat" where
  "BitLen n = length (digits 2 n)"

text \<open>\<open>FillBytes\<close> panics when the value does not fit; its only call follows a check of
  \<open>BitLen\<close>, so the model gives the padded big-endian bytes.\<close>

definition FillBytes :: "nat \<Rightarrow> nat \<Rightarrow> bytes" where
  "FillBytes n k = map char_of (pad k (digits 256 n))"

text \<open>\<open>SetString\<close> on strings without a sign: \<open>None\<close> is \<open>ok = false\<close>.\<close>

definition SetString :: "string \<Rightarrow> nat \<Rightarrow> nat option" where
  "SetString s b =
     (if s \<noteq> [] \<and> list_all (\<lambda>c. case digit_val c of Some d \<Rightarrow> d < b | None \<Rightarrow> False) s
      then Some (undigits b (map (\<lambda>c. the (digit_val c)) s))
      else None)"

lemma BitLen_le: "BitLen n \<le> k \<longleftrightarrow> n < 2 ^ k"
  by (simp add: BitLen_def length_digits)

lemma SetBytes_less: "length bs = 32 \<Longrightarrow> SetBytes bs < 2 ^ 256"
proof -
  assume "length bs = 32"
  moreover have "undigits 256 (map byte bs) < 256 ^ length (map byte bs)"
    by (rule undigits_less) auto
  ultimately show ?thesis by (simp add: SetBytes_def)
qed

lemma length_FillBytes: "n < 2 ^ 256 \<Longrightarrow> length (FillBytes n 32) = 32"
proof -
  assume "n < 2 ^ 256"
  then have "length (digits 256 n) \<le> 32" by (subst length_digits) auto
  then show ?thesis by (simp add: FillBytes_def length_pad)
qed

lemma map_byte_char: "(\<And>d. d \<in> set ds \<Longrightarrow> d < 256) \<Longrightarrow> map (\<lambda>d. byte (char_of (d :: nat))) ds = ds"
  by (induction ds) auto

lemma SetBytes_Fill: "SetBytes (FillBytes n k) = n"
proof -
  have "map (\<lambda>d. byte (char_of (d :: nat))) (pad k (digits 256 n)) = pad k (digits 256 n)"
    by (rule map_byte_char) (rule pad_less [of 256 "digits 256 n"], auto dest: digits_less)
  then show ?thesis by (simp add: SetBytes_def FillBytes_def comp_def)
qed

lemma FillBytes_Set: "FillBytes (SetBytes bs) (length bs) = bs"
proof -
  have "pad (length bs) (digits 256 (undigits 256 (map byte bs))) = map byte bs"
    by (rule pad_digits_undigits) auto
  then show ?thesis by (simp add: FillBytes_def SetBytes_def comp_def)
qed

end
