(* ===== verification/External.thy ===== *)
theory External
  imports Codec
begin

section \<open>What the program takes from outside\<close>

text \<open>
  The event type of \<^verbatim>\<open>github.com/nbd-wtf/go-nostr\<close> as the program reads it, and the
  operations of code that is not in the repository, collected as the fields of one record
  \<open>ext\<close> that every definition using them takes as an argument: SHA-256, the event id and
  signature checks, the NIP-19 (npub) codec and the Unicode part of \<^verbatim>\<open>strings.ToLower\<close>.
  What a theorem relies on is a named hypothesis over the record (\<open>sha256_ok\<close>,
  \<open>nip19_ok\<close>); \<open>sample_ext\<close> satisfies both, so they can hold.
\<close>

record event =
  ev_id :: string
  ev_pubkey :: string
  ev_created_at :: int
  ev_kind :: int
  ev_tags :: "string list list"
  ev_content :: string
  ev_sig :: string

text \<open>The value \<^verbatim>\<open>nip19.Decode\<close> returns has dynamic type \<open>any\<close>; the program asks only
  whether it is a string.\<close>

datatype nip19_value = NString string | NOther

record ext =
  sha256_sum :: "bytes \<Rightarrow> bytes"
  check_id :: "event \<Rightarrow> bool"
  check_sig :: "event \<Rightarrow> bool"
  nip19_decode :: "string \<Rightarrow> (string \<times> nip19_value) option"
  nip19_public_key :: "string \<Rightarrow> string option"
  unicode_lower :: "string \<Rightarrow> string"

definition hash_hex :: "ext \<Rightarrow> bytes \<Rightarrow> string" where
  "hash_hex X b = EncodeToString (sha256_sum X b)"

definition sha256_ok :: "ext \<Rightarrow> bool" where
  "sha256_ok X \<longleftrightarrow> (\<forall>b. length (sha256_sum X b) = 32)"

definition hex64 :: "string \<Rightarrow> bool" where
  "hex64 s \<longleftrightarrow> length s = 64 \<and> lower_hex s"

text \<open>NIP-19: a public key of 64 lowercase hexadecimal characters encodes to an npub, which
  starts with \<open>npub1\<close> and decodes to the same key, a string with prefix \<open>npub\<close>.\<close>

definition nip19_ok :: "ext \<Rightarrow> bool" where
  "nip19_ok X \<longleftrightarrow>
     (\<forall>pk. hex64 pk \<longrightarrow>
        (\<exists>l. nip19_public_key X pk = Some l \<and> prefix ''npub1'' l \<and>
             nip19_decode X l = Some (''npub'', NString pk)))"

definition sample_ext :: ext where
  "sample_ext =
     \<lparr>sha256_sum = (\<lambda>b. take 32 (b @ replicate 32 (CHR ''0''))),
      check_id = (\<lambda>_. True),
      check_sig = (\<lambda>_. True),
      nip19_decode =
        (\<lambda>l. if prefix ''npub1'' l then Some (''npub'', NString (drop 5 l)) else None),
      nip19_public_key = (\<lambda>pk. Some (''npub1'' @ pk)),
      unicode_lower = (\<lambda>s. s)\<rparr>"

lemma sample_ext_ok: "sha256_ok sample_ext" "nip19_ok sample_ext"
  by (auto simp: sha256_ok_def nip19_ok_def sample_ext_def min_def)

lemma hash_hex64: "sha256_ok X \<Longrightarrow> hex64 (hash_hex X b)"
  by (simp add: sha256_ok_def hex64_def hash_hex_def EncodeToString_lower)

subsection \<open>\<^verbatim>\<open>strings.ToLower\<close> and \<^verbatim>\<open>strings.TrimSpace\<close>\<close>

text \<open>\<open>ToLower\<close> has a fast path for ASCII strings; any other string is mapped rune by rune
  with the Unicode tables, which stay a parameter.\<close>

definition ToLower :: "ext \<Rightarrow> string \<Rightarrow> string" where
  "ToLower X s = (if list_all is_ascii s then map lower_byte s else unicode_lower X s)"

lemma ToLower_ascii: "list_all is_ascii s \<Longrightarrow> ToLower X s = map lower_byte s"
  by (simp add: ToLower_def)

lemma ToLower_id: "list_all (\<lambda>c. is_ascii c \<and> \<not> is_upper c) s \<Longrightarrow> ToLower X s = s"
proof -
  assume "list_all (\<lambda>c. is_ascii c \<and> \<not> is_upper c) s"
  then have "list_all is_ascii s" and "map lower_byte s = s"
    by (auto simp: list_all_iff lower_byte_id map_idI)
  then show ?thesis by (simp add: ToLower_ascii)
qed

text \<open>The UTF-8 encodings of the runes with \<^verbatim>\<open>unicode.IsSpace\<close>.\<close>

definition space_runes :: "string list" where
  "space_runes =
     map (\<lambda>n. [chr8 n]) [9, 10, 11, 12, 13, 32] @
     map (\<lambda>n. [chr8 194, chr8 n]) [133, 160] @
     [map chr8 [225, 154, 128]] @
     map (\<lambda>n. [chr8 226, chr8 128, chr8 n]) ([128..<139] @ [168, 169, 175]) @
     [map chr8 [226, 129, 159], map chr8 [227, 128, 128]]"

lemma space_runes_not_Nil: "w \<in> set space_runes \<Longrightarrow> w \<noteq> []"
  by (auto simp: space_runes_def)

lemma space_runes_nth: "i < length space_runes \<Longrightarrow> space_runes ! i \<noteq> []"
  using space_runes_not_Nil nth_mem by blast

function trim_left_space :: "string \<Rightarrow> string" where
  "trim_left_space s =
     (case find (\<lambda>w. prefix w s) space_runes of
        Some w \<Rightarrow> trim_left_space (drop (length w) s)
      | None \<Rightarrow> s)"
  by pat_completeness auto
termination
  by (relation "measure length")
    (auto simp: find_Some_iff prefix_def dest: space_runes_nth)

function trim_right_space :: "string \<Rightarrow> string" where
  "trim_right_space s =
     (case find (\<lambda>w. suffix w s) space_runes of
        Some w \<Rightarrow> trim_right_space (take (length s - length w) s)
      | None \<Rightarrow> s)"
  by pat_completeness auto
termination
  by (relation "measure length")
    (auto simp: find_Some_iff suffix_def dest: space_runes_nth)

declare trim_left_space.simps [simp del] trim_right_space.simps [simp del]

definition TrimSpace :: "string \<Rightarrow> string" where
  "TrimSpace s = trim_right_space (trim_left_space s)"

end
