(* ===== verification/Label.thy ===== *)
theory Label
  imports External
begin

section \<open>The host-label codec (\<^verbatim>\<open>internal/nip5a/label.go\<close>)\<close>

text \<open>
  A site is addressed by the left-most DNS label of its host name: an npub for a root
  site, fifty base-36 digits of the public key followed by the identifier for a named
  site, and \<open>v\<close> followed by fifty base-36 digits of the event id for a snapshot. The
  definitions follow the Go functions in their order; the two encoders and the decoder
  are interpretations of \<open>canonical_codec\<close>, so no two labels name the same site.
\<close>

datatype site_type = SiteNone | SiteRoot | SiteNamed | SiteSnapshot
  \<comment> \<open>\<open>SiteNone\<close> is the empty string of Go's zero value\<close>

datatype label_error =
    Want64Hex string
  | Exceeds50Digits
  | Want50Chars
  | InvalidDigits
  | Exceeds32Bytes

definition LabelMaxLen :: nat where
  "LabelMaxLen = 63"

definition is_d_char :: "char \<Rightarrow> bool" where
  "is_d_char c \<longleftrightarrow> is_lower_digit 36 c \<or> c = CHR ''-''"

definition reB36Fifty :: "string \<Rightarrow> bool" where
  "reB36Fifty s \<longleftrightarrow> length s = 50 \<and> list_all (is_lower_digit 36) s"

definition reD :: "string \<Rightarrow> bool" where
  "reD s \<longleftrightarrow> 1 \<le> length s \<and> length s \<le> 13 \<and> list_all is_d_char s"

definition reNamed :: "string \<Rightarrow> bool" where
  "reNamed s \<longleftrightarrow> reB36Fifty (take 50 s) \<and> reD (drop 50 s)"

definition Base36Encode32 :: "string \<Rightarrow> label_error + string" where
  "Base36Encode32 hex32 =
     (case DecodeString hex32 of
        None \<Rightarrow> Inl (Want64Hex hex32)
      | Some b \<Rightarrow>
          if length b \<noteq> 32 then Inl (Want64Hex hex32)
          else
            let n = SetBytes b; s = Text n 36 in
            if length s > 50 then Inl Exceeds50Digits
            else Inr (replicate (50 - length s) (CHR ''0'') @ s))"

definition Base36Decode50 :: "string \<Rightarrow> label_error + string" where
  "Base36Decode50 s =
     (if \<not> reB36Fifty s then Inl Want50Chars
      else case SetString s 36 of
        None \<Rightarrow> Inl InvalidDigits
      | Some n \<Rightarrow>
          if BitLen n > 256 then Inl Exceeds32Bytes
          else Inr (EncodeToString (FillBytes n 32)))"

definition IsValidD :: "string \<Rightarrow> bool" where
  "IsValidD d \<longleftrightarrow> reD d \<and> \<not> HasSuffix d ''-''"

definition RootLabel :: "string \<Rightarrow> string" where
  "RootLabel npub = npub"

definition NamedLabel :: "string \<Rightarrow> string \<Rightarrow> label_error + string" where
  "NamedLabel pubkeyHex d =
     (case Base36Encode32 pubkeyHex of Inl e \<Rightarrow> Inl e | Inr b36 \<Rightarrow> Inr (b36 @ d))"

definition SnapshotLabel :: "string \<Rightarrow> label_error + string" where
  "SnapshotLabel eventIDHex =
     (case Base36Encode32 eventIDHex of Inl e \<Rightarrow> Inl e | Inr b36 \<Rightarrow> Inr (CHR ''v'' # b36))"

definition CanonicalSiteURL :: "string \<Rightarrow> string \<Rightarrow> string" where
  "CanonicalSiteURL label gatewayDomain = label @ ''.'' @ gatewayDomain"

text \<open>The result is \<open>(siteType, hexID, d, ok)\<close>.\<close>

definition not_a_label :: "site_type \<times> string \<times> string \<times> bool" where
  "not_a_label = (SiteNone, [], [], False)"

definition DecodeLabel :: "ext \<Rightarrow> string \<Rightarrow> site_type \<times> string \<times> string \<times> bool" where
  "DecodeLabel X label =
     (if HasPrefix label ''npub1'' then
        (case nip19_decode X label of
           None \<Rightarrow> not_a_label
         | Some (pre, v) \<Rightarrow>
             if pre \<noteq> ''npub'' then not_a_label
             else (case v of
                 NOther \<Rightarrow> not_a_label
               | NString pk \<Rightarrow>
                   if length pk \<noteq> 64 then not_a_label else (SiteRoot, pk, [], True)))
      else if length label = 51 \<and> hd label = CHR ''v'' \<and> reB36Fifty (tl label) then
        (case Base36Decode50 (tl label) of
           Inl e \<Rightarrow> not_a_label
         | Inr eid \<Rightarrow> (SiteSnapshot, eid, [], True))
      else if reNamed label \<and> \<not> HasSuffix label ''-'' then
        (case Base36Decode50 (take 50 label) of
           Inl e \<Rightarrow> not_a_label
         | Inr pk \<Rightarrow> (SiteNamed, pk, drop 50 label, True))
      else not_a_label)"

definition NPub :: "ext \<Rightarrow> string \<Rightarrow> string option" where
  "NPub X pubkeyHex = nip19_public_key X pubkeyHex"

subsection \<open>The base-36 codec\<close>

definition b36_of :: "nat \<Rightarrow> string" where
  "b36_of n = map digit_char (pad 50 (digits 36 n))"

lemma pow_256_36: "(2::nat) ^ 256 < 7 * 36 ^ 49" "(2::nat) ^ 256 < 36 ^ 50"
  by simp_all

lemma b36_text:
  assumes "n < 2 ^ 256"
  shows "length (Text n 36) \<le> 50"
    and "replicate (50 - length (Text n 36)) (CHR ''0'') @ Text n 36 = b36_of n"
proof -
  have "n < 36 ^ 50" using assms pow_256_36(2) by (rule less_trans)
  then have len: "length (digits 36 n) \<le> 50" by (subst length_digits) auto
  then show "length (Text n 36) \<le> 50" by (auto simp: Text_def)
  have zero: "digit_char 0 = CHR ''0''" by (simp add: digit_char_def char_of_def bit_0)
  show "replicate (50 - length (Text n 36)) (CHR ''0'') @ Text n 36 = b36_of n"
  proof (cases "n = 0")
    case True
    then show ?thesis
      by (simp add: Text_def b36_of_def pad_def zero replicate_append_same [symmetric]
          numeral_eq_Suc)
  next
    case False
    then show ?thesis by (simp add: Text_def b36_of_def pad_def zero)
  qed
qed

lemma b36_of_digits:
  assumes "n < 2 ^ 256"
  shows "reB36Fifty (b36_of n)"
proof -
  have "n < 36 ^ 50" using assms pow_256_36(2) by (rule less_trans)
  then have len: "length (digits 36 n) \<le> 50" by (subst length_digits) auto
  have "d < 36" if "d \<in> set (pad 50 (digits 36 n))" for d
    using that by (rule pad_less [of 36 "digits 36 n", rotated 2]) (auto dest: digits_less)
  then show ?thesis
    using len by (auto simp: reB36Fifty_def b36_of_def length_pad list_all_iff digit_char_lower)
qed

lemma lower_digits_map:
  "list_all (is_lower_digit b) s \<Longrightarrow>
     map digit_char (map (\<lambda>c. the (digit_val c)) s) = s \<and>
     (\<forall>d \<in> set (map (\<lambda>c. the (digit_val c)) s). d < b)"
  by (induction s) (auto elim: is_lower_digitE)

lemma SetString_b36:
  "list_all (is_lower_digit 36) s \<Longrightarrow> s \<noteq> [] \<Longrightarrow>
     SetString s 36 = Some (undigits 36 (map (\<lambda>c. the (digit_val c)) s))"
  by (auto simp: SetString_def list_all_iff is_lower_digit_def split: option.splits)

lemma SetString_b36_of:
  assumes "n < 2 ^ 256"
  shows "SetString (b36_of n) 36 = Some n"
proof -
  have lt: "d < 36" if "d \<in> set (pad 50 (digits 36 n))" for d
    using that by (rule pad_less [of 36 "digits 36 n", rotated 2]) (auto dest: digits_less)
  have "map (\<lambda>d. the (digit_val (digit_char d))) (pad 50 (digits 36 n)) = pad 50 (digits 36 n)"
    by (rule map_idI) (simp add: lt)
  then have "map (\<lambda>c. the (digit_val c)) (b36_of n) = pad 50 (digits 36 n)"
    by (simp add: b36_of_def comp_def)
  then show ?thesis
    using b36_of_digits [OF assms] by (subst SetString_b36) (auto simp: reB36Fifty_def)
qed

lemma b36_of_SetString:
  assumes "reB36Fifty s"
  obtains n where "SetString s 36 = Some n" and "b36_of n = s"
proof
  let ?ds = "map (\<lambda>c. the (digit_val c)) s"
  from assms have ds: "map digit_char ?ds = s" "\<forall>d \<in> set ?ds. d < 36" "length ?ds = 50"
    using lower_digits_map [of 36 s] by (auto simp: reB36Fifty_def)
  show "SetString s 36 = Some (undigits 36 ?ds)"
    using assms by (intro SetString_b36) (auto simp: reB36Fifty_def)
  have "pad 50 (digits 36 (undigits 36 ?ds)) = ?ds"
    by (rule pad_digits_undigits) (use ds in auto)
  then show "b36_of (undigits 36 ?ds) = s" using ds(1) by (simp add: b36_of_def)
qed

lemma Encode32_b36:
  "DecodeString h = Some b \<Longrightarrow> length b = 32 \<Longrightarrow> Base36Encode32 h = Inr (b36_of (SetBytes b))"
  using b36_text [OF SetBytes_less [of b]] by (simp add: Base36Encode32_def Let_def)

lemma hex64_decode: "hex64 h \<Longrightarrow> \<exists>b. DecodeString h = Some b \<and> length b = 32 \<and> EncodeToString b = h"
  using DecodeString_total [of h] length_DecodeString [of h] EncodeToString_Decode [of h]
  by (fastforce simp: hex64_def)

lemma hex64_Encode: "length b = 32 \<Longrightarrow> hex64 (EncodeToString b)"
  by (simp add: hex64_def EncodeToString_lower)

definition b36_enc :: "string \<Rightarrow> string" where
  "b36_enc h = (case Base36Encode32 h of Inr s \<Rightarrow> s | Inl _ \<Rightarrow> [])"

definition b36_dec :: "string \<Rightarrow> string option" where
  "b36_dec s = (case Base36Decode50 s of Inr h \<Rightarrow> Some h | Inl _ \<Rightarrow> None)"

lemma Decode50_Encode32:
  assumes "hex64 h"
  shows "\<exists>s. Base36Encode32 h = Inr s \<and> reB36Fifty s \<and> Base36Decode50 s = Inr h"
proof -
  obtain b where b: "DecodeString h = Some b" "length b = 32" "EncodeToString b = h"
    using hex64_decode [OF assms] by blast
  have lt: "SetBytes b < 2 ^ 256" using b(2) by (rule SetBytes_less)
  have "Base36Decode50 (b36_of (SetBytes b)) = Inr h"
    using lt b(2,3) b36_of_digits [OF lt] FillBytes_Set [of b]
    by (simp add: Base36Decode50_def SetString_b36_of BitLen_le not_less)
  then show ?thesis using Encode32_b36 [OF b(1,2)] b36_of_digits [OF lt] by blast
qed

lemma Encode32_Decode50:
  assumes "Base36Decode50 s = Inr h"
  shows "hex64 h \<and> Base36Encode32 h = Inr s"
proof -
  from assms have "reB36Fifty s" by (auto simp: Base36Decode50_def split: if_splits)
  then obtain n where n: "SetString s 36 = Some n" "b36_of n = s"
    by (rule b36_of_SetString)
  with assms \<open>reB36Fifty s\<close> have lt: "n < 2 ^ 256" and h: "h = EncodeToString (FillBytes n 32)"
    by (auto simp: Base36Decode50_def BitLen_le not_less split: if_splits)
  from lt have "length (FillBytes n 32) = 32" by (rule length_FillBytes)
  then show ?thesis
    using Encode32_b36 [of h "FillBytes n 32"] n(2) h hex64_Encode
    by (simp add: DecodeString_Encode SetBytes_Fill)
qed

interpretation b36c: canonical_codec hex64 b36_enc b36_dec
proof unfold_locales
  show "b36_dec (b36_enc h) = Some h" if "hex64 h" for h
    using Decode50_Encode32 [OF that] by (auto simp: b36_enc_def b36_dec_def)
  show "hex64 h" if "b36_dec s = Some h" for s h
    using that Encode32_Decode50 by (auto simp: b36_dec_def split: sum.splits)
  show "b36_enc h = s" if "b36_dec s = Some h" for s h
    using that Encode32_Decode50 [of s h] by (auto simp: b36_enc_def b36_dec_def split: sum.splits)
qed

subsection \<open>Named and snapshot labels\<close>

lemma undigits_Cons: "undigits b (d # ds) = d * b ^ length ds + undigits b ds"
  by (induction ds rule: rev_induct) (simp_all add: undigits_def algebra_simps)

text \<open>The first of the fifty digits is at most 6, so a named label can start neither with
  the \<open>n\<close> of an npub nor with the \<open>v\<close> of a snapshot.\<close>

lemma b36_of_hd:
  assumes "n < 2 ^ 256"
  shows "\<exists>d \<le> 6. \<exists>s. b36_of n = digit_char d # s"
proof -
  obtain d ds where dd: "pad 50 (digits 36 n) = d # ds" and len: "length ds = 49"
  proof -
    have "length (pad 50 (digits 36 n)) = 50"
      using b36_of_digits [OF assms] by (simp add: reB36Fifty_def b36_of_def)
    then show thesis by (cases "pad 50 (digits 36 n)") (auto intro: that)
  qed
  then have "n = d * 36 ^ 49 + undigits 36 ds"
    using undigits_Cons [of 36 d ds] undigits_pad [of 36 50 "digits 36 n"] by simp
  then have "d * 36 ^ 49 < 7 * 36 ^ 49"
    using assms pow_256_36(1) by linarith
  then have "d < 7" by (simp only: mult_less_cancel2)
  then show ?thesis using dd by (intro exI [of _ d]) (simp add: b36_of_def)
qed

lemma Encode32_hd:
  assumes "Base36Encode32 h = Inr s"
  shows "reB36Fifty s \<and> hd s \<noteq> CHR ''v'' \<and> hd s \<noteq> CHR ''n''"
proof -
  from assms obtain b where b: "DecodeString h = Some b" "length b = 32"
    by (auto simp: Base36Encode32_def split: option.splits if_splits)
  then have lt: "SetBytes b < 2 ^ 256" and s: "s = b36_of (SetBytes b)"
    using SetBytes_less Encode32_b36 [OF b] assms by auto
  from b36_of_hd [OF lt] obtain d t where d: "d \<le> 6" "s = digit_char d # t"
    using s by auto
  moreover have "digit_char d \<noteq> CHR ''v'' \<and> digit_char d \<noteq> CHR ''n''"
    using d(1) digit_val_char [of d] by (auto simp: digit_val_def ascii_defs)
  ultimately show ?thesis using b36_of_digits [OF lt] s by auto
qed

lemma reB36Fifty_length: "reB36Fifty s \<Longrightarrow> length s = 50"
  by (simp add: reB36Fifty_def)

lemma IsValidD_facts: "IsValidD d \<Longrightarrow> d \<noteq> [] \<and> length d \<le> 13 \<and> reD d \<and> last d \<noteq> CHR ''-''"
  by (auto simp: IsValidD_def reD_def suffix_single)

lemma DecodeLabel_named_iff:
  "DecodeLabel X label = (SiteNamed, pk, d, True) \<longleftrightarrow>
     hex64 pk \<and> IsValidD d \<and> NamedLabel pk d = Inr label"
proof
  assume l: "DecodeLabel X label = (SiteNamed, pk, d, True)"
  then have re: "reNamed label" "\<not> HasSuffix label ''-''"
    and dec: "Base36Decode50 (take 50 label) = Inr pk" and d: "d = drop 50 label"
    by (auto simp: DecodeLabel_def not_a_label_def split: if_splits option.splits sum.splits
        nip19_value.splits)
  from re(1) have "d \<noteq> []" and "reD d" by (auto simp: reNamed_def reD_def d)
  with re(2) d have "IsValidD d"
    by (auto simp: IsValidD_def suffix_single)
  with Encode32_Decode50 [OF dec] d show "hex64 pk \<and> IsValidD d \<and> NamedLabel pk d = Inr label"
    by (simp add: NamedLabel_def)
next
  assume r: "hex64 pk \<and> IsValidD d \<and> NamedLabel pk d = Inr label"
  then obtain s where s: "Base36Encode32 pk = Inr s" "Base36Decode50 s = Inr pk"
    and label: "label = s @ d"
    using Decode50_Encode32 [of pk] by (auto simp: NamedLabel_def split: sum.splits)
  from Encode32_hd [OF s(1)] have s50: "reB36Fifty s" "length s = 50"
    using reB36Fifty_length by auto
  then have "s \<noteq> []" by auto
  then have hd: "hd label \<noteq> CHR ''v''" "hd label \<noteq> CHR ''n''"
    using Encode32_hd [OF s(1)] label by auto
  have "\<not> HasPrefix label ''npub1''" using hd(2) by (auto simp: prefix_def)
  moreover have "reNamed label" and "\<not> HasSuffix label ''-''"
    using s50 label r IsValidD_facts [of d] by (auto simp: reNamed_def suffix_single)
  ultimately show "DecodeLabel X label = (SiteNamed, pk, d, True)"
    using hd(1) s s50 label by (simp add: DecodeLabel_def)
qed

lemma DecodeLabel_snapshot_iff:
  "DecodeLabel X label = (SiteSnapshot, eid, d, True) \<longleftrightarrow>
     hex64 eid \<and> d = [] \<and> SnapshotLabel eid = Inr label"
proof
  assume l: "DecodeLabel X label = (SiteSnapshot, eid, d, True)"
  then have "length label = 51" "hd label = CHR ''v''"
    and dec: "Base36Decode50 (tl label) = Inr eid" and d: "d = []"
    by (auto simp: DecodeLabel_def not_a_label_def split: if_splits option.splits sum.splits
        nip19_value.splits)
  then have "label = CHR ''v'' # tl label" by (cases label) auto
  with Encode32_Decode50 [OF dec] d
  show "hex64 eid \<and> d = [] \<and> SnapshotLabel eid = Inr label"
    by (simp add: SnapshotLabel_def)
next
  assume r: "hex64 eid \<and> d = [] \<and> SnapshotLabel eid = Inr label"
  then obtain s where "Base36Decode50 s = Inr eid" "reB36Fifty s" "label = CHR ''v'' # s"
    using Decode50_Encode32 [of eid] by (auto simp: SnapshotLabel_def split: sum.splits)
  then show "DecodeLabel X label = (SiteSnapshot, eid, d, True)"
    using r by (simp add: DecodeLabel_def reB36Fifty_length)
qed

lemma DecodeLabel_hexID: "DecodeLabel X label = (st, hexID, d, True) \<Longrightarrow> length hexID = 64"
  by (auto simp: DecodeLabel_def not_a_label_def hex64_def dest!: Encode32_Decode50
      split: if_splits option.splits sum.splits nip19_value.splits)

definition named_enc :: "string \<times> string \<Rightarrow> string" where
  "named_enc = (\<lambda>(pk, d). case NamedLabel pk d of Inr l \<Rightarrow> l | Inl _ \<Rightarrow> [])"

definition named_dec :: "ext \<Rightarrow> string \<Rightarrow> (string \<times> string) option" where
  "named_dec X label =
     (case DecodeLabel X label of
        (st, pk, d, ok) \<Rightarrow> if ok \<and> st = SiteNamed then Some (pk, d) else None)"

definition snapshot_enc :: "string \<Rightarrow> string" where
  "snapshot_enc eid = (case SnapshotLabel eid of Inr l \<Rightarrow> l | Inl _ \<Rightarrow> [])"

definition snapshot_dec :: "ext \<Rightarrow> string \<Rightarrow> string option" where
  "snapshot_dec X label =
     (case DecodeLabel X label of
        (st, eid, d, ok) \<Rightarrow> if ok \<and> st = SiteSnapshot then Some eid else None)"

lemma named_dec_iff:
  "named_dec X label = Some (pk, d) \<longleftrightarrow> DecodeLabel X label = (SiteNamed, pk, d, True)"
  by (auto simp: named_dec_def split: prod.splits)

lemma snapshot_dec_iff:
  "snapshot_dec X label = Some eid \<longleftrightarrow> DecodeLabel X label = (SiteSnapshot, eid, [], True)"
  by (auto simp: snapshot_dec_def split: prod.splits) (metis DecodeLabel_snapshot_iff)

interpretation namedc:
  canonical_codec "\<lambda>(pk, d). hex64 pk \<and> IsValidD d" named_enc "named_dec X" for X
proof unfold_locales
  fix x assume "(\<lambda>(pk, d). hex64 pk \<and> IsValidD d) x"
  then show "named_dec X (named_enc x) = Some x"
    using Decode50_Encode32 [of "fst x"]
    by (cases x) (auto simp: named_dec_iff DecodeLabel_named_iff named_enc_def NamedLabel_def)
next
  fix s x assume "named_dec X s = Some x"
  then show "(\<lambda>(pk, d). hex64 pk \<and> IsValidD d) x" and "named_enc x = s"
    by (cases x; auto simp: named_dec_iff DecodeLabel_named_iff named_enc_def)+
qed

interpretation snapc: canonical_codec hex64 snapshot_enc "snapshot_dec X" for X
proof unfold_locales
  fix h assume "hex64 h"
  then show "snapshot_dec X (snapshot_enc h) = Some h"
    using Decode50_Encode32 [of h]
    by (auto simp: snapshot_dec_iff DecodeLabel_snapshot_iff snapshot_enc_def SnapshotLabel_def)
next
  fix s h assume "snapshot_dec X s = Some h"
  then show "hex64 h" and "snapshot_enc h = s"
    by (auto simp: snapshot_dec_iff DecodeLabel_snapshot_iff snapshot_enc_def)
qed

lemma DecodeLabel_types:
  "DecodeLabel X l = (st, hexID, d, True) \<Longrightarrow> st \<noteq> SiteRoot \<Longrightarrow>
     st = SiteNamed \<or> st = SiteSnapshot"
  by (auto simp: DecodeLabel_def not_a_label_def
      split: if_splits option.splits sum.splits nip19_value.splits)

lemma DecodeLabel_length:
  assumes "DecodeLabel X l = (st, hexID, d, True)" and "st \<noteq> SiteRoot"
  shows "length l \<le> LabelMaxLen"
  using DecodeLabel_types [OF assms]
proof
  assume "st = SiteNamed"
  with assms obtain s where "Base36Encode32 hexID = Inr s" "l = s @ d" "IsValidD d"
    by (auto simp: DecodeLabel_named_iff NamedLabel_def split: sum.splits)
  then show ?thesis
    using Encode32_hd [of hexID s] IsValidD_facts [of d] reB36Fifty_length [of s]
    by (simp add: LabelMaxLen_def)
next
  assume "st = SiteSnapshot"
  with assms show ?thesis
    using Encode32_hd [of hexID] reB36Fifty_length
    by (fastforce simp: DecodeLabel_snapshot_iff SnapshotLabel_def LabelMaxLen_def
        split: sum.splits)
qed

lemma DecodeLabel_unique:
  assumes "DecodeLabel X l = (st, hexID, d, True)" and "st \<noteq> SiteRoot"
    and "DecodeLabel X l' = (st, hexID, d, True)"
  shows "l' = l"
  using DecodeLabel_types [OF assms(1,2)]
proof
  assume "st = SiteNamed"
  with assms have "named_dec X l = Some (hexID, d)" "named_dec X l' = Some (hexID, d)"
    by (simp_all add: named_dec_iff)
  then show ?thesis by (metis namedc.dec_inj)
next
  assume "st = SiteSnapshot"
  with assms have "snapshot_dec X l = Some hexID" "snapshot_dec X l' = Some hexID"
    by (auto simp: snapshot_dec_iff DecodeLabel_snapshot_iff)
  then show ?thesis by (metis snapc.dec_inj)
qed

text \<open>The comment on \<open>Base36Encode32\<close> says that every 32-byte value is at least \<open>36 ^ 49\<close>; the
  value 0 is not, and its encoding is all padding.\<close>

lemma base36_zero: "Base36Encode32 (replicate 64 (CHR ''0'')) = Inr (replicate 50 (CHR ''0''))"
proof -
  have zero: "char_of (0 :: nat) = (CHR 0x00)" by (simp add: char_of_def)
  have dec: "DecodeString (replicate (2 * n) (CHR ''0'')) = Some (replicate n (CHR 0x00))" for n
    by (induction n) (simp_all add: zero hex_val_def digit_val_def is_digit_def)
  have "SetBytes (replicate 32 (CHR 0x00)) = 0"
    using undigits_zeros [of 256 32 "[]"] by (simp add: SetBytes_def)
  moreover have "b36_of 0 = replicate 50 (CHR ''0'')"
    by (simp add: b36_of_def pad_def digit_char_def char_of_def bit_0)
  ultimately show ?thesis
    using Encode32_b36 [of "replicate 64 (CHR ''0'')" "replicate 32 (CHR 0x00)"] dec [of 32]
    by simp
qed

lemma hex64_zero: "hex64 (replicate 64 (CHR ''0''))"
  by (simp add: hex64_def list_all_iff is_lower_digit_def digit_val_def ascii_defs)

lemma zero_snapshot:
  "DecodeLabel X (CHR ''v'' # replicate 50 (CHR ''0'')) =
     (SiteSnapshot, replicate 64 (CHR ''0''), [], True)"
  by (subst DecodeLabel_snapshot_iff) (use hex64_zero base36_zero in \<open>simp add: SnapshotLabel_def\<close>)

subsection \<open>Properties\<close>

text \<open>C39: The base-36 codec of public keys and event ids is exact. \<open>Base36Decode50\<close> succeeds on
  precisely the strings \<open>Base36Encode32\<close> makes of 64 lowercase hexadecimal characters, and
  gives those characters back: encoding then decoding is the identity, and no string that
  is not an encoding (a value above 32 bytes, a wrong length, an uppercase digit) decodes.\<close>

theorem base36_exact:
  "Base36Decode50 s = Inr h \<longleftrightarrow> hex64 h \<and> Base36Encode32 h = Inr s"
  using Decode50_Encode32 [of h] Encode32_Decode50 [of s h] by auto

text \<open>\<open>Base36Encode32\<close> accepts exactly the hexadecimal strings of 32 bytes (either case),
  always gives 50 base-36 digits and never takes the branch for a value that needs more
  than 50 digits; the leading digit of every encoding is at most 6.\<close>

lemma base36_encode_total:
  "(case Base36Encode32 h of
      Inr s \<Rightarrow> (\<exists>b. DecodeString h = Some b \<and> length b = 32 \<and> s = b36_of (SetBytes b)) \<and>
        length s = 50 \<and> list_all (is_lower_digit 36) s \<and> the (digit_val (hd s)) \<le> 6
    | Inl e \<Rightarrow> e = Want64Hex h \<and> map_option length (DecodeString h) \<noteq> Some 32)"
proof (cases "\<exists>b. DecodeString h = Some b \<and> length b = 32")
  case True
  then obtain b where b: "DecodeString h = Some b" "length b = 32" by blast
  have lt: "SetBytes b < 2 ^ 256" using b(2) by (rule SetBytes_less)
  from b36_of_hd [OF lt] b36_of_digits [OF lt] Encode32_b36 [OF b] b show ?thesis
    by (auto simp: reB36Fifty_def)
next
  case False
  then have "Base36Encode32 h = Inl (Want64Hex h)"
    by (auto simp: Base36Encode32_def split: option.splits)
  with False show ?thesis by auto
qed

text \<open>C38: A label decodes to a named site exactly when it is the canonical named label of that
  public key and a valid identifier; in particular \<open>DecodeLabel\<close> inverts \<open>NamedLabel\<close>, and
  the npub and snapshot tests that come before it never take a named label.\<close>

theorem named_label_exact:
  "DecodeLabel X label = (SiteNamed, pk, d, True) \<longleftrightarrow>
     hex64 pk \<and> IsValidD d \<and> NamedLabel pk d = Inr label"
  by (rule DecodeLabel_named_iff)

text \<open>A label decodes to a snapshot exactly when it is the canonical snapshot label of that
  event id.\<close>

lemma snapshot_label_exact:
  "DecodeLabel X label = (SiteSnapshot, eid, d, True) \<longleftrightarrow>
     hex64 eid \<and> d = [] \<and> SnapshotLabel eid = Inr label"
  by (rule DecodeLabel_snapshot_iff)

text \<open>Site identity is unambiguous: a decoded label carries a 64-character identity, a
  named or snapshot label stays within the DNS label limit, and any other label that
  decodes to the same named site or snapshot is that label.\<close>

lemma decode_label_canonical:
  assumes "DecodeLabel X l = (st, hexID, d, True)"
  shows "length hexID = 64 \<and>
    (st \<noteq> SiteRoot \<longrightarrow>
       length l \<le> LabelMaxLen \<and>
       (\<forall>l'. DecodeLabel X l' = (st, hexID, d, True) \<longrightarrow> l' = l))"
  using DecodeLabel_hexID [OF assms] DecodeLabel_length [OF assms] DecodeLabel_unique [OF assms]
  by blast

lemma decode_label_canonical_witness:
  "length (replicate 64 (CHR ''0'')) = 64 \<and>
     length (CHR ''v'' # replicate 50 (CHR ''0'')) \<le> LabelMaxLen"
  using decode_label_canonical [OF zero_snapshot, of sample_ext] by simp

end
