(* ===== verification/Manifest.thy ===== *)
theory Manifest
  imports Label
begin

section \<open>Manifest validation (\<^verbatim>\<open>internal/nip5a/manifest.go\<close>)\<close>

text \<open>
  \<open>Validate\<close> takes an event and returns a verdict with the list of error codes. The model
  follows the Go function block by block (kind, \<open>d\<close> tag, \<open>path\<close> tags, aggregate hash, \<open>x\<close>
  tags, \<open>a\<close>/\<open>A\<close> tags, label), each block a definition that appends its error codes in the
  order of the code. \<open>manifest_ok\<close> is the rule set NIP-5A asks for, stated without error
  codes or accumulators; \<open>Validate\<close> is shown to decide it.
\<close>

definition KindRoot :: int where "KindRoot = 15128"
definition KindNamed :: int where "KindNamed = 35128"
definition KindSnapshot :: int where "KindSnapshot = 5128"

lemmas kind_defs = KindRoot_def KindNamed_def KindSnapshot_def

record path_entry =
  pe_path :: string
  pe_hash :: string

record options =
  ForbiddenPubkeys :: "string set"
  MaxPaths :: int

record verdict =
  v_valid :: bool
  v_errors :: "string list"
  v_site_type :: site_type
  v_pubkey :: string
  v_event_id :: string
  v_d :: string
  v_paths :: "path_entry list"
  v_aggregate_hash :: string
  v_label :: string

definition reSHA256 :: "string \<Rightarrow> bool" where
  "reSHA256 s \<longleftrightarrow> length s = 64 \<and> list_all (is_lower_digit 16) s"

definition IsSHA256Hex :: "string \<Rightarrow> bool" where
  "IsSHA256Hex s \<longleftrightarrow> reSHA256 s"

lemma IsSHA256Hex_hex64: "IsSHA256Hex s \<longleftrightarrow> hex64 s"
  by (simp add: IsSHA256Hex_def reSHA256_def hex64_def)

definition is_ref_char :: "char \<Rightarrow> bool" where
  "is_ref_char c \<longleftrightarrow> is_digit c \<or> is_lower c \<or> is_upper c \<or> c = CHR ''_'' \<or> c = CHR ''-''"

definition reRef :: "string \<Rightarrow> bool" where
  "reRef s \<longleftrightarrow>
     (case IndexByte s (CHR '':'') of
        None \<Rightarrow> False
      | Some i \<Rightarrow>
          1 \<le> i \<and> list_all is_digit (take i s) \<and> hex64 (take 64 (drop (Suc i) s)) \<and>
          (case drop 64 (drop (Suc i) s) of
             [] \<Rightarrow> False
           | c # rest \<Rightarrow> c = CHR '':'' \<and> list_all is_ref_char rest))"

definition path_line :: "path_entry \<Rightarrow> string" where
  "path_line p = pe_hash p @ '' '' @ pe_path p @ [CHR 0x0A]"

definition AggregateHash :: "ext \<Rightarrow> path_entry list \<Rightarrow> string" where
  "AggregateHash X paths = hash_hex X (concat (sort (map path_line paths)))"

definition tagName :: "string list \<Rightarrow> string" where
  "tagName t = (case t of [] \<Rightarrow> [] | n # _ \<Rightarrow> n)"

definition tagValues :: "string list list \<Rightarrow> string \<Rightarrow> string list" where
  "tagValues tags name = map (\<lambda>t. t ! 1) (filter (\<lambda>t. tagName t = name \<and> 1 < length t) tags)"

definition filterTags :: "string list list \<Rightarrow> string \<Rightarrow> string list list" where
  "filterTags tags name = filter (\<lambda>t. tagName t = name) tags"

definition hasPathExtension :: "string \<Rightarrow> bool" where
  "hasPathExtension path =
     (let last = (case LastIndexByte path (CHR ''/'') of Some i \<Rightarrow> drop (Suc i) path | None \<Rightarrow> path)
      in Contains last ''.'' \<and> last \<noteq> ''.'' \<and> \<not> HasPrefix last ''..'')"

definition badPathChars :: "string \<Rightarrow> bool" where
  "badPathChars path \<longleftrightarrow>
     list_ex (\<lambda>r. is_control r \<or> r = CHR 0x5C) path \<or>
     list_ex (\<lambda>seg. seg = ''..'') (Split path ''/'')"

fun dedupe_from :: "string list \<Rightarrow> string list \<Rightarrow> string list" where
  "dedupe_from seen [] = []"
| "dedupe_from seen (s # ss) =
     (if s \<in> set seen then dedupe_from seen ss else s # dedupe_from (s # seen) ss)"

definition dedupe :: "string list \<Rightarrow> string list" where
  "dedupe ss = dedupe_from [] ss"

subsection \<open>The blocks of \<open>Validate\<close>\<close>

definition kind_errors :: "int \<Rightarrow> string list" where
  "kind_errors kind =
     (if kind = KindRoot \<or> kind = KindNamed \<or> kind = KindSnapshot then [] else [''bad_kind''])"

definition d_errors :: "int \<Rightarrow> string list \<Rightarrow> string list" where
  "d_errors kind dValues =
     (if kind = KindNamed then
        (if length dValues = 0 then [''missing_d'']
         else if length dValues > 1 \<or> \<not> IsValidD (dValues ! 0) then [''bad_d'']
         else [])
      else if kind = KindRoot \<and> length dValues > 0 then [''d_on_root'']
      else [])"

text \<open>One iteration of the loop over the path tags: errors, paths seen, valid paths.\<close>

definition path_step ::
    "string list \<Rightarrow> string list \<times> string set \<times> path_entry list \<Rightarrow>
     string list \<times> string set \<times> path_entry list" where
  "path_step t = (\<lambda>(errs, seen, ps).
     if length t \<noteq> 3 then (errs @ [''bad_path_shape''], seen, ps)
     else
       let path = t ! 1; blobHash = t ! 2 in
       if \<not> HasPrefix path ''/'' then (errs @ [''relative_path''], seen, ps)
       else if \<not> hasPathExtension path then (errs @ [''no_extension''], seen, ps)
       else if badPathChars path then (errs @ [''bad_path_chars''], seen, ps)
       else if \<not> IsSHA256Hex blobHash then (errs @ [''bad_hash_hex''], seen, ps)
       else
         (if path \<in> seen then errs @ [''duplicate_path''] else errs,
          insert path seen,
          ps @ [\<lparr>pe_path = path, pe_hash = blobHash\<rparr>]))"

definition x_count_errors :: "int \<Rightarrow> string list list \<Rightarrow> string list" where
  "x_count_errors kind xTags =
     (if kind = KindSnapshot then
        (if length xTags = 0 then [''missing_aggregate_x'']
         else if length xTags > 1 then [''multiple_aggregate_x'']
         else [])
      else [])"

definition x_error :: "string \<Rightarrow> string list \<Rightarrow> string list" where
  "x_error computed t =
     (if length t \<noteq> 3 \<or> t ! 2 \<noteq> ''aggregate'' \<or> \<not> IsSHA256Hex (t ! 1) then [''bad_x_shape'']
      else if computed \<noteq> [] \<and> t ! 1 \<noteq> computed then [''bad_aggregate_x'']
      else [])"

definition ref_error :: "string \<Rightarrow> string list \<Rightarrow> string list" where
  "ref_error code t = (if length t < 2 \<or> \<not> reRef (t ! 1) then [code] else [])"

definition a_errors :: "int \<Rightarrow> string list list \<Rightarrow> string list list \<Rightarrow> string list" where
  "a_errors kind aTags ATags =
     (if kind = KindSnapshot \<or> length aTags > 0 \<or> length ATags > 0 then
        (if length aTags = 0 then [''missing_a'']
         else if length aTags > 1 then [''multiple_a'']
         else []) @
        (if length ATags > 1 then [''multiple_A''] else []) @
        (if length aTags > 0 \<and> length ATags = 0 \<and> kind \<noteq> KindSnapshot then [''missing_A''] else []) @
        concat (map (ref_error ''bad_a_shape'') aTags) @
        concat (map (ref_error ''bad_A_shape'') ATags)
      else [])"

definition site_type_of :: "int \<Rightarrow> site_type" where
  "site_type_of kind =
     (if kind = KindRoot then SiteRoot
      else if kind = KindNamed then SiteNamed
      else if kind = KindSnapshot then SiteSnapshot
      else SiteNone)"

definition label_of :: "ext \<Rightarrow> event \<Rightarrow> string \<Rightarrow> string" where
  "label_of X ev d =
     (if ev_kind ev = KindRoot then
        (case NPub X (ev_pubkey ev) of Some npub \<Rightarrow> npub | None \<Rightarrow> [])
      else if ev_kind ev = KindNamed then
        (if d \<noteq> [] then (case NamedLabel (ev_pubkey ev) d of Inr l \<Rightarrow> l | Inl _ \<Rightarrow> []) else [])
      else if ev_kind ev = KindSnapshot then
        (case SnapshotLabel (ev_id ev) of Inr l \<Rightarrow> l | Inl _ \<Rightarrow> [])
      else [])"

text \<open>The early return of a failed id or signature check.\<close>

definition rejected :: "event \<Rightarrow> string \<Rightarrow> verdict" where
  "rejected ev code =
     \<lparr>v_valid = False, v_errors = [code], v_site_type = SiteNone, v_pubkey = ev_pubkey ev,
      v_event_id = ev_id ev, v_d = [], v_paths = [], v_aggregate_hash = [], v_label = []\<rparr>"

definition max_paths_of :: "options \<Rightarrow> int" where
  "max_paths_of opts = (if MaxPaths opts = 0 then 5000 else MaxPaths opts)"

definition pathTags_of :: "event \<Rightarrow> string list list" where
  "pathTags_of ev = filter (\<lambda>t. tagName t = ''path'') (ev_tags ev)"

text \<open>The error list before \<open>dedupe\<close>, with the valid paths and the computed hash.\<close>

definition validate_body ::
    "ext \<Rightarrow> event \<Rightarrow> options \<Rightarrow> string list \<times> path_entry list \<times> string" where
  "validate_body X ev opts =
     (let kind = ev_kind ev;
          pathTags = pathTags_of ev;
          e1 = (if ev_pubkey ev \<in> ForbiddenPubkeys opts then [''forbidden_signer''] else []) @
               kind_errors kind @
               d_errors kind (tagValues (ev_tags ev) ''d'') @
               (if length pathTags = 0 then [''no_paths''] else []);
          (e2, seen, validPaths) = fold path_step pathTags (e1, {}, []);
          e3 = e2 @ (if int (length pathTags) > max_paths_of opts then [''oversize_path_count''] else []);
          computed = (if length validPaths > 0 then AggregateHash X validPaths else []);
          xTags = filterTags (ev_tags ev) ''x'';
          e4 = e3 @ x_count_errors kind xTags @ concat (map (x_error computed) xTags);
          e5 = e4 @ a_errors kind (filterTags (ev_tags ev) ''a'') (filterTags (ev_tags ev) ''A'')
      in (e5, validPaths, computed))"

definition Validate :: "ext \<Rightarrow> event \<Rightarrow> options \<Rightarrow> verdict" where
  "Validate X ev opts =
     (if \<not> check_id X ev then rejected ev ''bad_id''
      else if \<not> check_sig X ev then rejected ev ''bad_signature''
      else
        let (errs, validPaths, computed) = validate_body X ev opts;
            errors = dedupe errs;
            dValues = tagValues (ev_tags ev) ''d'';
            d = (case dValues of [] \<Rightarrow> [] | v # _ \<Rightarrow> v)
        in \<lparr>v_valid = (length errors = 0), v_errors = errors,
            v_site_type = site_type_of (ev_kind ev), v_pubkey = ev_pubkey ev,
            v_event_id = ev_id ev, v_d = d, v_paths = validPaths,
            v_aggregate_hash = computed, v_label = label_of X ev d\<rparr>)"

subsection \<open>The rule set\<close>

definition path_ok :: "string \<Rightarrow> bool" where
  "path_ok p \<longleftrightarrow> HasPrefix p ''/'' \<and> hasPathExtension p \<and> \<not> badPathChars p"

definition path_tag_ok :: "string list \<Rightarrow> bool" where
  "path_tag_ok t \<longleftrightarrow> (\<exists>n p h. t = [n, p, h] \<and> path_ok p \<and> hex64 h)"

definition entry_of :: "string list \<Rightarrow> path_entry" where
  "entry_of t = \<lparr>pe_path = t ! 1, pe_hash = t ! 2\<rparr>"

definition ref_tag_ok :: "string list \<Rightarrow> bool" where
  "ref_tag_ok t \<longleftrightarrow> 2 \<le> length t \<and> reRef (t ! 1)"

definition manifest_ok :: "ext \<Rightarrow> options \<Rightarrow> event \<Rightarrow> bool" where
  "manifest_ok X opts ev \<longleftrightarrow>
     check_id X ev \<and> check_sig X ev \<and> ev_pubkey ev \<notin> ForbiddenPubkeys opts \<and>
     ev_kind ev \<in> {KindRoot, KindNamed, KindSnapshot} \<and>
     (let ds = tagValues (ev_tags ev) ''d'' in
        (ev_kind ev = KindNamed \<longrightarrow> (\<exists>d. ds = [d] \<and> IsValidD d)) \<and>
        (ev_kind ev = KindRoot \<longrightarrow> ds = [])) \<and>
     (let pts = pathTags_of ev in
        pts \<noteq> [] \<and> int (length pts) \<le> max_paths_of opts \<and>
        (\<forall>t \<in> set pts. path_tag_ok t) \<and> distinct (map (\<lambda>t. t ! 1) pts) \<and>
        (let xs = filterTags (ev_tags ev) ''x'' in
           (ev_kind ev = KindSnapshot \<longrightarrow> length xs = 1) \<and>
           (\<forall>t \<in> set xs. t = [''x'', AggregateHash X (map entry_of pts), ''aggregate'']))) \<and>
     (let as = filterTags (ev_tags ev) ''a''; As = filterTags (ev_tags ev) ''A'' in
        (if ev_kind ev = KindSnapshot then length as = 1 \<and> length As \<le> 1
         else (as = [] \<and> As = []) \<or> (length as = 1 \<and> length As = 1)) \<and>
        (\<forall>t \<in> set as \<union> set As. ref_tag_ok t))"

subsection \<open>\<open>Validate\<close> decides the rule set\<close>

lemma dedupe_from_set: "set (dedupe_from seen ss) = set ss - set seen"
  by (induction seen ss rule: dedupe_from.induct) auto

lemma dedupe_from_distinct: "distinct (dedupe_from seen ss)"
  by (induction seen ss rule: dedupe_from.induct) (auto simp: dedupe_from_set)

lemma dedupe_set [simp]: "set (dedupe ss) = set ss"
  by (simp add: dedupe_def dedupe_from_set)

lemma dedupe_distinct [simp]: "distinct (dedupe ss)"
  by (simp add: dedupe_def dedupe_from_distinct)

lemma dedupe_Nil [simp]: "dedupe ss = [] \<longleftrightarrow> ss = []"
  by (metis dedupe_set set_empty)

lemma length3: "length t = 3 \<longleftrightarrow> (\<exists>a b c. t = [a, b, c])"
  by (auto simp: numeral_3_eq_3 length_Suc_conv)

lemma path_step_ok:
  "path_tag_ok t \<Longrightarrow>
     path_step t (e, s, ps) =
       (if t ! 1 \<in> s then e @ [''duplicate_path''] else e, insert (t ! 1) s, ps @ [entry_of t])"
  by (auto simp: path_step_def path_tag_ok_def path_ok_def IsSHA256Hex_hex64 entry_of_def)

lemma path_step_bad:
  "\<not> path_tag_ok t \<Longrightarrow> \<exists>c. path_step t (e, s, ps) = (e @ [c], s, ps)"
  by (auto simp: path_step_def path_tag_ok_def path_ok_def IsSHA256Hex_hex64 Let_def length3)

lemma notin_image: "y \<notin> f ` A \<longleftrightarrow> (\<forall>u \<in> A. f u \<noteq> y)"
  by auto

lemma path_fold:
  "fold path_step ts (e, s, ps) = (e', s', ps') \<Longrightarrow>
     \<exists>E. e' = e @ E \<and>
       (E = [] \<longleftrightarrow> (\<forall>t \<in> set ts. path_tag_ok t \<and> t ! 1 \<notin> s) \<and> distinct (map (\<lambda>t. t ! 1) ts)) \<and>
       (E = [] \<longrightarrow> ps' = ps @ map entry_of ts)"
proof (induction ts arbitrary: e s ps)
  case Nil
  then show ?case by simp
next
  case (Cons t ts)
  obtain e1 s1 ps1 where step: "path_step t (e, s, ps) = (e1, s1, ps1)"
    using prod_cases3 by blast
  with Cons.prems have "fold path_step ts (e1, s1, ps1) = (e', s', ps')" by simp
  from Cons.IH [OF this] obtain E where E: "e' = e1 @ E"
    "E = [] \<longleftrightarrow> (\<forall>t \<in> set ts. path_tag_ok t \<and> t ! 1 \<notin> s1) \<and> distinct (map (\<lambda>t. t ! 1) ts)"
    "E = [] \<longrightarrow> ps' = ps1 @ map entry_of ts"
    by blast
  show ?case
  proof (cases "path_tag_ok t \<and> t ! 1 \<notin> s")
    case True
    with step have "e1 = e" "s1 = insert (t ! 1) s" "ps1 = ps @ [entry_of t]"
      by (simp_all add: path_step_ok)
    with E True show ?thesis by (intro exI [of _ E]) (auto simp: notin_image)
  next
    case False
    with step path_step_bad [of t e s ps] obtain c where "e1 = e @ [c]"
      by (cases "path_tag_ok t") (auto simp: path_step_ok)
    with E(1) False show ?thesis by (intro exI [of _ "c # E"]) auto
  qed
qed

lemma path_fold_entries:
  "fold path_step ts (e, s, ps) = (e', s', ps') \<Longrightarrow>
     \<forall>p \<in> set ps. path_ok (pe_path p) \<and> hex64 (pe_hash p) \<Longrightarrow>
     \<forall>p \<in> set ps'. path_ok (pe_path p) \<and> hex64 (pe_hash p)"
proof (induction ts arbitrary: e s ps)
  case (Cons t ts)
  obtain e1 s1 ps1 where step: "path_step t (e, s, ps) = (e1, s1, ps1)"
    using prod_cases3 by blast
  with Cons.prems have "fold path_step ts (e1, s1, ps1) = (e', s', ps')" by simp
  moreover have "\<forall>p \<in> set ps1. path_ok (pe_path p) \<and> hex64 (pe_hash p)"
    using step Cons.prems(2) path_step_bad [of t e s ps]
    by (cases "path_tag_ok t") (auto simp: path_step_ok entry_of_def path_tag_ok_def)
  ultimately show ?case by (rule Cons.IH)
qed simp

lemma concat_map_Nil: "concat (map f xs) = [] \<longleftrightarrow> (\<forall>x \<in> set xs. f x = [])"
  by auto

lemma filterTags_name: "t \<in> set (filterTags tags (c # n)) \<Longrightarrow> \<exists>r. t = (c # n) # r"
  by (auto simp: filterTags_def tagName_def split: list.splits)

lemma x_errors_Nil:
  assumes "hex64 computed"
  shows "concat (map (x_error computed) (filterTags tags ''x'')) = [] \<longleftrightarrow>
    (\<forall>t \<in> set (filterTags tags ''x''). t = [''x'', computed, ''aggregate''])"
proof -
  have ne: "computed \<noteq> []" using assms by (auto simp: hex64_def)
  have "x_error computed t = [] \<longleftrightarrow> t = [''x'', computed, ''aggregate'']"
    if t: "t \<in> set (filterTags tags ''x'')" for t
  proof -
    obtain r where r: "t = ''x'' # r" using filterTags_name [OF t] by blast
    then show ?thesis using assms ne
      by (cases r; cases "tl r"; cases "tl (tl r)") (auto simp: x_error_def IsSHA256Hex_hex64)
  qed
  then show ?thesis by (simp only: concat_map_Nil) blast
qed

lemma a_errors_Nil:
  "a_errors kind as As = [] \<longleftrightarrow>
     (if kind = KindSnapshot then length as = 1 \<and> length As \<le> 1
      else (as = [] \<and> As = []) \<or> (length as = 1 \<and> length As = 1)) \<and>
     (\<forall>t \<in> set as \<union> set As. ref_tag_ok t)"
proof -
  have ref: "ref_error c t = [] \<longleftrightarrow> ref_tag_ok t" for c t
    by (auto simp: ref_error_def ref_tag_ok_def)
  show ?thesis
    by (cases as; cases As; cases "tl as"; cases "tl As")
      (auto simp: a_errors_def concat_map_Nil ref)
qed

lemma d_errors_Nil:
  "d_errors kind ds = [] \<longleftrightarrow>
     (kind = KindNamed \<longrightarrow> (\<exists>d. ds = [d] \<and> IsValidD d)) \<and> (kind = KindRoot \<longrightarrow> ds = [])"
  by (cases ds; cases "tl ds") (auto simp: d_errors_def kind_defs)

lemma x_count_Nil:
  "x_count_errors kind xs = [] \<longleftrightarrow> (kind = KindSnapshot \<longrightarrow> length xs = 1)"
  by (cases xs; cases "tl xs") (auto simp: x_count_errors_def)

lemma AggregateHash_hex64: "sha256_ok X \<Longrightarrow> hex64 (AggregateHash X ps)"
  by (simp add: AggregateHash_def hash_hex64)

lemma Validate_valid:
  assumes "sha256_ok X"
  shows "v_valid (Validate X ev opts) \<longleftrightarrow> manifest_ok X opts ev"
proof (cases "check_id X ev \<and> check_sig X ev")
  case False
  then show ?thesis by (auto simp: Validate_def manifest_ok_def rejected_def)
next
  case True
  let ?pts = "pathTags_of ev" and ?xs = "filterTags (ev_tags ev) ''x''"
  let ?e1 = "(if ev_pubkey ev \<in> ForbiddenPubkeys opts then [''forbidden_signer''] else []) @
    kind_errors (ev_kind ev) @ d_errors (ev_kind ev) (tagValues (ev_tags ev) ''d'') @
    (if length ?pts = 0 then [''no_paths''] else [])"
  obtain e2 seen ps where f: "fold path_step ?pts (?e1, {}, []) = (e2, seen, ps)"
    using prod_cases3 by blast
  from path_fold [OF this] obtain E where E: "e2 = ?e1 @ E"
    "E = [] \<longleftrightarrow> (\<forall>t \<in> set ?pts. path_tag_ok t) \<and> distinct (map (\<lambda>t. t ! 1) ?pts)"
    "E = [] \<longrightarrow> ps = map entry_of ?pts" by auto
  have valid: "v_valid (Validate X ev opts) \<longleftrightarrow> fst (validate_body X ev opts) = []"
    using True by (simp add: Validate_def Let_def split: prod.splits)
  show ?thesis
  proof (cases "?e1 = [] \<and> E = []")
    case False
    then have "\<not> manifest_ok X opts ev"
      using E(2) by (auto simp: manifest_ok_def Let_def kind_errors_def d_errors_Nil)
    moreover have "fst (validate_body X ev opts) \<noteq> []"
      using f E(1) False by (auto simp: validate_body_def Let_def)
    ultimately show ?thesis using valid by blast
  next
    case e: True
    then have ne: "?pts \<noteq> []" by auto
    with e E have ps: "ps = map entry_of ?pts" "e2 = []" and len: "0 < length ps" by auto
    have "fst (validate_body X ev opts) = [] \<longleftrightarrow>
      int (length ?pts) \<le> max_paths_of opts \<and> x_count_errors (ev_kind ev) ?xs = [] \<and>
      concat (map (x_error (AggregateHash X ps)) ?xs) = [] \<and>
      a_errors (ev_kind ev) (filterTags (ev_tags ev) ''a'') (filterTags (ev_tags ev) ''A'') = []"
      using f ps(2) len by (simp add: validate_body_def Let_def not_less)
    also have "\<dots> \<longleftrightarrow> manifest_ok X opts ev"
      using True e E(2) ps(1)
      unfolding x_errors_Nil [OF AggregateHash_hex64 [OF assms]] a_errors_Nil x_count_Nil
      by (auto simp: manifest_ok_def Let_def kind_errors_def d_errors_Nil split: if_splits)
    finally show ?thesis using valid by blast
  qed
qed

subsection \<open>Facts about verdicts\<close>

definition error_codes :: "string list" where
  "error_codes =
     [''bad_id'', ''bad_signature'', ''forbidden_signer'', ''bad_kind'', ''missing_d'', ''bad_d'',
      ''d_on_root'', ''no_paths'', ''bad_path_shape'', ''relative_path'', ''no_extension'',
      ''bad_path_chars'', ''bad_hash_hex'', ''duplicate_path'', ''oversize_path_count'',
      ''missing_aggregate_x'', ''multiple_aggregate_x'', ''bad_x_shape'', ''bad_aggregate_x'',
      ''missing_a'', ''multiple_a'', ''multiple_A'', ''missing_A'', ''bad_a_shape'', ''bad_A_shape'']"

lemma path_step_codes:
  "set (fst (path_step t (e, s, ps))) \<subseteq> set e \<union> set error_codes"
  by (auto simp: path_step_def Let_def error_codes_def)

lemma path_fold_codes:
  "set (fst (fold path_step ts (e, s, ps))) \<subseteq> set e \<union> set error_codes"
proof (induction ts arbitrary: e s ps)
  case (Cons t ts)
  obtain e1 s1 ps1 where step: "path_step t (e, s, ps) = (e1, s1, ps1)"
    using prod_cases3 by blast
  with Cons.IH [of e1 s1 ps1] path_step_codes [of t e s ps] show ?case by auto
qed simp

lemma x_error_codes: "set (concat (map (x_error c) ts)) \<subseteq> set error_codes"
  by (auto simp: x_error_def error_codes_def split: if_splits)

lemma a_errors_codes: "set (a_errors k as As) \<subseteq> set error_codes"
  by (auto simp: a_errors_def ref_error_def error_codes_def split: if_splits)

lemma head_codes:
  "set ((if b then [''forbidden_signer''] else []) @ kind_errors k @ d_errors k ds @
     (if c then [''no_paths''] else [])) \<subseteq> set error_codes"
  by (auto simp: kind_errors_def d_errors_def error_codes_def split: if_splits)

lemma validate_body_codes: "set (fst (validate_body X ev opts)) \<subseteq> set error_codes"
proof -
  let ?e1 = "(if ev_pubkey ev \<in> ForbiddenPubkeys opts then [''forbidden_signer''] else []) @
    kind_errors (ev_kind ev) @ d_errors (ev_kind ev) (tagValues (ev_tags ev) ''d'') @
    (if length (pathTags_of ev) = 0 then [''no_paths''] else [])"
  obtain e2 seen ps where f: "fold path_step (pathTags_of ev) (?e1, {}, []) = (e2, seen, ps)"
    using prod_cases3 by blast
  with path_fold_codes [of "pathTags_of ev" ?e1 "{}" "[]"] head_codes
  have e2: "set e2 \<subseteq> set error_codes" by (metis Un_absorb1 fst_conv)
  have over: "set (if b then [''oversize_path_count''] else []) \<subseteq> set error_codes" for b
    by (cases b) (simp_all add: error_codes_def)
  have cnt: "set (x_count_errors k xs) \<subseteq> set error_codes" for k xs
    by (auto simp: x_count_errors_def error_codes_def)
  show ?thesis
    unfolding validate_body_def Let_def f prod.case fst_conv set_append
    by (intro Un_least e2 over cnt x_error_codes a_errors_codes)
qed

lemma Validate_entries:
  "list_all (\<lambda>p. path_ok (pe_path p) \<and> hex64 (pe_hash p)) (v_paths (Validate X ev opts))"
proof -
  have "\<forall>p \<in> set (fst (snd (validate_body X ev opts))). path_ok (pe_path p) \<and> hex64 (pe_hash p)"
    unfolding validate_body_def Let_def
    by (auto split: prod.splits dest!: path_fold_entries)
  then show ?thesis
    by (simp add: Validate_def Let_def rejected_def list_all_iff split: prod.splits)
qed

lemma AggregateHash_mset: "mset ps = mset qs \<Longrightarrow> AggregateHash X ps = AggregateHash X qs"
proof -
  assume "mset ps = mset qs"
  then have "mset (map path_line ps) = mset (map path_line qs)" by simp
  then have "sort (map path_line ps) = sort (map path_line qs)"
    by (metis sorted_list_of_multiset_mset)
  then show ?thesis by (simp add: AggregateHash_def)
qed

lemma manifest_ok_d:
  "manifest_ok X opts ev \<Longrightarrow> ev_kind ev = KindNamed \<Longrightarrow>
     \<exists>d. tagValues (ev_tags ev) ''d'' = [d] \<and> IsValidD d"
  by (simp add: manifest_ok_def Let_def)

lemma Validate_fields:
  assumes "check_id X ev" and "check_sig X ev"
  shows "v_label (Validate X ev opts) = label_of X ev (v_d (Validate X ev opts))"
    and "v_site_type (Validate X ev opts) = site_type_of (ev_kind ev)"
    and "v_d (Validate X ev opts) =
      (case tagValues (ev_tags ev) ''d'' of [] \<Rightarrow> [] | d # _ \<Rightarrow> d)"
  using assms by (simp_all add: Validate_def Let_def split: prod.splits)

lemma Validate_label:
  assumes X: "sha256_ok X" "nip19_ok X" and valid: "v_valid (Validate X ev opts)"
    and pk: "hex64 (ev_pubkey ev)" and eid: "hex64 (ev_id ev)"
  defines "v \<equiv> Validate X ev opts"
  shows "DecodeLabel X (v_label v) =
    (v_site_type v,
     if v_site_type v = SiteSnapshot then ev_id ev else ev_pubkey ev,
     if v_site_type v = SiteNamed then v_d v else [], True)"
proof -
  have ok: "manifest_ok X opts ev" using valid Validate_valid [OF X(1)] by blast
  then have fields: "v_label v = label_of X ev (v_d v)" "v_site_type v = site_type_of (ev_kind ev)"
    and d: "v_d v = (case tagValues (ev_tags ev) ''d'' of [] \<Rightarrow> [] | d # _ \<Rightarrow> d)"
    unfolding v_def by (auto simp: manifest_ok_def intro!: Validate_fields)
  from ok consider "ev_kind ev = KindRoot" | "ev_kind ev = KindNamed" | "ev_kind ev = KindSnapshot"
    by (auto simp: manifest_ok_def)
  then show ?thesis
  proof cases
    case 1
    obtain l where l: "nip19_public_key X (ev_pubkey ev) = Some l" "prefix ''npub1'' l"
      "nip19_decode X l = Some (''npub'', NString (ev_pubkey ev))"
      using X(2) pk by (auto simp: nip19_ok_def)
    moreover have "length (ev_pubkey ev) = 64" using pk by (simp add: hex64_def)
    ultimately have "DecodeLabel X l = (SiteRoot, ev_pubkey ev, [], True)"
      by (simp add: DecodeLabel_def)
    then show ?thesis
      using 1 fields l by (simp add: label_of_def site_type_of_def NPub_def kind_defs)
  next
    case 2
    with manifest_ok_d [OF ok] d have "IsValidD (v_d v)" by auto
    moreover from this have "v_d v \<noteq> []" using IsValidD_facts by blast
    moreover obtain s where "Base36Encode32 (ev_pubkey ev) = Inr s"
      using Decode50_Encode32 [OF pk] by blast
    ultimately have "v_label v = s @ v_d v \<and>
        DecodeLabel X (s @ v_d v) = (SiteNamed, ev_pubkey ev, v_d v, True)"
      using 2 fields pk
      by (simp add: label_of_def kind_defs NamedLabel_def DecodeLabel_named_iff)
    then show ?thesis using 2 fields by (simp add: site_type_of_def kind_defs)
  next
    case 3
    obtain s where "Base36Encode32 (ev_id ev) = Inr s"
      using Decode50_Encode32 [OF eid] by blast
    then have "v_label v = CHR ''v'' # s \<and>
        DecodeLabel X (CHR ''v'' # s) = (SiteSnapshot, ev_id ev, [], True)"
      using 3 fields eid
      by (simp add: label_of_def kind_defs SnapshotLabel_def DecodeLabel_snapshot_iff)
    then show ?thesis using 3 fields by (simp add: site_type_of_def kind_defs)
  qed
qed

text \<open>A root manifest with one path, for the theorems that need an event.\<close>

definition zeros64 :: string where
  "zeros64 = replicate 64 (CHR ''0'')"

definition sample_manifest :: event where
  "sample_manifest =
     \<lparr>ev_id = zeros64, ev_pubkey = zeros64, ev_created_at = 1, ev_kind = KindRoot,
      ev_tags = [[''path'', ''/index.html'', zeros64]], ev_content = [], ev_sig = []\<rparr>"

definition sample_options :: options where
  "sample_options = \<lparr>ForbiddenPubkeys = {}, MaxPaths = 0\<rparr>"

lemma zeros64_hex64: "hex64 zeros64"
  using hex64_zero by (simp add: zeros64_def)

lemma sample_path_ok: "path_ok ''/index.html''"
  by (simp add: path_ok_def hasPathExtension_def badPathChars_def go_simps sublist_code is_control_def)

lemma sample_manifest_ok: "manifest_ok sample_ext sample_options sample_manifest"
  using sample_path_ok zeros64_hex64
  by (simp add: manifest_ok_def sample_manifest_def sample_options_def sample_ext_def kind_defs
      tagValues_def tagName_def pathTags_of_def filterTags_def path_tag_ok_def max_paths_of_def
      Let_def)

lemma sample_manifest_valid: "v_valid (Validate sample_ext sample_manifest sample_options)"
  using sample_manifest_ok Validate_valid [OF sample_ext_ok(1)] by blast

subsection \<open>Properties\<close>

text \<open>C17: \<open>Validate\<close> decides the NIP-5A rule set: with a hash function that gives 32 bytes, the
  verdict is valid exactly for the events that satisfy \<open>manifest_ok\<close>: an id and signature
  that check, a signer that is not forbidden, one of the three kinds with the \<open>d\<close> tags it
  asks for, between one and the maximum number of well-formed path tags with distinct safe
  paths, aggregate tags that carry the hash of exactly those paths, and the snapshot
  references. No ordering or combination of tags slips through the error accumulation.\<close>

theorem validate_decides_rules:
  assumes "sha256_ok X"
  shows "v_valid (Validate X ev opts) \<longleftrightarrow> manifest_ok X opts ev"
  using assms by (rule Validate_valid)

theorem validate_decides_rules_witness:
  "v_valid (Validate sample_ext sample_manifest sample_options) \<longleftrightarrow>
     manifest_ok sample_ext sample_options sample_manifest"
  by (rule validate_decides_rules [OF sample_ext_ok(1)])

text \<open>The error list of a verdict is empty exactly when it is valid, holds no code twice and
  only codes of the fixed vocabulary the corpus shares with the Python validator.\<close>

lemma verdict_errors:
  "(v_valid (Validate X ev opts) \<longleftrightarrow> v_errors (Validate X ev opts) = []) \<and>
     distinct (v_errors (Validate X ev opts)) \<and>
     set (v_errors (Validate X ev opts)) \<subseteq> set error_codes"
proof -
  have "set (dedupe (fst (validate_body X ev opts))) \<subseteq> set error_codes"
    using validate_body_codes by simp
  then show ?thesis
    by (auto simp: Validate_def Let_def rejected_def error_codes_def split: prod.splits)
qed

text \<open>Whatever the verdict, every path it reports is absolute, has an extension, holds no
  control character, backslash or \<open>..\<close> segment, and is mapped to 64 lowercase hexadecimal
  characters: a rejected path tag never reaches the path list.\<close>

lemma verdict_paths_safe:
  "list_all (\<lambda>p. path_ok (pe_path p) \<and> hex64 (pe_hash p)) (v_paths (Validate X ev opts))"
  by (rule Validate_entries)

text \<open>The aggregate hash depends on the set of published files only, not on the order of the
  path tags.\<close>

lemma aggregate_hash_order:
  assumes "mset ps = mset qs"
  shows "AggregateHash X ps = AggregateHash X qs"
  using assms by (rule AggregateHash_mset)

lemma aggregate_hash_order_witness:
  "AggregateHash sample_ext
     [\<lparr>pe_path = ''/a.html'', pe_hash = zeros64\<rparr>, \<lparr>pe_path = ''/b.html'', pe_hash = zeros64\<rparr>] =
   AggregateHash sample_ext
     [\<lparr>pe_path = ''/b.html'', pe_hash = zeros64\<rparr>, \<lparr>pe_path = ''/a.html'', pe_hash = zeros64\<rparr>]"
  by (rule aggregate_hash_order) (simp add: add_mset_commute)

text \<open>C6: The label a valid verdict reports is the address of that site: decoding it gives the
  verdict's site type, the signer's key (the event id for a snapshot) and the named site's
  identifier.\<close>

theorem verdict_label_roundtrip:
  assumes "sha256_ok X" and "nip19_ok X" and "v_valid (Validate X ev opts)"
    and "hex64 (ev_pubkey ev)" and "hex64 (ev_id ev)"
  shows "DecodeLabel X (v_label (Validate X ev opts)) =
    (v_site_type (Validate X ev opts),
     if v_site_type (Validate X ev opts) = SiteSnapshot then ev_id ev else ev_pubkey ev,
     if v_site_type (Validate X ev opts) = SiteNamed then v_d (Validate X ev opts) else [],
     True)"
  using assms by (rule Validate_label)

theorem verdict_label_roundtrip_witness:
  "DecodeLabel sample_ext (v_label (Validate sample_ext sample_manifest sample_options)) =
     (SiteRoot, zeros64, [], True)"
proof -
  have "v_site_type (Validate sample_ext sample_manifest sample_options) = SiteRoot"
    by (subst Validate_fields) (simp_all add: sample_ext_def sample_manifest_def site_type_of_def)
  with verdict_label_roundtrip [OF sample_ext_ok sample_manifest_valid] zeros64_hex64
  show ?thesis by (simp add: sample_manifest_def)
qed

end
