(* ===== verification/Contracts.thy ===== *)
theory Contracts
  imports Prelude
begin

section \<open>Contracts between the components\<close>

text \<open>
  The interfaces one component offers and others rely on, as locales.

  \<^item> \<open>verified_store\<close>: a content-addressed store. Whatever can be read under a key is
    authentic for that key, and every operation keeps it so. \<^verbatim>\<open>internal/cache\<close> and
    \<^verbatim>\<open>internal/blossomsrv\<close> provide it for blobs (the digest of the bytes is the key),
    \<^verbatim>\<open>internal/npk\<close> for the members of unpacked archives; the request handlers rely on it.
  \<^item> \<open>bounded_store\<close>: a verified store that in addition keeps a byte quota as long as
    the operations it is given are well-behaved (\<open>ok\<close>).
  \<^item> \<open>lookup_cache\<close>: a cache of positive and negative answers with time-outs, as
    \<^verbatim>\<open>ManifestCache\<close> provides it to the resolver.
  \<^item> \<open>checked_service\<close>: a stateful service whose answers satisfy the question, whatever
    was asked before. \<^verbatim>\<open>internal/resolve\<close> provides it to the request handlers.
  \<^item> \<open>simulation\<close>: an implementation that gives the replies of its specification and keeps the
    abstraction. \<^verbatim>\<open>internal/blossomsrv\<close> implements a map from digests to bytes.
  \<^item> \<open>verified_source\<close>: a source that either fails or gives authentic bytes.
    \<^verbatim>\<open>internal/blossom\<close> provides it to the request handlers.
\<close>

locale verified_store =
  fixes inv :: "'s \<Rightarrow> bool"
    and get :: "'s \<Rightarrow> 'k \<Rightarrow> 'b option"
    and auth :: "'k \<Rightarrow> 'b \<Rightarrow> bool"
    and step :: "'op \<Rightarrow> 's \<Rightarrow> 's"
  assumes get_verified: "inv s \<Longrightarrow> get s k = Some b \<Longrightarrow> auth k b"
    and step_inv: "inv s \<Longrightarrow> inv (step op s)"
begin

lemma run_inv: "inv s \<Longrightarrow> inv (fold step ops s)"
  by (induction ops arbitrary: s) (auto intro: step_inv)

lemma run_verified: "inv s \<Longrightarrow> get (fold step ops s) k = Some b \<Longrightarrow> auth k b"
  using get_verified run_inv by blast

end

locale bounded_store = verified_store inv get auth step
  for inv :: "'s \<Rightarrow> bool" and get :: "'s \<Rightarrow> 'k \<Rightarrow> 'b option"
    and auth :: "'k \<Rightarrow> 'b \<Rightarrow> bool" and step :: "'op \<Rightarrow> 's \<Rightarrow> 's" +
  fixes stored :: "'s \<Rightarrow> int"
    and limit :: "'s \<Rightarrow> int"
    and ok :: "'op \<Rightarrow> bool"
  assumes step_limit: "limit (step op s) = limit s"
    and step_stored: "inv s \<Longrightarrow> ok op \<Longrightarrow> stored s \<le> limit s \<Longrightarrow> stored (step op s) \<le> limit s"
begin

lemma run_limit: "limit (fold step ops s) = limit s"
  by (induction ops arbitrary: s) (auto simp: step_limit)

lemma run_bounded:
  "inv s \<Longrightarrow> list_all ok ops \<Longrightarrow> stored s \<le> limit s \<Longrightarrow> stored (fold step ops s) \<le> limit s"
proof (induction ops arbitrary: s)
  case Nil
  then show ?case by simp
next
  case (Cons op ops)
  then have "stored (step op s) \<le> limit (step op s)"
    using step_stored by (simp add: step_limit)
  with Cons.IH [of "step op s"] Cons.prems show ?case
    using step_inv by (simp add: step_limit)
qed

end

locale lookup_cache =
  fixes get :: "int \<Rightarrow> 'k \<Rightarrow> 'c \<Rightarrow> 'v option \<times> 'c"
    and neg :: "int \<Rightarrow> 'k \<Rightarrow> 'c \<Rightarrow> bool"
    and put :: "int \<Rightarrow> 'k \<Rightarrow> 'v \<Rightarrow> 'c \<Rightarrow> 'c"
    and put_neg :: "int \<Rightarrow> 'k \<Rightarrow> 'c \<Rightarrow> 'c"
    and ttl :: "'c \<Rightarrow> int"
    and neg_ttl :: "'c \<Rightarrow> int"
  assumes get_put: "fst (get t k' (put now k v c)) =
      (if k' = k then (if t \<le> now + ttl c then Some v else None) else fst (get t k' c))"
    and neg_put: "neg t k' (put now k v c) \<longleftrightarrow> k' \<noteq> k \<and> neg t k' c"
    and get_put_neg: "fst (get t k' (put_neg now k c)) =
      (if k' = k then None else fst (get t k' c))"
    and neg_put_neg: "neg t k' (put_neg now k c) \<longleftrightarrow>
      (if k' = k then t \<le> now + neg_ttl c else neg t k' c)"
    and get_get: "t' \<le> t \<Longrightarrow> fst (get t k' (snd (get t' k c))) = fst (get t k' c)"
    and neg_get: "neg t k' (snd (get t' k c)) = neg t k' c"
    and ttl_put: "ttl (put now k v c) = ttl c" "neg_ttl (put now k v c) = neg_ttl c"
    and ttl_put_neg: "ttl (put_neg now k c) = ttl c" "neg_ttl (put_neg now k c) = neg_ttl c"
    and ttl_get: "ttl (snd (get t k c)) = ttl c" "neg_ttl (snd (get t k c)) = neg_ttl c"
begin

text \<open>A hit and a fresh miss exclude one another after either kind of store.\<close>

lemma put_excludes: "\<not> neg t k (put now k v c)"
  by (simp add: neg_put)

lemma put_neg_excludes: "fst (get t k (put_neg now k c)) = None"
  by (simp add: get_put_neg)

text \<open>An answer survives the storing of answers to other questions until it expires.\<close>

lemma get_after_puts:
  "t \<le> now + ttl c \<Longrightarrow> k \<notin> fst ` set kvs \<Longrightarrow>
     fst (get t k (fold (\<lambda>(k', v'). put now' k' v') kvs (put now k v c))) = Some v"
proof (induction kvs rule: rev_induct)
  case Nil
  then show ?case by (simp add: get_put)
next
  case (snoc kv kvs)
  then show ?case by (cases kv) (auto simp: get_put)
qed

end

locale checked_service =
  fixes inv :: "'s \<Rightarrow> bool"
    and ask :: "'q \<Rightarrow> 's \<Rightarrow> 'a option \<times> 's"
    and ok :: "'q \<Rightarrow> bool"
    and good :: "'q \<Rightarrow> 'a \<Rightarrow> bool"
  assumes ask_inv: "inv s \<Longrightarrow> ok q \<Longrightarrow> inv (snd (ask q s))"
    and ask_good: "inv s \<Longrightarrow> ok q \<Longrightarrow> fst (ask q s) = Some a \<Longrightarrow> good q a"
begin

lemma asked_inv: "inv s \<Longrightarrow> list_all ok qs \<Longrightarrow> inv (fold (\<lambda>q s. snd (ask q s)) qs s)"
  by (induction qs arbitrary: s) (auto intro: ask_inv)

lemma asked_good:
  "inv s \<Longrightarrow> list_all ok qs \<Longrightarrow> ok q \<Longrightarrow>
     fst (ask q (fold (\<lambda>q s. snd (ask q s)) qs s)) = Some a \<Longrightarrow> good q a"
  using ask_good asked_inv by blast

end

text \<open>Trying one source after the other; \<open>last\<close> is the error so far.\<close>

fun try_each :: "('srv \<Rightarrow> 'e + 'b) \<Rightarrow> 'srv list \<Rightarrow> 'e \<Rightarrow> 'e + 'b" where
  "try_each fetch [] last_err = Inl last_err"
| "try_each fetch (s # ss) last_err =
     (case fetch s of Inr b \<Rightarrow> Inr b | Inl e \<Rightarrow> try_each fetch ss e)"

lemma try_each_Inr: "try_each fetch ss e = Inr b \<Longrightarrow> \<exists>s \<in> set ss. fetch s = Inr b"
  by (induction ss arbitrary: e) (auto split: sum.splits)

lemma try_each_Inl: "try_each fetch ss e = Inl e' \<longleftrightarrow>
  (\<forall>s \<in> set ss. \<exists>x. fetch s = Inl x) \<and> e' = (if ss = [] then e else projl (fetch (last ss)))"
proof (induction ss arbitrary: e)
  case (Cons s ss)
  then show ?case by (cases "fetch s") auto
qed auto

locale verified_source =
  fixes fetch :: "'srv \<Rightarrow> 'k \<Rightarrow> 'e + 'b"
    and auth :: "'k \<Rightarrow> 'b \<Rightarrow> bool"
  assumes fetch_auth: "fetch s k = Inr b \<Longrightarrow> auth k b"
begin

lemma try_each_auth: "try_each (\<lambda>s. fetch s k) ss e = Inr b \<Longrightarrow> auth k b"
  using try_each_Inr fetch_auth by metis

end

text \<open>Any sequence of calls on a machine, and its replies.\<close>

fun run_all :: "('op \<Rightarrow> 's \<Rightarrow> 'r \<times> 's) \<Rightarrow> 'op list \<Rightarrow> 's \<Rightarrow> 'r list \<times> 's" where
  "run_all call [] s = ([], s)"
| "run_all call (op # ops) s =
     (case call op s of (r, s') \<Rightarrow> (case run_all call ops s' of (rs, t) \<Rightarrow> (r # rs, t)))"

locale simulation =
  fixes inv :: "'s \<Rightarrow> bool"
    and abs :: "'s \<Rightarrow> 'a"
    and impl :: "'op \<Rightarrow> 's \<Rightarrow> 'r \<times> 's"
    and spec :: "'op \<Rightarrow> 'a \<Rightarrow> 'r \<times> 'a"
  assumes sim: "inv s \<Longrightarrow> impl op s = (r, s') \<Longrightarrow> spec op (abs s) = (r, abs s') \<and> inv s'"
begin

lemma run_sim: "inv s \<Longrightarrow> run_all impl ops s = (rs, s') \<Longrightarrow> run_all spec ops (abs s) = (rs, abs s') \<and> inv s'"
proof (induction ops arbitrary: s rs s')
  case (Cons op ops)
  obtain r u where one: "impl op s = (r, u)" by force
  obtain qs t where rest: "run_all impl ops u = (qs, t)" by force
  note step = sim [OF Cons.prems(1) one]
  from Cons.IH [OF conjunct2 [OF step] rest] step Cons.prems(2) one rest show ?case by auto
qed simp

lemma run_abs: "inv s \<Longrightarrow> run_all spec ops (abs s) = map_prod (\<lambda>rs. rs) abs (run_all impl ops s)"
  using run_sim [of s ops] by (cases "run_all impl ops s") simp

end

end
