(* ===== verification/GoPath.thy ===== *)
theory GoPath
  imports Prelude
begin

section \<open>\<^verbatim>\<open>path/filepath\<close> on Unix\<close>

text \<open>
  The lexical path functions \<^verbatim>\<open>internal/npk\<close> uses: \<open>Clean\<close>, \<open>Join\<close> of two elements, \<open>Dir\<close>,
  \<open>IsAbs\<close> and \<open>Abs\<close>; \<open>FromSlash\<close> is the identity where the separator is \<open>/\<close>. The lemmas
  are about normal segments (not empty, not \<open>.\<close> or \<open>..\<close>, no separator inside) and about
  \<open>abs_path\<close>, the absolute path made of such segments.
\<close>

abbreviation slash :: string where
  "slash \<equiv> ''/''"

text \<open>The segment loop of \<open>Clean\<close>: \<open>out\<close> is the cleaned part, last segment first.\<close>

fun clean_segs :: "bool \<Rightarrow> string list \<Rightarrow> string list \<Rightarrow> string list" where
  "clean_segs rooted out [] = rev out"
| "clean_segs rooted out (s # ss) =
     (if s = [] \<or> s = ''.'' then clean_segs rooted out ss
      else if s = ''..'' then
        (case out of
           [] \<Rightarrow> clean_segs rooted (if rooted then [] else [''..'']) ss
         | o1 # out' \<Rightarrow>
             if o1 = ''..'' then clean_segs rooted (''..'' # out) ss
             else clean_segs rooted out' ss)
      else clean_segs rooted (s # out) ss)"

definition IsAbs :: "string \<Rightarrow> bool" where
  "IsAbs p \<longleftrightarrow> HasPrefix p slash"

definition Clean :: "string \<Rightarrow> string" where
  "Clean p =
     (let segs = clean_segs (IsAbs p) [] (Split p slash)
      in if IsAbs p then slash @ Join segs slash
         else if segs = [] then ''.'' else Join segs slash)"

definition PathJoin :: "string \<Rightarrow> string \<Rightarrow> string" where
  "PathJoin a b =
     (if a \<noteq> [] then Clean (a @ slash @ b) else if b \<noteq> [] then Clean b else [])"

text \<open>\<open>Abs\<close> fails when the working directory cannot be determined.\<close>

definition Abs :: "string option \<Rightarrow> string \<Rightarrow> string option" where
  "Abs cwd p = (if IsAbs p then Some (Clean p) else map_option (\<lambda>w. PathJoin w p) cwd)"

definition PathDir :: "string \<Rightarrow> string" where
  "PathDir p = Clean (case LastIndexByte p (CHR ''/'') of Some i \<Rightarrow> take (Suc i) p | None \<Rightarrow> [])"

definition FromSlash :: "string \<Rightarrow> string" where
  "FromSlash p = p"

subsection \<open>Normal segments\<close>

definition normal_seg :: "string \<Rightarrow> bool" where
  "normal_seg s \<longleftrightarrow> s \<noteq> [] \<and> s \<noteq> ''.'' \<and> s \<noteq> ''..'' \<and> CHR ''/'' \<notin> set s"

abbreviation normal :: "string list \<Rightarrow> bool" where
  "normal xs \<equiv> list_all normal_seg xs"

definition abs_path :: "string list \<Rightarrow> string" where
  "abs_path xs = slash @ Join xs slash"

lemma Join_append:
  "xs \<noteq> [] \<Longrightarrow> ys \<noteq> [] \<Longrightarrow> Join (xs @ ys) sep = Join xs sep @ sep @ Join ys sep"
proof (induction xs)
  case (Cons x xs)
  then show ?case by (cases xs) (auto simp: Join_Cons)
qed simp

lemma Split_Join:
  "xs \<noteq> [] \<Longrightarrow> \<forall>x \<in> set xs. c \<notin> set x \<Longrightarrow> Split (Join xs [c]) [c] = xs"
proof (induction xs)
  case (Cons x xs)
  then show ?case
    by (cases xs) (auto simp: Join_Cons Split_byte_append Split_byte_id)
qed simp

lemma Join_Nil_iff: "Join xs sep = [] \<longleftrightarrow> xs = [] \<or> xs = [[]] \<or>
  (sep = [] \<and> (\<forall>x \<in> set xs. x = []))"
  by (induction xs sep rule: Join.induct) auto

lemma normal_no_slash: "normal xs \<Longrightarrow> \<forall>x \<in> set xs. CHR ''/'' \<notin> set x"
  by (auto simp: list_all_iff normal_seg_def)

lemma clean_segs_normal: "normal ss \<Longrightarrow> clean_segs r out (ss @ ts) = clean_segs r (rev ss @ out) ts"
  by (induction ss arbitrary: out) (auto simp: normal_seg_def)

lemma clean_segs_rooted:
  "normal out \<Longrightarrow> \<forall>s \<in> set ss. CHR ''/'' \<notin> set s \<Longrightarrow> normal (clean_segs True out ss)"
proof (induction ss arbitrary: out)
  case Nil
  then show ?case by (simp add: list_all_iff)
next
  case (Cons s ss)
  consider "s = [] \<or> s = ''.''" | "s = ''..''" "out = []" | o1 o' where "s = ''..''" "out = o1 # o'"
    | "normal_seg s"
    using Cons.prems(2) by (cases out) (auto simp: normal_seg_def)
  then show ?case
  proof cases
    case 3
    then have "o1 \<noteq> ''..''" using Cons.prems(1) by (auto simp: normal_seg_def)
    then show ?thesis using 3 Cons by simp
  next
    case 4
    then have "clean_segs True out (s # ss) = clean_segs True (s # out) ss"
      by (auto simp: normal_seg_def)
    then show ?thesis using Cons.IH [of "s # out"] Cons.prems 4 by simp
  qed (use Cons in auto)
qed

text \<open>A relative path cleans to some \<open>..\<close> segments followed by normal ones.\<close>

lemma clean_segs_relative:
  "normal out \<Longrightarrow> \<forall>s \<in> set ss. CHR ''/'' \<notin> set s \<Longrightarrow>
     \<exists>m xs. normal xs \<and> clean_segs False (out @ replicate k ''..'') ss = replicate m ''..'' @ xs"
proof (induction ss arbitrary: out k)
  case Nil
  then show ?case
    by (intro exI [of _ k] exI [of _ "rev out"]) (auto simp: list_all_iff)
next
  case (Cons s ss)
  consider "s = [] \<or> s = ''.''" | "s = ''..''" "out = []" | o1 o' where "s = ''..''" "out = o1 # o'"
    | "normal_seg s"
    using Cons.prems(2) by (cases out) (auto simp: normal_seg_def)
  then show ?case
  proof cases
    case 1
    then show ?thesis using Cons by auto
  next
    case 2
    have "clean_segs False (out @ replicate k ''..'') (s # ss) =
        clean_segs False ([] @ replicate (Suc k) ''..'') ss"
      using 2 by (cases k) auto
    then show ?thesis using Cons.IH [of "[]" "Suc k"] Cons.prems by simp
  next
    case 3
    then have "o1 \<noteq> ''..''" using Cons.prems(1) by (auto simp: normal_seg_def)
    then show ?thesis using 3 Cons by simp
  next
    case 4
    then have "clean_segs False (out @ replicate k ''..'') (s # ss) =
        clean_segs False ((s # out) @ replicate k ''..'') ss"
      by (auto simp: normal_seg_def)
    then show ?thesis using Cons.IH [of "s # out" k] Cons.prems 4 by simp
  qed
qed

lemma Split_slash_no_slash: "\<forall>s \<in> set (Split p slash). CHR ''/'' \<notin> set s"
  using Split_byte_no_sep by fast

lemma abs_path_Cons: "abs_path xs = CHR ''/'' # Join xs slash"
  by (simp add: abs_path_def)

lemma Clean_abs: "IsAbs p \<Longrightarrow> \<exists>xs. normal xs \<and> Clean p = abs_path xs"
  using clean_segs_rooted [of "[]", OF _ Split_slash_no_slash]
  by (auto simp: Clean_def Let_def abs_path_def)

lemma Clean_relative:
  assumes "\<not> IsAbs p"
  shows "\<exists>m xs. normal xs \<and>
    Clean p = (if m = 0 \<and> xs = [] then ''.'' else Join (replicate m ''..'' @ xs) slash)"
proof -
  obtain m xs where "normal xs" and eq: "clean_segs False [] (Split p slash) = replicate m ''..'' @ xs"
    using clean_segs_relative [of "[]" _ 0, OF _ Split_slash_no_slash [of p]] by auto
  moreover have "Clean p = (if m = 0 \<and> xs = [] then ''.'' else Join (replicate m ''..'' @ xs) slash)"
    using assms by (simp add: Clean_def eq)
  ultimately show ?thesis by blast
qed

lemma Split_abs_path: "normal xs \<Longrightarrow> xs \<noteq> [] \<Longrightarrow> Split (abs_path xs) slash = [] # xs"
  using Split_Join [of xs "CHR ''/''"] normal_no_slash
  by (auto simp: abs_path_Cons Split_byte_Cons)

lemma Clean_abs_path: "normal xs \<Longrightarrow> Clean (abs_path xs) = abs_path xs"
proof (cases "xs = []")
  case True
  then show ?thesis by (simp add: Clean_def abs_path_def IsAbs_def Split_byte_Cons)
next
  case False
  assume n: "normal xs"
  have "clean_segs True [] ([] # xs) = xs"
    using clean_segs_normal [OF n, of True "[]" "[]"] by simp
  then show ?thesis
    using Split_abs_path [OF n False] by (simp add: Clean_def IsAbs_def abs_path_Cons)
qed

lemma PathJoin_abs:
  assumes "normal xs" and "xs \<noteq> []" and "normal ys" and "ys \<noteq> []"
  shows "PathJoin (abs_path xs) (Join ys slash) = abs_path (xs @ ys)"
proof -
  have "abs_path xs @ slash @ Join ys slash = abs_path (xs @ ys)"
    using assms by (simp add: abs_path_def Join_append)
  then show ?thesis
    using assms by (simp add: PathJoin_def abs_path_Cons Clean_abs_path [unfolded abs_path_Cons])
qed

lemma PathJoin_dot:
  assumes "normal xs" and "xs \<noteq> []"
  shows "PathJoin (abs_path xs) ''.'' = abs_path xs"
proof -
  have "Split (abs_path xs @ ''/.'') slash = [] # xs @ [''.'']"
  proof -
    have "abs_path xs @ ''/.'' = CHR ''/'' # Join (xs @ [''.'']) slash"
      using assms(2) by (simp add: abs_path_def Join_append)
    moreover have "\<forall>x \<in> set (xs @ [''.'']). CHR ''/'' \<notin> set x"
      using normal_no_slash [OF assms(1)] by auto
    ultimately show ?thesis
      using Split_Join [of "xs @ [''.'']" "CHR ''/''"] by (simp add: Split_byte_Cons)
  qed
  moreover have "clean_segs True [] ([] # xs @ [''.'']) = xs"
    using clean_segs_normal [OF assms(1), of True "[]" "[''.'']"] by simp
  ultimately show ?thesis
    by (simp add: PathJoin_def Clean_def IsAbs_def abs_path_Cons)
qed

lemma abs_path_inj: "normal xs \<Longrightarrow> normal ys \<Longrightarrow> abs_path xs = abs_path ys \<Longrightarrow> xs = ys"
proof -
  assume n: "normal xs" "normal ys" and eq: "abs_path xs = abs_path ys"
  show "xs = ys"
  proof (cases "xs = [] \<or> ys = []")
    case True
    have ne: "Join zs slash \<noteq> []" if "normal zs" "zs \<noteq> []" for zs
      using that by (cases zs) (auto simp: Join_Nil_iff normal_seg_def)
    have "Join xs slash = Join ys slash" using eq by (simp add: abs_path_def)
    with True n ne show ?thesis by (metis Join.simps(1))
  next
    case False
    with n eq Split_abs_path show ?thesis by (metis list.inject)
  qed
qed

text \<open>A path is below another when its segments extend the other's.\<close>

lemma abs_path_below:
  assumes "normal xs" and "xs \<noteq> []" and "normal zs"
  shows "prefix (abs_path xs @ slash) (abs_path zs) \<longleftrightarrow> (\<exists>ys. ys \<noteq> [] \<and> zs = xs @ ys)"
proof
  assume "\<exists>ys. ys \<noteq> [] \<and> zs = xs @ ys"
  then obtain ys where "ys \<noteq> []" "zs = xs @ ys" by blast
  then show "prefix (abs_path xs @ slash) (abs_path zs)"
    using assms(2) by (simp add: abs_path_def Join_append)
next
  assume "prefix (abs_path xs @ slash) (abs_path zs)"
  then obtain r where r: "abs_path zs = abs_path xs @ slash @ r" by (auto simp: prefix_def)
  then have "Join zs slash = Join (xs @ Split r slash) slash"
    using assms(2) by (simp add: abs_path_def Join_append Join_Split)
  moreover have "zs \<noteq> []" using r by (auto simp: abs_path_def)
  moreover have "\<forall>x \<in> set (xs @ Split r slash). CHR ''/'' \<notin> set x"
    using normal_no_slash [OF assms(1)] Split_slash_no_slash by auto
  moreover have "xs @ Split r slash \<noteq> []" using assms(2) by simp
  ultimately have "zs = xs @ Split r slash"
    using Split_Join [of zs "CHR ''/''"] Split_Join [of "xs @ Split r slash" "CHR ''/''"]
      normal_no_slash [OF assms(3)] by metis
  moreover have "Split r slash \<noteq> []" by simp
  ultimately show "\<exists>ys. ys \<noteq> [] \<and> zs = xs @ ys" by blast
qed

text \<open>Names below a directory: different names have different paths.\<close>

lemma PathJoin_name:
  assumes "normal ds" and "ds \<noteq> []" and "normal_seg n"
  shows "PathJoin (abs_path ds) n = abs_path (ds @ [n])"
  using PathJoin_abs [OF assms(1,2), of "[n]"] assms(3) by simp

end
