(* ===== verification/Cache.thy ===== *)
theory Cache
  imports Contracts External GoPath
begin

section \<open>The blob cache and the manifest cache (\<^verbatim>\<open>internal/cache/cache.go\<close>)\<close>

text \<open>
  \<open>BlobStore\<close> is a directory of files named by their SHA-256, with sizes, last-use times
  and a byte count kept in memory and a quota enforced by evicting the least recently used
  files. The model keeps the directory (\<open>bs_disk\<close>, the regular files with a 64-character
  name) in the state. What the operating system may refuse is an argument: \<open>io\<close> says which
  of the file operations of \<open>Put\<close> succeed, \<open>rm\<close> which files can be removed. The order in
  which Go ranges over a map is the argument \<open>rng\<close>, any permutation of the keys; sorting
  with the stable \<open>sort_key\<close> after an arbitrary permutation covers every outcome of the
  unstable \<open>sort.Slice\<close>.

  \<open>ManifestCache\<close> maps keys to answers with an expiry time and to misses with an expiry
  time. The type of the answers is a parameter, as \<open>any\<close> is in the code. Times and
  durations are nanoseconds, \<open>now\<close> is what \<open>time.Now()\<close> returns in the call.
\<close>

subsection \<open>The blob store\<close>

record blob_store =
  bs_quota :: int
  bs_used :: int
  bs_sizes :: "(string, int) gomap"
  bs_last_use :: "(string, int) gomap"
  bs_disk :: "string \<rightharpoonup> bytes"

record dirent =
  de_name :: string
  de_is_dir :: bool
  de_info :: "(int \<times> int) option" \<comment> \<open>size and modification time; \<open>None\<close> if \<open>Info\<close> fails\<close>

record put_io =
  io_create :: bool
  io_copy :: bool
  io_sync :: bool
  io_close :: bool
  io_rename :: bool

datatype cache_error = IOError | HashMismatch string string

definition all_io :: put_io where
  "all_io = \<lparr>io_create = True, io_copy = True, io_sync = True, io_close = True, io_rename = True\<rparr>"

definition scan_entry :: "dirent \<Rightarrow> blob_store \<Rightarrow> blob_store" where
  "scan_entry e s =
     (if de_is_dir e \<or> length (de_name e) \<noteq> 64 then s
      else case de_info e of
        None \<Rightarrow> s
      | Some (n, mtime) \<Rightarrow>
          s\<lparr>bs_sizes := AList.update (de_name e) n (bs_sizes s),
            bs_last_use := AList.update (de_name e) mtime (bs_last_use s),
            bs_used := bs_used s + n\<rparr>)"

definition scan :: "dirent list option \<Rightarrow> blob_store \<Rightarrow> cache_error + blob_store" where
  "scan entries s =
     (case entries of
        None \<Rightarrow> Inl IOError
      | Some es \<Rightarrow> Inr (fold scan_entry es s))"

definition NewBlobStore ::
    "bool \<Rightarrow> dirent list option \<Rightarrow> (string \<rightharpoonup> bytes) \<Rightarrow> int \<Rightarrow> cache_error + blob_store" where
  "NewBlobStore mkdir_ok entries disk quota =
     (if \<not> mkdir_ok then Inl IOError
      else scan entries
        \<lparr>bs_quota = quota, bs_used = 0, bs_sizes = [], bs_last_use = [], bs_disk = disk\<rparr>)"

text \<open>The file of a blob. The store's directory is a parameter here: the state holds its files by
  name, and different names are different files.\<close>

definition bs_path :: "string \<Rightarrow> string \<Rightarrow> string" where
  "bs_path dir sha = PathJoin dir sha"

lemma bs_path_inj:
  assumes "normal ds" and "ds \<noteq> []" and "normal_seg a" and "normal_seg b"
  shows "bs_path (abs_path ds) a = bs_path (abs_path ds) b \<longleftrightarrow> a = b"
proof
  assume "bs_path (abs_path ds) a = bs_path (abs_path ds) b"
  then have "abs_path (ds @ [a]) = abs_path (ds @ [b])" using assms by (simp add: bs_path_def PathJoin_name)
  then have "ds @ [a] = ds @ [b]" using assms by (intro abs_path_inj) simp_all
  then show "a = b" by simp
qed simp

definition size_of :: "blob_store \<Rightarrow> string \<Rightarrow> int" where
  "size_of s sha = (case map_of (bs_sizes s) sha of Some n \<Rightarrow> n | None \<Rightarrow> 0)"

definition last_use_of :: "blob_store \<Rightarrow> string \<Rightarrow> int" where
  "last_use_of s sha = (case map_of (bs_last_use s) sha of Some t \<Rightarrow> t | None \<Rightarrow> 0)"

definition bs_Has :: "blob_store \<Rightarrow> string \<Rightarrow> bool" where
  "bs_Has s sha \<longleftrightarrow> size_of s sha > 0"

text \<open>\<open>os.Open\<close> fails on a file that is not there, and may fail on one that is (\<open>openable\<close>).\<close>

definition bs_Open :: "bool \<Rightarrow> int \<Rightarrow> string \<Rightarrow> blob_store \<Rightarrow> (cache_error + bytes) \<times> blob_store" where
  "bs_Open openable now sha s =
     (case (if openable then bs_disk s sha else None) of
        None \<Rightarrow> (Inl IOError, s)
      | Some f \<Rightarrow> (Inr f, s\<lparr>bs_last_use := AList.update sha now (bs_last_use s)\<rparr>))"

text \<open>The body of the eviction loop for one file, when its removal succeeds.\<close>

definition drop_blob :: "string \<Rightarrow> blob_store \<Rightarrow> blob_store" where
  "drop_blob sha s =
     s\<lparr>bs_used := bs_used s - size_of s sha,
       bs_sizes := AList.delete sha (bs_sizes s),
       bs_last_use := AList.delete sha (bs_last_use s),
       bs_disk := (bs_disk s)(sha := None)\<rparr>"

fun evict_loop :: "(string \<Rightarrow> bool) \<Rightarrow> string list \<Rightarrow> blob_store \<Rightarrow> blob_store" where
  "evict_loop rm [] s = s"
| "evict_loop rm (sha # order) s =
     (if bs_used s \<le> bs_quota s then s
      else if bs_disk s sha \<noteq> None \<and> rm sha then evict_loop rm order (drop_blob sha s)
      else evict_loop rm order s)"

definition evict_order :: "(string list \<Rightarrow> string list) \<Rightarrow> blob_store \<Rightarrow> string list" where
  "evict_order rng s = sort_key (last_use_of s) (rng (map fst (bs_last_use s)))"

definition evictLocked ::
    "(string \<Rightarrow> bool) \<Rightarrow> (string list \<Rightarrow> string list) \<Rightarrow> blob_store \<Rightarrow> blob_store" where
  "evictLocked rm rng s =
     (if bs_used s \<le> bs_quota s then s else evict_loop rm (evict_order rng s) s)"

definition stored_blob :: "int \<Rightarrow> string \<Rightarrow> bytes \<Rightarrow> blob_store \<Rightarrow> blob_store" where
  "stored_blob now sha body s =
     s\<lparr>bs_disk := (bs_disk s)(sha \<mapsto> body),
       bs_sizes := AList.update sha (int (length body)) (bs_sizes s),
       bs_last_use := AList.update sha now (bs_last_use s),
       bs_used := bs_used s + int (length body)\<rparr>"

definition bs_Put ::
    "ext \<Rightarrow> put_io \<Rightarrow> (string \<Rightarrow> bool) \<Rightarrow> (string list \<Rightarrow> string list) \<Rightarrow> int \<Rightarrow> string \<Rightarrow> bytes \<Rightarrow>
     blob_store \<Rightarrow> (cache_error + int) \<times> blob_store" where
  "bs_Put X io rm rng now sha body s =
     (if \<not> io_create io then (Inl IOError, s)
      else if \<not> io_copy io then (Inl IOError, s)
      else if hash_hex X body \<noteq> sha then (Inl (HashMismatch sha (hash_hex X body)), s)
      else if \<not> io_sync io then (Inl IOError, s)
      else if \<not> io_close io then (Inl IOError, s)
      else if \<not> io_rename io then (Inl IOError, s)
      else (Inr (int (length body)), evictLocked rm rng (stored_blob now sha body s)))"

definition bs_Used :: "blob_store \<Rightarrow> int" where
  "bs_Used s = bs_used s"

subsection \<open>The manifest cache\<close>

record 'v manifest_cache =
  mc_ttl :: int
  mc_neg_ttl :: int
  mc_items :: "string \<rightharpoonup> 'v \<times> int"
  mc_negated :: "string \<rightharpoonup> int"

definition NewManifestCache :: "int \<Rightarrow> int \<Rightarrow> 'v manifest_cache" where
  "NewManifestCache ttl negTTL =
     \<lparr>mc_ttl = ttl, mc_neg_ttl = negTTL, mc_items = Map.empty, mc_negated = Map.empty\<rparr>"

definition mc_Get :: "int \<Rightarrow> string \<Rightarrow> 'v manifest_cache \<Rightarrow> 'v option \<times> 'v manifest_cache" where
  "mc_Get now key m =
     (case mc_items m key of
        None \<Rightarrow> (None, m\<lparr>mc_items := (mc_items m)(key := None)\<rparr>)
      | Some (v, expires) \<Rightarrow>
          if now > expires then (None, m\<lparr>mc_items := (mc_items m)(key := None)\<rparr>)
          else (Some v, m))"

definition mc_Negative :: "int \<Rightarrow> string \<Rightarrow> 'v manifest_cache \<Rightarrow> bool" where
  "mc_Negative now key m =
     (case mc_negated m key of None \<Rightarrow> False | Some until \<Rightarrow> \<not> now > until)"

definition mc_Put :: "int \<Rightarrow> string \<Rightarrow> 'v \<Rightarrow> 'v manifest_cache \<Rightarrow> 'v manifest_cache" where
  "mc_Put now key v m =
     m\<lparr>mc_items := (mc_items m)(key \<mapsto> (v, now + mc_ttl m)),
       mc_negated := (mc_negated m)(key := None)\<rparr>"

definition mc_PutNegative :: "int \<Rightarrow> string \<Rightarrow> 'v manifest_cache \<Rightarrow> 'v manifest_cache" where
  "mc_PutNegative now key m =
     m\<lparr>mc_negated := (mc_negated m)(key \<mapsto> now + mc_neg_ttl m),
       mc_items := (mc_items m)(key := None)\<rparr>"

lemmas mc_defs = mc_Get_def mc_Negative_def mc_Put_def mc_PutNegative_def

interpretation mc: lookup_cache mc_Get mc_Negative mc_Put mc_PutNegative mc_ttl mc_neg_ttl
  by unfold_locales (auto simp: mc_defs split: option.splits)

subsection \<open>Invariant of the blob store\<close>

abbreviation keys :: "('k, 'v) gomap \<Rightarrow> 'k set" where
  "keys m \<equiv> fst ` set m"

definition bs_inv :: "blob_store \<Rightarrow> bool" where
  "bs_inv s \<longleftrightarrow>
     0 \<le> bs_quota s \<and> distinct_keys (bs_sizes s) \<and> distinct_keys (bs_last_use s) \<and>
     keys (bs_last_use s) = keys (bs_sizes s) \<and> dom (bs_disk s) = keys (bs_sizes s) \<and>
     (\<forall>k v. map_of (bs_sizes s) k = Some v \<longrightarrow> map_option (\<lambda>b. int (length b)) (bs_disk s k) = Some v) \<and>
     total (bs_sizes s) \<le> bs_used s"

definition bs_verified :: "ext \<Rightarrow> blob_store \<Rightarrow> bool" where
  "bs_verified X s \<longleftrightarrow> (\<forall>k b. bs_disk s k = Some b \<longrightarrow> hash_hex X b = k)"

lemma drop_blob_inv: "bs_inv s \<Longrightarrow> bs_inv (drop_blob sha s)"
  by (auto simp: bs_inv_def drop_blob_def size_of_def gomap_simps keys_delete dom_fun_upd
      split: option.splits)

lemma drop_blob_verified: "bs_verified X s \<Longrightarrow> bs_verified X (drop_blob sha s)"
  by (auto simp: bs_verified_def drop_blob_def split: if_splits)

lemma drop_blob_simps [simp]:
  "bs_quota (drop_blob sha s) = bs_quota s"
  "bs_disk (drop_blob sha s) = (bs_disk s)(sha := None)"
  "bs_used (drop_blob sha s) = bs_used s - size_of s sha"
  by (simp_all add: drop_blob_def)

lemma size_of_nonneg: "bs_inv s \<Longrightarrow> 0 \<le> size_of s k"
  by (fastforce simp: bs_inv_def size_of_def split: option.splits)

lemma stored_blob_inv: "bs_inv s \<Longrightarrow> bs_inv (stored_blob now sha body s)"
  using size_of_nonneg [of s sha]
  by (auto simp: bs_inv_def stored_blob_def size_of_def gomap_simps keys_update
      split: option.splits)

lemma stored_blob_verified:
  "bs_verified X s \<Longrightarrow> hash_hex X body = sha \<Longrightarrow> bs_verified X (stored_blob now sha body s)"
  by (auto simp: bs_verified_def stored_blob_def)

lemma evict_loop_inv: "bs_inv s \<Longrightarrow> bs_inv (evict_loop rm order s)"
  by (induction order arbitrary: s) (auto intro: drop_blob_inv)

lemma evict_loop_verified: "bs_verified X s \<Longrightarrow> bs_verified X (evict_loop rm order s)"
  by (induction order arbitrary: s) (auto intro: drop_blob_verified)

lemma evict_loop_quota [simp]: "bs_quota (evict_loop rm order s) = bs_quota s"
  by (induction order arbitrary: s) auto

lemma evictLocked_inv: "bs_inv s \<Longrightarrow> bs_inv (evictLocked rm rng s)"
  by (simp add: evictLocked_def evict_loop_inv)

lemma evictLocked_verified: "bs_verified X s \<Longrightarrow> bs_verified X (evictLocked rm rng s)"
  by (simp add: evictLocked_def evict_loop_verified)

lemma bs_Put_cases:
  obtains e where "bs_Put X io rm rng now sha body s = (Inl e, s)"
  | "io = all_io" and "hash_hex X body = sha"
    and "bs_Put X io rm rng now sha body s =
      (Inr (int (length body)), evictLocked rm rng (stored_blob now sha body s))"
proof (cases "io = all_io \<and> hash_hex X body = sha")
  case True
  then show ?thesis by (intro that(2)) (simp_all add: bs_Put_def all_io_def)
next
  case False
  then have "\<exists>e. bs_Put X io rm rng now sha body s = (Inl e, s)"
    by (cases io) (auto simp: bs_Put_def all_io_def)
  then show ?thesis using that(1) by blast
qed

lemma bs_Put_inv: "bs_inv s \<Longrightarrow> bs_inv (snd (bs_Put X io rm rng now sha body s))"
  by (rule bs_Put_cases [of X io rm rng now sha body s])
    (auto intro: evictLocked_inv stored_blob_inv)

lemma bs_Put_verified: "bs_verified X s \<Longrightarrow> bs_verified X (snd (bs_Put X io rm rng now sha body s))"
  by (rule bs_Put_cases [of X io rm rng now sha body s])
    (auto intro: evictLocked_verified stored_blob_verified)

lemma bs_Open_inv: "bs_inv s \<Longrightarrow> bs_inv (snd (bs_Open ok now sha s))"
  by (auto simp: bs_Open_def bs_inv_def keys_update distinct_keys_update split: option.splits)

lemma bs_Open_verified: "bs_verified X s \<Longrightarrow> bs_verified X (snd (bs_Open ok now sha s))"
  by (auto simp: bs_Open_def bs_verified_def split: option.splits)

subsection \<open>Eviction\<close>

lemma fold_drop_disk: "bs_disk (fold drop_blob xs s) k = (if k \<in> set xs then None else bs_disk s k)"
  by (induction xs arbitrary: s) auto

lemma fold_drop_size: "k \<notin> set xs \<Longrightarrow> size_of (fold drop_blob xs s) k = size_of s k"
  by (induction xs arbitrary: s) (auto simp: size_of_def drop_blob_def)

lemma evict_loop_spec:
  assumes "\<forall>k. rm k" and "distinct order" and "set order \<subseteq> dom (bs_disk s)"
  shows "\<exists>i \<le> length order.
    evict_loop rm order s = fold drop_blob (take i order) s \<and>
    (bs_used (evict_loop rm order s) \<le> bs_quota s \<or> i = length order) \<and>
    (0 < i \<longrightarrow> bs_used (fold drop_blob (take (i - 1) order) s) > bs_quota s)"
  using assms(2,3)
proof (induction order arbitrary: s)
  case Nil
  then show ?case by simp
next
  case (Cons sha order)
  show ?case
  proof (cases "bs_used s \<le> bs_quota s")
    case True
    then show ?thesis by (intro exI [of _ 0]) simp
  next
    case False
    have "set order \<subseteq> dom (bs_disk (drop_blob sha s))" using Cons.prems by auto
    moreover have "distinct order" using Cons.prems by simp
    ultimately obtain i where i: "i \<le> length order"
      "evict_loop rm order (drop_blob sha s) = fold drop_blob (take i order) (drop_blob sha s)"
      "bs_used (evict_loop rm order (drop_blob sha s)) \<le> bs_quota s \<or> i = length order"
      "0 < i \<longrightarrow> bs_used (fold drop_blob (take (i - 1) order) (drop_blob sha s)) > bs_quota s"
      using Cons.IH [of "drop_blob sha s", unfolded drop_blob_simps(1)] by blast
    moreover have "evict_loop rm (sha # order) s = evict_loop rm order (drop_blob sha s)"
      using False assms(1) Cons.prems by auto
    ultimately show ?thesis
      using False by (intro exI [of _ "Suc i"]) (cases i; simp)
  qed
qed

lemma evict_order_facts:
  assumes "bs_inv s" and "mset (rng (map fst (bs_last_use s))) = mset (map fst (bs_last_use s))"
  shows "distinct (evict_order rng s)" and "set (evict_order rng s) = dom (bs_disk s)"
    and "sorted (map (last_use_of s) (evict_order rng s))"
proof -
  have "distinct (rng (map fst (bs_last_use s)))"
    using assms by (metis bs_inv_def distinct_keys_def mset_eq_imp_distinct_iff)
  then show "distinct (evict_order rng s)" by (simp add: evict_order_def)
  have "set (rng (map fst (bs_last_use s))) = keys (bs_last_use s)"
    using assms(2) by (metis mset_eq_setD set_map)
  then show "set (evict_order rng s) = dom (bs_disk s)"
    using assms(1) by (simp add: evict_order_def bs_inv_def)
  show "sorted (map (last_use_of s) (evict_order rng s))"
    by (simp add: evict_order_def)
qed

definition permutes :: "(string list \<Rightarrow> string list) \<Rightarrow> bool" where
  "permutes rng \<longleftrightarrow> (\<forall>xs. mset (rng xs) = mset xs)"

lemma evictLocked_lru:
  assumes "bs_inv s" and "permutes rng" and "\<forall>k. rm k"
  defines "s' \<equiv> evictLocked rm rng s"
  shows "(\<forall>k \<in> dom (bs_disk s) - dom (bs_disk s'). \<forall>k' \<in> dom (bs_disk s').
      last_use_of s k \<le> last_use_of s k') \<and>
    (bs_used s' \<le> bs_quota s \<or> dom (bs_disk s') = {}) \<and>
    (dom (bs_disk s') \<noteq> dom (bs_disk s) \<longrightarrow>
      (\<exists>k \<in> dom (bs_disk s) - dom (bs_disk s'). bs_used s' + size_of s k > bs_quota s))"
proof (cases "bs_used s \<le> bs_quota s")
  case True
  then show ?thesis by (simp add: s'_def evictLocked_def)
next
  case False
  define order where "order = evict_order rng s"
  have o: "distinct order" "set order = dom (bs_disk s)" "sorted (map (last_use_of s) order)"
    unfolding order_def using evict_order_facts [OF assms(1)] assms(2) permutes_def by auto
  from evict_loop_spec [OF assms(3) o(1)] o(2) obtain i where i: "i \<le> length order"
    "evict_loop rm order s = fold drop_blob (take i order) s"
    "bs_used (evict_loop rm order s) \<le> bs_quota s \<or> i = length order"
    "0 < i \<longrightarrow> bs_used (fold drop_blob (take (i - 1) order) s) > bs_quota s" by blast
  have s': "s' = fold drop_blob (take i order) s"
    using False i(2) by (simp add: s'_def evictLocked_def order_def)
  have parts: "set order = set (take i order) \<union> set (drop i order)"
    "set (take i order) \<inter> set (drop i order) = {}"
    using o(1) by (metis append_take_drop_id set_append, metis append_take_drop_id distinct_append)
  have dom': "dom (bs_disk s') = set (drop i order)"
    using parts o(2) by (auto simp: s' dom_def fold_drop_disk)
  have "sorted (map (last_use_of s) (take i order) @ map (last_use_of s) (drop i order))"
    using o(3) by (simp flip: map_append)
  then have "last_use_of s k \<le> last_use_of s k'"
    if "k \<in> set (take i order)" "k' \<in> set (drop i order)" for k k'
    using that by (auto simp: sorted_append)
  moreover have "bs_used s' \<le> bs_quota s \<or> dom (bs_disk s') = {}"
    using i(2,3) s' dom' by auto
  moreover have "\<exists>k \<in> set (take i order). bs_used s' + size_of s k > bs_quota s" if "0 < i"
  proof -
    define k where "k = order ! (i - 1)"
    have ti: "take i order = take (i - 1) order @ [k]"
      using that i(1) by (metis Suc_diff_1 Suc_le_lessD k_def take_Suc_conv_app_nth)
    then have "k \<notin> set (take (i - 1) order)"
      using o(1) by (metis append_take_drop_id distinct_append not_distinct_conv_prefix)
    then have "bs_used s' = bs_used (fold drop_blob (take (i - 1) order) s) - size_of s k"
      by (simp add: s' ti fold_drop_size)
    then show ?thesis using i(4) that ti by (intro bexI [of _ k]) auto
  qed
  moreover have "dom (bs_disk s) - dom (bs_disk s') = set (take i order)"
    using parts dom' o(2) by blast
  moreover have "0 < i" if "dom (bs_disk s') \<noteq> dom (bs_disk s)"
    using that dom' o(2) by (cases i) auto
  ultimately show ?thesis using dom' by auto
qed

lemma bs_total_bounded:
  assumes "bs_inv s" and "permutes rng" and "\<forall>k. rm k"
  shows "total (bs_sizes (evictLocked rm rng s)) \<le> bs_quota s"
proof -
  let ?s = "evictLocked rm rng s"
  have inv: "bs_inv ?s" using assms(1) by (rule evictLocked_inv)
  from evictLocked_lru [OF assms] consider "bs_used ?s \<le> bs_quota s" | "dom (bs_disk ?s) = {}"
    by auto
  then show ?thesis
  proof cases
    case 1
    then show ?thesis using inv by (simp add: bs_inv_def)
  next
    case 2
    then have "bs_sizes ?s = []" using inv by (auto simp: bs_inv_def)
    then show ?thesis using assms(1) by (simp add: bs_inv_def)
  qed
qed

subsection \<open>The store as a state machine\<close>

datatype bs_op =
    BsPut put_io "string \<Rightarrow> bool" "string list \<Rightarrow> string list" int string bytes
  | BsOpen bool int string

fun bs_step :: "ext \<Rightarrow> bs_op \<Rightarrow> blob_store \<Rightarrow> blob_store" where
  "bs_step X (BsPut io rm rng now sha body) s = snd (bs_Put X io rm rng now sha body s)"
| "bs_step X (BsOpen ok now sha) s = snd (bs_Open ok now sha s)"

fun bs_op_ok :: "bs_op \<Rightarrow> bool" where
  "bs_op_ok (BsPut io rm rng now sha body) \<longleftrightarrow> permutes rng \<and> (\<forall>k. rm k)"
| "bs_op_ok (BsOpen ok now sha) \<longleftrightarrow> True"

lemma bs_step_quota: "bs_quota (bs_step X op s) = bs_quota s"
proof (cases op)
  case (BsPut io rm rng now sha body)
  then show ?thesis
    by (cases rule: bs_Put_cases [of X io rm rng now sha body s])
      (auto simp: evictLocked_def stored_blob_def)
qed (auto simp: bs_Open_def split: option.splits)

lemma bs_step_stored:
  assumes "bs_inv s" and "bs_op_ok op" and "total (bs_sizes s) \<le> bs_quota s"
  shows "total (bs_sizes (bs_step X op s)) \<le> bs_quota s"
proof (cases op)
  case (BsPut io rm rng now sha body)
  with assms(2) have "permutes rng" "\<forall>k. rm k" by auto
  from bs_total_bounded [OF stored_blob_inv [OF assms(1), of now sha body] this]
  have "total (bs_sizes (evictLocked rm rng (stored_blob now sha body s))) \<le> bs_quota s"
    by (simp add: stored_blob_def)
  then show ?thesis using BsPut assms(3)
    by (cases rule: bs_Put_cases [of X io rm rng now sha body s]) auto
qed (use assms(3) in \<open>auto simp: bs_Open_def split: option.splits\<close>)

interpretation blobs: bounded_store
  "\<lambda>s. bs_inv s \<and> bs_verified X s" bs_disk "\<lambda>k b. hash_hex X b = k" "bs_step X"
  "\<lambda>s. total (bs_sizes s)" bs_quota bs_op_ok for X
proof unfold_locales
  fix s op assume inv: "bs_inv s \<and> bs_verified X s"
  show "bs_inv (bs_step X op s) \<and> bs_verified X (bs_step X op s)"
    using inv by (cases op)
      (auto intro: bs_Put_inv bs_Put_verified bs_Open_inv bs_Open_verified)
  show "total (bs_sizes (bs_step X op s)) \<le> bs_quota s"
    if "bs_op_ok op" "total (bs_sizes s) \<le> bs_quota s"
    using inv that by (intro bs_step_stored) auto
qed (auto simp: bs_verified_def bs_step_quota)

subsection \<open>Byte accounting\<close>

text \<open>What the counter \<open>used\<close> holds beyond the bytes stored.\<close>

definition bs_excess :: "blob_store \<Rightarrow> int" where
  "bs_excess s = bs_used s - total (bs_sizes s)"

lemma drop_blob_excess: "bs_inv s \<Longrightarrow> bs_excess (drop_blob sha s) = bs_excess s"
  by (simp add: bs_excess_def drop_blob_def size_of_def bs_inv_def total_delete)

lemma evict_loop_excess: "bs_inv s \<Longrightarrow> bs_excess (evict_loop rm order s) = bs_excess s"
  by (induction order arbitrary: s) (auto simp: drop_blob_excess drop_blob_inv)

lemma stored_blob_excess:
  "bs_inv s \<Longrightarrow> bs_excess (stored_blob now sha body s) = bs_excess s + size_of s sha"
  by (simp add: bs_excess_def stored_blob_def size_of_def bs_inv_def total_update)

lemma bs_Put_excess:
  assumes "bs_inv s"
  shows "bs_excess (snd (bs_Put X io rm rng now sha body s)) =
    bs_excess s + (case fst (bs_Put X io rm rng now sha body s) of
      Inl _ \<Rightarrow> 0 | Inr _ \<Rightarrow> size_of s sha)"
proof (cases rule: bs_Put_cases [of X io rm rng now sha body s])
  case 2
  with assms show ?thesis
    by (simp add: evictLocked_def evict_loop_excess stored_blob_excess stored_blob_inv)
qed simp

subsection \<open>Opening a store\<close>

definition counted :: "dirent \<Rightarrow> bool" where
  "counted e \<longleftrightarrow> \<not> de_is_dir e \<and> length (de_name e) = 64 \<and> de_info e \<noteq> None"

text \<open>The listing describes the directory: no name twice, and the files counted are the
  files there, with their sizes.\<close>

definition dir_ok :: "dirent list \<Rightarrow> (string \<rightharpoonup> bytes) \<Rightarrow> bool" where
  "dir_ok es disk \<longleftrightarrow>
     distinct (map de_name es) \<and>
     dom disk = de_name ` set (filter counted es) \<and>
     (\<forall>e \<in> set es. counted e \<longrightarrow>
        map_option (\<lambda>b. int (length b)) (disk (de_name e)) = map_option fst (de_info e))"

lemma scan_entry_cases:
  "scan_entry e s =
     (case de_info e of
        Some (n, t) \<Rightarrow> if counted e then
          s\<lparr>bs_sizes := AList.update (de_name e) n (bs_sizes s),
            bs_last_use := AList.update (de_name e) t (bs_last_use s),
            bs_used := bs_used s + n\<rparr> else s
      | None \<Rightarrow> s)"
  by (auto simp: scan_entry_def counted_def split: option.splits)

text \<open>What scanning the listing \<open>es\<close> adds to a store.\<close>

definition scanned :: "dirent list \<Rightarrow> blob_store \<Rightarrow> blob_store \<Rightarrow> bool" where
  "scanned es s s' \<longleftrightarrow>
     distinct_keys (bs_sizes s') \<and> distinct_keys (bs_last_use s') \<and>
     keys (bs_last_use s') = keys (bs_sizes s') \<and>
     keys (bs_sizes s') = keys (bs_sizes s) \<union> de_name ` set (filter counted es) \<and>
     bs_excess s' = bs_excess s \<and> bs_disk s' = bs_disk s \<and> bs_quota s' = bs_quota s \<and>
     (\<forall>k v. map_of (bs_sizes s') k = Some v \<longrightarrow>
       map_of (bs_sizes s) k = Some v \<or>
       (\<exists>e \<in> set es. counted e \<and> k = de_name e \<and> map_option fst (de_info e) = Some v))"

lemma fold_scan:
  "distinct (map de_name es) \<Longrightarrow> de_name ` set es \<inter> keys (bs_sizes s) = {} \<Longrightarrow>
   distinct_keys (bs_sizes s) \<Longrightarrow> distinct_keys (bs_last_use s) \<Longrightarrow>
   keys (bs_last_use s) = keys (bs_sizes s) \<Longrightarrow> scanned es s (fold scan_entry es s)"
proof (induction es arbitrary: s)
  case Nil
  then show ?case by (simp add: scanned_def)
next
  case (Cons e es)
  show ?case
  proof (cases "counted e")
    case False
    then have "scan_entry e s = s" by (auto simp: scan_entry_cases split: option.splits)
    moreover have "scanned es s (fold scan_entry es s)"
      using Cons.prems by (intro Cons.IH) auto
    ultimately show ?thesis using False by (auto simp: scanned_def)
  next
    case True
    then obtain n t where info: "de_info e = Some (n, t)" by (auto simp: counted_def)
    define s1 where "s1 = scan_entry e s"
    have s1: "s1 = s\<lparr>bs_sizes := AList.update (de_name e) n (bs_sizes s),
        bs_last_use := AList.update (de_name e) t (bs_last_use s), bs_used := bs_used s + n\<rparr>"
      using True info by (simp add: s1_def scan_entry_cases)
    have fresh: "de_name e \<notin> keys (bs_sizes s)" using Cons.prems(2) by auto
    have ex: "bs_excess s1 = bs_excess s"
      using fresh by (simp add: s1 bs_excess_def total_update_fresh)
    have flds: "keys (bs_sizes s1) = insert (de_name e) (keys (bs_sizes s))"
      "bs_disk s1 = bs_disk s" "bs_quota s1 = bs_quota s"
      by (simp_all add: s1 keys_update)
    have old: "map_of (bs_sizes s1) k = Some v \<Longrightarrow>
      map_of (bs_sizes s) k = Some v \<or> (k = de_name e \<and> map_option fst (de_info e) = Some v)" for k v
      using info by (auto simp: s1 update_conv' split: if_splits)
    have IH: "scanned es s1 (fold scan_entry es s1)"
      using Cons.prems by (intro Cons.IH) (auto simp: s1 keys_update distinct_keys_update)
    have fold: "fold scan_entry (e # es) s = fold scan_entry es s1" by (simp add: s1_def)
    show ?thesis
      unfolding scanned_def fold
    proof (intro conjI allI impI)
      fix k v assume "map_of (bs_sizes (fold scan_entry es s1)) k = Some v"
      with IH have "map_of (bs_sizes s1) k = Some v \<or>
        (\<exists>e \<in> set es. counted e \<and> k = de_name e \<and> map_option fst (de_info e) = Some v)"
        unfolding scanned_def by blast
      with old True show "map_of (bs_sizes s) k = Some v \<or>
        (\<exists>e \<in> set (e # es). counted e \<and> k = de_name e \<and> map_option fst (de_info e) = Some v)"
        by (metis list.set_intros)
    qed (use IH ex flds True in \<open>simp_all add: scanned_def\<close>)
  qed
qed

lemma NewBlobStore_inv:
  assumes new: "NewBlobStore ok entries disk quota = Inr s" and "0 \<le> quota"
    and dir: "\<And>es. entries = Some es \<Longrightarrow> dir_ok es disk"
  shows "bs_inv s \<and> bs_excess s = 0 \<and> bs_disk s = disk \<and> bs_quota s = quota"
proof -
  let ?s0 = "\<lparr>bs_quota = quota, bs_used = 0, bs_sizes = [], bs_last_use = [], bs_disk = disk\<rparr>"
  from new obtain es where es: "entries = Some es" "s = fold scan_entry es ?s0"
    by (auto simp: NewBlobStore_def scan_def split: if_splits option.splits)
  have d: "dir_ok es disk" using es(1) by (rule dir)
  then have "scanned es ?s0 s"
    unfolding es(2) by (intro fold_scan) (auto simp: dir_ok_def distinct_keys_def)
  then have sc: "distinct_keys (bs_sizes s)" "distinct_keys (bs_last_use s)"
    "keys (bs_last_use s) = keys (bs_sizes s)" "keys (bs_sizes s) = de_name ` set (filter counted es)"
    "bs_excess s = 0" "bs_disk s = disk" "bs_quota s = quota"
    and sz: "\<And>k v. map_of (bs_sizes s) k = Some v \<Longrightarrow>
      \<exists>e \<in> set es. counted e \<and> k = de_name e \<and> map_option fst (de_info e) = Some v"
    by (simp_all add: scanned_def bs_excess_def)
  have "map_option (\<lambda>b. int (length b)) (disk k) = Some v"
    if "map_of (bs_sizes s) k = Some v" for k v
    using sz [OF that] d by (auto simp: dir_ok_def)
  moreover have "dom disk = de_name ` set (filter counted es)" using d by (simp add: dir_ok_def)
  ultimately show ?thesis
    using sc assms(2) by (simp add: bs_inv_def bs_excess_def)
qed

subsection \<open>Positive and negative answers\<close>

datatype 'v mc_op = McGet int string | McPut int string 'v | McPutNegative int string

fun mc_step :: "'v mc_op \<Rightarrow> 'v manifest_cache \<Rightarrow> 'v manifest_cache" where
  "mc_step (McGet now k) m = snd (mc_Get now k m)"
| "mc_step (McPut now k v) m = mc_Put now k v m"
| "mc_step (McPutNegative now k) m = mc_PutNegative now k m"

definition mc_exclusive :: "'v manifest_cache \<Rightarrow> bool" where
  "mc_exclusive m \<longleftrightarrow> dom (mc_items m) \<inter> dom (mc_negated m) = {}"

lemma mc_step_exclusive: "mc_exclusive m \<Longrightarrow> mc_exclusive (mc_step op m)"
  by (cases op) (auto simp: mc_exclusive_def mc_defs split: option.splits)

lemma mc_run_exclusive: "mc_exclusive m \<Longrightarrow> mc_exclusive (fold mc_step ops m)"
  by (induction ops arbitrary: m) (auto intro: mc_step_exclusive)

lemma mc_Get_item: "fst (mc_Get t k m) = Some v \<Longrightarrow> k \<in> dom (mc_items m)"
  by (auto simp: mc_Get_def split: option.splits if_splits)

lemma mc_Negative_item: "mc_Negative t k m \<Longrightarrow> k \<in> dom (mc_negated m)"
  by (auto simp: mc_Negative_def split: option.splits)

subsection \<open>Sample stores\<close>

definition zeros64_name :: string where
  "zeros64_name = replicate 64 (CHR ''0'')"

lemma length_zeros64_name [simp]: "length zeros64_name = 64"
  unfolding zeros64_name_def length_replicate by (rule refl)

definition empty_store :: "int \<Rightarrow> blob_store" where
  "empty_store quota =
     \<lparr>bs_quota = quota, bs_used = 0, bs_sizes = [], bs_last_use = [], bs_disk = Map.empty\<rparr>"

definition sample_put :: "int \<Rightarrow> bytes \<Rightarrow> bs_op" where
  "sample_put now body = BsPut all_io (\<lambda>_. True) id now (hash_hex sample_ext body) body"

lemma empty_store_inv: "0 \<le> q \<Longrightarrow> bs_inv (empty_store q) \<and> bs_verified X (empty_store q)"
  by (simp add: empty_store_def bs_inv_def bs_verified_def distinct_keys_def)

lemma sample_put_stored:
  "int (length body) \<le> q \<Longrightarrow>
     bs_step sample_ext (sample_put now body) (empty_store q) =
       stored_blob now (hash_hex sample_ext body) body (empty_store q)"
  by (simp add: sample_put_def bs_Put_def all_io_def evictLocked_def stored_blob_def empty_store_def)

definition sample_sha :: string where
  "sample_sha = ''616263646566'' @ concat (replicate 26 ''30'')"

lemma sample_sha: "hash_hex sample_ext ''abcdef'' = sample_sha"
  by code_simp

text \<open>Storing the same six bytes twice in a store of ten: the second \<open>Put\<close> charges them
  again, the counter passes the quota and the only copy is evicted; six bytes stay charged
  to an empty store.\<close>

lemma double_put_evicts:
  defines "sha \<equiv> hash_hex sample_ext ''abcdef''"
  defines "s1 \<equiv> bs_step sample_ext (sample_put 1 ''abcdef'') (empty_store 10)"
  defines "s2 \<equiv> bs_step sample_ext (sample_put 2 ''abcdef'') s1"
  shows "bs_disk s1 sha = Some ''abcdef'' \<and> bs_used s1 = 6 \<and>
    bs_disk s2 sha = None \<and> bs_used s2 = 6 \<and> bs_sizes s2 = []"
proof -
  have s1: "s1 = stored_blob 1 sha ''abcdef'' (empty_store 10)"
    unfolding s1_def sha_def by (rule sample_put_stored) simp
  show ?thesis
    unfolding s2_def sample_put_def sha_def [symmetric]
    by (simp add: s1 bs_Put_def all_io_def sha_def [symmetric] evictLocked_def evict_order_def
        stored_blob_def empty_store_def drop_blob_def size_of_def)
qed

subsection \<open>Properties\<close>

text \<open>C9: Nothing unverified is ever readable from the blob cache. From a consistent store, after
  any sequence of \<open>Put\<close> and \<open>Open\<close> calls, with any failures of the file operations, any
  eviction order and any failed removal, the bytes under a key hash to that key.\<close>

theorem blob_cache_verified:
  assumes "bs_inv s" and "bs_verified X s"
    and "bs_disk (fold (bs_step X) ops s) sha = Some body"
  shows "hash_hex X body = sha"
  using assms by (intro blobs.run_verified [of s X ops]) auto

theorem blob_cache_verified_witness:
  "bs_disk (fold (bs_step sample_ext) [sample_put 1 ''abcdef''] (empty_store 10)) sample_sha =
     Some ''abcdef'' \<and>
   hash_hex sample_ext ''abcdef'' = sample_sha"
proof -
  have read: "bs_disk (fold (bs_step sample_ext) [sample_put 1 ''abcdef''] (empty_store 10))
      sample_sha = Some ''abcdef''"
    by (simp add: sample_put_stored sample_sha [symmetric] del: bs_step.simps)
      (simp add: stored_blob_def)
  with blob_cache_verified [OF _ _ read] empty_store_inv [of 10 sample_ext] show ?thesis by simp
qed

text \<open>C31: The blob cache keeps its quota. From a consistent store within its quota, after any
  sequence of operations in which files can be removed, the stored bytes do not exceed the
  quota, whatever the sizes and the order of the puts.\<close>

theorem blob_cache_quota:
  assumes "bs_inv s" and "bs_verified X s" and "total (bs_sizes s) \<le> bs_quota s"
    and "list_all bs_op_ok ops"
  shows "total (bs_sizes (fold (bs_step X) ops s)) \<le> bs_quota s"
  using assms by (intro blobs.run_bounded) auto

theorem blob_cache_quota_witness:
  "total (bs_sizes (fold (bs_step sample_ext)
     [sample_put 1 ''abcdef'', sample_put 2 ''ghijkl''] (empty_store 10))) \<le> bs_quota (empty_store 10)"
  by (rule blob_cache_quota)
    (use empty_store_inv [of 10 sample_ext]
      in \<open>simp_all add: sample_put_def permutes_def\<close>, simp add: empty_store_def)

text \<open>C32: Eviction is least-recently-used and stops as soon as it can. When files can be removed,
  every evicted blob was last used no later than every blob kept; afterwards the byte count
  is within the quota or the store is empty; and if anything was evicted, adding one of the
  evicted blobs back would pass the quota.\<close>

theorem eviction_lru:
  assumes "bs_inv s" and "permutes rng" and "\<forall>k. rm k"
  shows "(\<forall>k \<in> dom (bs_disk s) - dom (bs_disk (evictLocked rm rng s)).
      \<forall>k' \<in> dom (bs_disk (evictLocked rm rng s)). last_use_of s k \<le> last_use_of s k') \<and>
    (bs_used (evictLocked rm rng s) \<le> bs_quota s \<or> dom (bs_disk (evictLocked rm rng s)) = {}) \<and>
    (dom (bs_disk (evictLocked rm rng s)) \<noteq> dom (bs_disk s) \<longrightarrow>
      (\<exists>k \<in> dom (bs_disk s) - dom (bs_disk (evictLocked rm rng s)).
         bs_used (evictLocked rm rng s) + size_of s k > bs_quota s))"
  using assms by (rule evictLocked_lru)

theorem eviction_lru_witness:
  "bs_used (evictLocked (\<lambda>_. True) id (stored_blob 1 ''a'' ''abcdef'' (empty_store 3))) \<le> 3 \<or>
   dom (bs_disk (evictLocked (\<lambda>_. True) id (stored_blob 1 ''a'' ''abcdef'' (empty_store 3)))) = {}"
proof -
  have "bs_inv (stored_blob 1 ''a'' ''abcdef'' (empty_store 3))"
    using empty_store_inv [of 3 sample_ext] by (intro stored_blob_inv) simp
  from eviction_lru [OF this, of id "\<lambda>_. True"] show ?thesis
    by (simp add: permutes_def stored_blob_def empty_store_def)
qed

text \<open>The byte counter is exact up to a known drift: what it holds beyond the bytes stored
  changes only in a successful \<open>Put\<close>, and then by the size of the blob already stored under
  that key. So it is exact as long as no stored blob is put again, and a blob put again is
  charged twice.\<close>

lemma put_accounting:
  assumes "bs_inv s"
  shows "bs_excess (snd (bs_Put X io rm rng now sha body s)) =
    bs_excess s + (case fst (bs_Put X io rm rng now sha body s) of
      Inl _ \<Rightarrow> 0 | Inr _ \<Rightarrow> size_of s sha)"
  using assms by (rule bs_Put_excess)

lemma put_accounting_witness:
  "bs_excess (snd (bs_Put sample_ext all_io (\<lambda>_. True) id 1 (hash_hex sample_ext ''ab'') ''ab''
     (empty_store 10))) = 0"
proof -
  have "bs_inv (empty_store 10)" using empty_store_inv [of 10 sample_ext] by simp
  from put_accounting [OF this, of sample_ext all_io "\<lambda>_. True" id 1 "hash_hex sample_ext ''ab''" "''ab''"]
  show ?thesis by (simp add: bs_Put_def all_io_def bs_excess_def empty_store_def size_of_def)
qed

text \<open>Opening a cache directory whose listing describes its files gives a consistent store
  that charges exactly the bytes on disk.\<close>

lemma open_store_consistent:
  assumes "NewBlobStore ok entries disk quota = Inr s" and "0 \<le> quota"
    and "\<And>es. entries = Some es \<Longrightarrow> dir_ok es disk"
  shows "bs_inv s \<and> bs_used s = total (bs_sizes s) \<and> bs_disk s = disk"
  using NewBlobStore_inv [OF assms] by (simp add: bs_excess_def)

lemma open_store_consistent_witness:
  "bs_inv (stored_blob 7 zeros64_name ''abc'' (empty_store 10))"
proof -
  let ?e = "\<lparr>de_name = zeros64_name, de_is_dir = False, de_info = Some (3, 7)\<rparr>"
  have new: "NewBlobStore True (Some [?e]) [zeros64_name \<mapsto> ''abc''] 10 =
      Inr (stored_blob 7 zeros64_name ''abc'' (empty_store 10))"
    by (simp add: NewBlobStore_def scan_def scan_entry_def stored_blob_def empty_store_def)
  have "dir_ok [?e] [zeros64_name \<mapsto> ''abc'']"
    by (simp add: dir_ok_def counted_def)
  then show ?thesis using open_store_consistent [OF new] by simp
qed

text \<open>The manifest cache never answers a question both ways: starting empty, after any
  sequence of operations, a key with a fresh positive answer has no fresh negative one.\<close>

lemma manifest_cache_exclusive:
  "\<not> (fst (mc_Get t k (fold mc_step ops (NewManifestCache ttl negTTL))) = Some v \<and>
      mc_Negative t' k (fold mc_step ops (NewManifestCache ttl negTTL)))"
proof -
  have "mc_exclusive (NewManifestCache ttl negTTL)"
    by (simp add: mc_exclusive_def NewManifestCache_def)
  from mc_run_exclusive [OF this, of ops] show ?thesis
    using mc_Get_item mc_Negative_item by (fastforce simp: mc_exclusive_def)
qed

end
