(* ===== verification/Nostr.thy ===== *)
theory Nostr
  imports External
begin

section \<open>Relay queries\<close>

text \<open>
  What \<^verbatim>\<open>internal/resolve\<close> and \<^verbatim>\<open>internal/npk\<close> use of \<^verbatim>\<open>go-nostr\<close>'s relay pool: a query
  \<open>SubManyEose(ctx, relays, filter)\<close> delivers a finite stream of hits, each with an event
  or nil, and ends. The stream is a parameter (\<open>pool\<close>): the hits depend on the relays and
  the filter, in an order the network chooses. \<open>pool_ok\<close> is the documented behaviour that
  a subscription drops events that do not match its filter.

  The newest-wins loops of the program all have the same step, \<open>newer\<close>; what a loop of
  them computes is stated once (\<open>newest_Some\<close>): the first of the events with the highest
  creation time.
\<close>

record nfilter =
  f_kinds :: "int list"
  f_authors :: "string list"
  f_ids :: "string list"
  f_tags :: "(string \<times> string list) list"

definition empty_filter :: nfilter where
  "empty_filter = \<lparr>f_kinds = [], f_authors = [], f_ids = [], f_tags = []\<rparr>"

type_synonym pool = "string list \<Rightarrow> nfilter \<Rightarrow> event option list"

text \<open>An event matches a filter if it satisfies every non-empty condition of it.\<close>

definition tag_matches :: "event \<Rightarrow> string \<times> string list \<Rightarrow> bool" where
  "tag_matches ev kv \<longleftrightarrow>
     list_ex (\<lambda>t. length t \<ge> 2 \<and> t ! 0 = fst kv \<and> t ! 1 \<in> set (snd kv)) (ev_tags ev)"

definition matches :: "nfilter \<Rightarrow> event \<Rightarrow> bool" where
  "matches f ev \<longleftrightarrow>
     (f_kinds f = [] \<or> ev_kind ev \<in> set (f_kinds f)) \<and>
     (f_authors f = [] \<or> ev_pubkey ev \<in> set (f_authors f)) \<and>
     (f_ids f = [] \<or> ev_id ev \<in> set (f_ids f)) \<and>
     list_all (tag_matches ev) (f_tags f)"

definition pool_ok :: "pool \<Rightarrow> bool" where
  "pool_ok P \<longleftrightarrow> (\<forall>relays f ev. Some ev \<in> set (P relays f) \<longrightarrow> matches f ev)"

text \<open>A pool that answers every query from a fixed list of events.\<close>

definition relay_of :: "event list \<Rightarrow> pool" where
  "relay_of evs = (\<lambda>relays f. if relays = [] then [] else map Some (filter (matches f) evs))"

lemma relay_of_ok: "pool_ok (relay_of evs)"
  by (auto simp: pool_ok_def relay_of_def)

subsection \<open>The newest event\<close>

definition newer :: "event \<Rightarrow> event option \<Rightarrow> event option" where
  "newer ev best =
     (case best of
        None \<Rightarrow> Some ev
      | Some b \<Rightarrow> if ev_created_at ev \<le> ev_created_at b then best else Some ev)"

lemma newer_simps:
  "newer x None = Some x"
  "newer x (Some b) = (if ev_created_at x \<le> ev_created_at b then Some b else Some x)"
  by (simp_all add: newer_def)

lemma newer_Some [simp]: "newer ev best \<noteq> None"
  by (auto simp: newer_def split: option.splits)

text \<open>The loop returns the first of the newest events.\<close>

definition first_newest :: "event list \<Rightarrow> event \<Rightarrow> bool" where
  "first_newest evs e \<longleftrightarrow>
     (\<exists>us vs. evs = us @ e # vs \<and>
        list_all (\<lambda>x. ev_created_at x < ev_created_at e) us \<and>
        list_all (\<lambda>x. ev_created_at x \<le> ev_created_at e) vs)"

lemma first_newest_member: "first_newest evs e \<Longrightarrow> e \<in> set evs"
  by (auto simp: first_newest_def)

lemma first_newest_max: "first_newest evs e \<Longrightarrow> x \<in> set evs \<Longrightarrow> ev_created_at x \<le> ev_created_at e"
  by (auto simp: first_newest_def list_all_iff less_imp_le)

lemma first_newest_unique:
  assumes "first_newest evs e" and "first_newest evs e'"
  shows "e = e'"
proof -
  have same: "ev_created_at e = ev_created_at e'"
    using assms first_newest_max first_newest_member by (meson order_antisym)
  obtain us vs us' vs' where eqs: "evs = us @ e # vs" "evs = us' @ e' # vs'"
    and lt: "\<forall>x \<in> set us. ev_created_at x < ev_created_at e"
      "\<forall>x \<in> set us'. ev_created_at x < ev_created_at e'"
    using assms unfolding first_newest_def list_all_iff by blast
  then have "e \<notin> set us'" and "e' \<notin> set us" using same by force+
  then show ?thesis
    using eqs by (auto simp: append_eq_append_conv2 Cons_eq_append_conv append_eq_Cons_conv)
qed

lemma newest_first: "fold newer evs None = Some e \<Longrightarrow> first_newest evs e"
proof (induction evs arbitrary: e rule: rev_induct)
  case (snoc x evs)
  show ?case
  proof (cases "fold newer evs None")
    case None
    have "evs = []"
      using None by (cases evs rule: rev_cases) auto
    then have "evs @ [x] = [] @ e # []" using snoc.prems by (simp add: newer_def)
    then show ?thesis unfolding first_newest_def by fastforce
  next
    case (Some b)
    note b = snoc.IH [OF Some]
    show ?thesis
    proof (cases "ev_created_at x \<le> ev_created_at b")
      case True
      then have "e = b" using snoc.prems Some by (simp add: newer_simps)
      moreover obtain us vs where "evs = us @ b # vs"
        "list_all (\<lambda>y. ev_created_at y < ev_created_at b) us"
        "list_all (\<lambda>y. ev_created_at y \<le> ev_created_at b) vs"
        using b by (auto simp: first_newest_def)
      ultimately show ?thesis
        using True unfolding first_newest_def
        by (intro exI [of _ us] exI [of _ "vs @ [x]"]) simp
    next
      case False
      then have "e = x" using snoc.prems Some by (simp add: newer_simps)
      moreover have "list_all (\<lambda>y. ev_created_at y < ev_created_at x) evs"
        using False first_newest_max [OF b] by (fastforce simp: list_all_iff)
      ultimately show ?thesis
        unfolding first_newest_def by (intro exI [of _ evs] exI [of _ "[]"]) simp
    qed
  qed
qed simp

lemma newest_None: "fold newer evs None = None \<longleftrightarrow> evs = []"
  by (cases evs rule: rev_cases) auto

lemma newest_Some: "fold newer evs None = Some e \<longleftrightarrow> first_newest evs e"
proof
  assume e: "first_newest evs e"
  then have "evs \<noteq> []" by (auto simp: first_newest_def)
  then obtain e' where "fold newer evs None = Some e'"
    using newest_None by (cases "fold newer evs None") auto
  then show "fold newer evs None = Some e"
    using first_newest_unique [OF e] newest_first by metis
qed (rule newest_first)

text \<open>The loops that skip some hits are the plain loop on the hits they keep.\<close>

lemma fold_skip: "fold (\<lambda>x b. if P x then f x b else b) xs b = fold f (filter P xs) b"
  by (induction xs arbitrary: b) auto

lemma fold_option_skip:
  "fold (\<lambda>h b. case h of None \<Rightarrow> b | Some x \<Rightarrow> f x b) hs b = fold f (List.map_filter (\<lambda>h. h) hs) b"
  by (induction hs arbitrary: b) (auto simp: List.map_filter_simps split: option.splits)

end
