(* ===== verification/Releases.thy ===== *)
theory Releases
  imports Nostr
begin

section \<open>npack releases: the release part of \<^verbatim>\<open>npk.go\<close> and \<^verbatim>\<open>catalogue.go\<close>\<close>

text \<open>
  Which release of a package the gateway uses. \<open>NewestRelease\<close> asks the relays,
  \<open>cat_Newest\<close> (the method \<^verbatim>\<open>Catalogue.Newest\<close>) a snapshot of release and revocation
  events; \<open>LoadCatalogue\<close> reads the snapshot, with the outcome of the file read and the
  JSON decoder as arguments.

  A Go error is a value of \<open>npk_error\<close>; \<open>(nil, nil)\<close> is \<open>Inr None\<close>.
\<close>

datatype npk_error = NpkError string

definition KindRelease :: int where "KindRelease = 9900"
definition KindRevocation :: int where "KindRevocation = 9901"
definition NameRoot :: string where "NameRoot = ''root''"

record release =
  Publisher :: string
  Name :: string
  Version :: string
  SHA256 :: string
  EventID :: string

definition is_hex_char :: "char \<Rightarrow> bool" where
  "is_hex_char r \<longleftrightarrow>
     (CHR ''0'' \<le> r \<and> r \<le> CHR ''9'') \<or> (CHR ''a'' \<le> r \<and> r \<le> CHR ''f'') \<or>
     (CHR ''A'' \<le> r \<and> r \<le> CHR ''F'')"

definition isHex :: "string \<Rightarrow> bool" where
  "isHex s \<longleftrightarrow> list_all is_hex_char s"

definition isSHA256 :: "string \<Rightarrow> bool" where
  "isSHA256 s \<longleftrightarrow> length s = 64 \<and> isHex s"

text \<open>The value of the first \<open>name\<close> tag.\<close>

fun releaseName_tags :: "string list list \<Rightarrow> string" where
  "releaseName_tags [] = []"
| "releaseName_tags (t # ts) =
     (if length t \<ge> 2 \<and> t ! 0 = ''name'' then t ! 1 else releaseName_tags ts)"

definition releaseName :: "event \<Rightarrow> string" where
  "releaseName ev = releaseName_tags (ev_tags ev)"

definition release_tag :: "ext \<Rightarrow> string list \<Rightarrow> release \<Rightarrow> release" where
  "release_tag X t rel =
     (if length t < 2 then rel
      else if t ! 0 = ''name'' then rel\<lparr>Name := t ! 1\<rparr>
      else if t ! 0 = ''version'' then rel\<lparr>Version := t ! 1\<rparr>
      else if t ! 0 = ''x'' then
        (if length (t ! 1) = 64 \<and> isHex (t ! 1) then rel\<lparr>SHA256 := ToLower X (t ! 1)\<rparr> else rel)
      else rel)"

definition parseRelease :: "ext \<Rightarrow> event option \<Rightarrow> release option" where
  "parseRelease X event =
     (case event of
        None \<Rightarrow> None
      | Some ev \<Rightarrow>
          if ev_kind ev \<noteq> KindRelease then None
          else
            (let rel = fold (release_tag X) (ev_tags ev)
               \<lparr>Publisher = ev_pubkey ev, Name = [], Version = [], SHA256 = [], EventID = ev_id ev\<rparr>
             in if Name rel = [] \<or> Version rel = [] \<or> \<not> isSHA256 (SHA256 rel) then None
                else Some rel))"

definition ParseRelease :: "ext \<Rightarrow> event option \<Rightarrow> release option" where
  "ParseRelease X event = parseRelease X event"

subsection \<open>From the relays\<close>

definition revokes :: "string \<Rightarrow> event \<Rightarrow> bool" where
  "revokes i ev \<longleftrightarrow> list_ex (\<lambda>t. length t \<ge> 2 \<and> t ! 0 = ''e'' \<and> t ! 1 = i) (ev_tags ev)"

definition isRevoked :: "pool \<Rightarrow> string list \<Rightarrow> string \<Rightarrow> event \<Rightarrow> npk_error + bool" where
  "isRevoked P relays publisher rel_event =
     Inr (list_ex (\<lambda>hit. case hit of None \<Rightarrow> False | Some ev \<Rightarrow> revokes (ev_id rel_event) ev)
       (P relays (empty_filter\<lparr>f_kinds := [KindRevocation], f_authors := [publisher]\<rparr>)))"

definition release_hit :: "string \<Rightarrow> event option \<Rightarrow> event option \<Rightarrow> event option" where
  "release_hit name hit best =
     (case hit of
        None \<Rightarrow> best
      | Some ev \<Rightarrow> if releaseName ev \<noteq> name then best else newer ev best)"

definition NewestRelease ::
  "ext \<Rightarrow> pool \<Rightarrow> string list \<Rightarrow> string \<Rightarrow> string \<Rightarrow> npk_error + release option" where
  "NewestRelease X P relays publisher name =
     (if relays = [] then Inr None
      else
        (case fold (release_hit name)
                (P relays (empty_filter\<lparr>f_kinds := [KindRelease], f_authors := [publisher]\<rparr>)) None of
           None \<Rightarrow> Inr None
         | Some best \<Rightarrow>
             (case parseRelease X (Some best) of
                None \<Rightarrow> Inr None
              | Some rel \<Rightarrow>
                  (case isRevoked P relays publisher best of
                     Inl err \<Rightarrow> Inl err
                   | Inr revoked \<Rightarrow> if revoked then Inr None else Inr (Some rel)))))"

subsection \<open>From the catalogue\<close>

record catalogue =
  CreatedAt :: nat
  Releases :: "event list"
  Revocations :: "event list"

datatype read_outcome = NotExist | ReadError | Contents bytes

definition LoadCatalogue ::
  "(bytes \<Rightarrow> catalogue option) \<Rightarrow> read_outcome \<Rightarrow> npk_error + catalogue option" where
  "LoadCatalogue unmarshal out =
     (case out of
        NotExist \<Rightarrow> Inr None
      | ReadError \<Rightarrow> Inl (NpkError ''read'')
      | Contents body \<Rightarrow>
          (case unmarshal body of
             None \<Rightarrow> Inl (NpkError ''json'')
           | Some c \<Rightarrow> Inr (Some c)))"

definition revoked_ids :: "string \<Rightarrow> event list \<Rightarrow> string list" where
  "revoked_ids publisher revs =
     concat (map (\<lambda>rev.
       if ev_kind rev \<noteq> KindRevocation \<or> ev_pubkey rev \<noteq> publisher then []
       else map (\<lambda>t. t ! 1) (filter (\<lambda>t. length t \<ge> 2 \<and> t ! 0 = ''e'') (ev_tags rev))) revs)"

definition cat_release :: "string \<Rightarrow> string \<Rightarrow> event \<Rightarrow> event option \<Rightarrow> event option" where
  "cat_release publisher name ev best =
     (if ev_kind ev \<noteq> KindRelease \<or> ev_pubkey ev \<noteq> publisher \<or> releaseName ev \<noteq> name then best
      else newer ev best)"

definition cat_Newest :: "ext \<Rightarrow> catalogue option \<Rightarrow> string \<Rightarrow> string \<Rightarrow> release option" where
  "cat_Newest X c publisher name =
     (case c of
        None \<Rightarrow> None
      | Some c \<Rightarrow>
          (let revoked = revoked_ids publisher (Revocations c)
           in case fold (cat_release publisher name) (Releases c) None of
                None \<Rightarrow> None
              | Some best \<Rightarrow>
                  (case parseRelease X (Some best) of
                     None \<Rightarrow> None
                   | Some rel \<Rightarrow> if ev_id best \<in> set revoked then None else Some rel)))"

subsection \<open>Lemmas\<close>

lemma is_hex_char_byte:
  "is_hex_char c \<longleftrightarrow> (48 \<le> byte c \<and> byte c \<le> 57) \<or> (97 \<le> byte c \<and> byte c \<le> 102) \<or>
     (65 \<le> byte c \<and> byte c \<le> 70)"
  by (simp add: is_hex_char_def less_eq_char_def)

lemma lower_hex_char: "is_hex_char c \<Longrightarrow> is_hex_char (lower_byte c) \<and> is_ascii c \<and> \<not> is_upper (lower_byte c)"
  by (auto simp: is_hex_char_byte lower_byte_def is_upper_def is_ascii_def)

lemma isHex_ascii: "isHex s \<Longrightarrow> list_all is_ascii s"
  using lower_hex_char by (auto simp: isHex_def list_all_iff)

lemma isHex_ToLower: "isHex s \<Longrightarrow> ToLower X s = map lower_byte s"
  by (simp add: ToLower_ascii isHex_ascii)

lemma isSHA256_ToLower: "isSHA256 s \<Longrightarrow> isSHA256 (ToLower X s)"
  using lower_hex_char by (auto simp: isSHA256_def isHex_ToLower isHex_def list_all_iff)

lemma ToLower_idem: "isHex s \<Longrightarrow> ToLower X (ToLower X s) = ToLower X s"
  using lower_hex_char by (auto simp: isHex_ToLower isHex_def list_all_iff ToLower_def)

lemma lower_hex_hex: "lower_hex s \<longleftrightarrow> isHex s \<and> list_all (\<lambda>c. \<not> is_upper c) s"
proof -
  have "is_lower_digit 16 c \<longleftrightarrow> is_hex_char c \<and> \<not> is_upper c" for c
    by (auto simp: is_lower_digit_def digit_val_def is_hex_char_byte ascii_defs)
  then show ?thesis by (auto simp: isHex_def list_all_iff)
qed

lemma isSHA256_lower: "isSHA256 s \<Longrightarrow> hex64 (ToLower X s)"
  using lower_hex_char
  by (auto simp: isSHA256_def hex64_def lower_hex_hex isHex_ToLower)
    (auto simp: isHex_def list_all_iff)

lemma hex64_isSHA256: "hex64 s \<Longrightarrow> isSHA256 s"
  by (simp add: hex64_def isSHA256_def lower_hex_hex)

lemma hex64_ToLower: "hex64 s \<Longrightarrow> ToLower X s = s"
  by (auto simp: hex64_def lower_hex_hex isHex_ToLower)
    (auto simp: list_all_iff lower_byte_id intro: map_idI)

lemma release_tag_keeps:
  "Publisher (fold (release_tag X) ts rel) = Publisher rel"
  "EventID (fold (release_tag X) ts rel) = EventID rel"
  by (induction ts arbitrary: rel) (auto simp: release_tag_def)

lemma release_tag_sha:
  "SHA256 rel = [] \<or> hex64 (SHA256 rel) \<Longrightarrow>
     SHA256 (fold (release_tag X) ts rel) = [] \<or> hex64 (SHA256 (fold (release_tag X) ts rel))"
proof (induction ts arbitrary: rel)
  case (Cons t ts)
  have "SHA256 (release_tag X t rel) = [] \<or> hex64 (SHA256 (release_tag X t rel))"
    using Cons.prems by (simp add: release_tag_def isSHA256_lower isSHA256_def)
  then show ?case using Cons.IH by simp
qed simp

text \<open>What a release that was parsed is known to satisfy.\<close>

definition release_ok :: "release \<Rightarrow> bool" where
  "release_ok rel \<longleftrightarrow> Name rel \<noteq> [] \<and> Version rel \<noteq> [] \<and> hex64 (SHA256 rel)"

lemma parseRelease_ok:
  assumes "parseRelease X (Some ev) = Some rel"
  shows "release_ok rel" and "ev_kind ev = KindRelease" and "Publisher rel = ev_pubkey ev"
    and "EventID rel = ev_id ev"
proof -
  let ?r0 = "\<lparr>Publisher = ev_pubkey ev, Name = [], Version = [], SHA256 = [], EventID = ev_id ev\<rparr>"
  have k: "ev_kind ev = KindRelease" and rel: "rel = fold (release_tag X) (ev_tags ev) ?r0"
    and ne: "Name rel \<noteq> []" "Version rel \<noteq> []" and sha: "isSHA256 (SHA256 rel)"
    using assms by (auto simp: parseRelease_def Let_def split: if_splits)
  have "SHA256 rel = [] \<or> hex64 (SHA256 rel)"
    unfolding rel by (rule release_tag_sha) simp
  then show "release_ok rel" using ne sha by (auto simp: release_ok_def isSHA256_def)
  show "ev_kind ev = KindRelease" by (rule k)
  show "Publisher rel = ev_pubkey ev" "EventID rel = ev_id ev"
    unfolding rel by (simp_all add: release_tag_keeps)
qed

text \<open>Both loops take the newest of the release events of the package.\<close>

definition candidates :: "string \<Rightarrow> string \<Rightarrow> event list \<Rightarrow> event list" where
  "candidates publisher name evs =
     filter (\<lambda>ev. ev_kind ev = KindRelease \<and> ev_pubkey ev = publisher \<and> releaseName ev = name) evs"

lemma fold_cat_release:
  "fold (cat_release publisher name) evs b = fold newer (candidates publisher name evs) b"
  by (induction evs arbitrary: b) (auto simp: cat_release_def candidates_def)

definition hit_events :: "event option list \<Rightarrow> event list" where
  "hit_events hs = List.map_filter (\<lambda>h. h) hs"

lemma hit_events_simps [simp]:
  "hit_events [] = []"
  "hit_events (None # hs) = hit_events hs"
  "hit_events (Some e # hs) = e # hit_events hs"
  by (simp_all add: hit_events_def List.map_filter_simps)

lemma set_hit_events: "e \<in> set (hit_events hs) \<longleftrightarrow> Some e \<in> set hs"
proof (induction hs)
  case (Cons h hs)
  then show ?case by (cases h) auto
qed simp

lemma fold_release_hit:
  "fold (release_hit name) hs b = fold newer (filter (\<lambda>ev. releaseName ev = name) (hit_events hs)) b"
proof (induction hs arbitrary: b)
  case (Cons h hs)
  then show ?case by (cases h) (auto simp: release_hit_def)
qed simp

lemma revoked_ids_iff:
  "i \<in> set (revoked_ids publisher revs) \<longleftrightarrow>
     (\<exists>rev \<in> set revs. ev_kind rev = KindRevocation \<and> ev_pubkey rev = publisher \<and> revokes i rev)"
  by (auto simp: revoked_ids_def revokes_def list_ex_iff split: if_splits)

subsection \<open>Properties\<close>

definition revoked_by :: "string \<Rightarrow> event list \<Rightarrow> string \<Rightarrow> bool" where
  "revoked_by publisher revs i \<longleftrightarrow>
     list_ex (\<lambda>rev. ev_kind rev = KindRevocation \<and> ev_pubkey rev = publisher \<and> revokes i rev) revs"

lemma revoked_ids_by: "i \<in> set (revoked_ids publisher revs) \<longleftrightarrow> revoked_by publisher revs i"
  by (simp add: revoked_ids_iff revoked_by_def list_ex_iff)

lemma cat_Newest_unfold:
  "cat_Newest X (Some c) publisher name =
     (case fold newer (candidates publisher name (Releases c)) None of
        None \<Rightarrow> None
      | Some best \<Rightarrow>
          (case parseRelease X (Some best) of
             None \<Rightarrow> None
           | Some rel \<Rightarrow> if revoked_by publisher (Revocations c) (ev_id best) then None else Some rel))"
  by (auto simp: cat_Newest_def fold_cat_release revoked_ids_by split: option.splits)

lemma cat_Newest_iff:
  "cat_Newest X (Some c) publisher name = Some rel \<longleftrightarrow>
     (\<exists>best. first_newest (candidates publisher name (Releases c)) best \<and>
        parseRelease X (Some best) = Some rel \<and>
        \<not> revoked_by publisher (Revocations c) (ev_id best))"
  by (auto simp: cat_Newest_unfold newest_Some [symmetric] split: option.splits)

text \<open>C34: What \<^verbatim>\<open>Catalogue.Newest\<close> returns, exactly: the release parsed from the first of the
  newest kind-9900 events of the publisher and the package in the snapshot, provided that
  event parses as a release and no kind-9901 event of the same publisher revokes it. In
  every other case it returns nil.\<close>

theorem catalogue_newest_exact:
  "cat_Newest X (Some c) publisher name = Some rel \<longleftrightarrow>
     (\<exists>best. first_newest (candidates publisher name (Releases c)) best \<and>
        parseRelease X (Some best) = Some rel \<and>
        \<not> revoked_by publisher (Revocations c) (ev_id best))"
  by (rule cat_Newest_iff)

text \<open>The snapshot \<^verbatim>\<open>npack refresh\<close> would take of what the relays answer to the two queries
  of \<^verbatim>\<open>NewestRelease\<close>.\<close>

definition snapshot :: "pool \<Rightarrow> string list \<Rightarrow> string \<Rightarrow> nat \<Rightarrow> catalogue" where
  "snapshot P relays publisher t =
     \<lparr>CreatedAt = t,
      Releases = hit_events (P relays (empty_filter\<lparr>f_kinds := [KindRelease], f_authors := [publisher]\<rparr>)),
      Revocations =
        hit_events (P relays (empty_filter\<lparr>f_kinds := [KindRevocation], f_authors := [publisher]\<rparr>))\<rparr>"

lemma pool_kind_author:
  assumes "pool_ok P"
    and "ev \<in> set (hit_events (P relays (empty_filter\<lparr>f_kinds := [k], f_authors := [a]\<rparr>)))"
  shows "ev_kind ev = k \<and> ev_pubkey ev = a"
  using assms by (force simp: pool_ok_def set_hit_events matches_def empty_filter_def)

lemma isRevoked_snapshot:
  assumes "pool_ok P"
  shows "isRevoked P relays publisher ev =
    Inr (revoked_by publisher (Revocations (snapshot P relays publisher t)) (ev_id ev))"
proof -
  have "list_ex (\<lambda>hit. case hit of None \<Rightarrow> False | Some r \<Rightarrow> revokes i r) hs =
      list_ex (revokes i) (hit_events hs)" for hs and i :: string
  proof (induction hs)
    case (Cons h hs)
    then show ?case by (cases h) auto
  qed simp
  then show ?thesis
    using pool_kind_author [OF assms]
    by (auto simp: isRevoked_def revoked_by_def snapshot_def list_ex_iff)
qed

lemma candidates_snapshot:
  assumes "pool_ok P"
  shows "candidates publisher name (Releases (snapshot P relays publisher t)) =
    filter (\<lambda>ev. releaseName ev = name) (Releases (snapshot P relays publisher t))"
  unfolding candidates_def using pool_kind_author [OF assms]
  by (intro filter_cong) (auto simp: snapshot_def)

lemma NewestRelease_snapshot:
  assumes "pool_ok P" and "relays \<noteq> []"
  shows "NewestRelease X P relays publisher name =
    Inr (cat_Newest X (Some (snapshot P relays publisher t)) publisher name)"
proof -
  have "fold (release_hit name)
      (P relays (empty_filter\<lparr>f_kinds := [KindRelease], f_authors := [publisher]\<rparr>)) None =
    fold newer (candidates publisher name (Releases (snapshot P relays publisher t))) None"
    unfolding candidates_snapshot [OF assms(1)] by (simp add: fold_release_hit snapshot_def)
  then show ?thesis
    using assms(2)
    by (simp add: NewestRelease_def cat_Newest_unfold isRevoked_snapshot [OF assms(1), of _ _ _ t]
        split: option.splits)
qed

text \<open>C35: The catalogue is a cheaper source of the same answer: on a snapshot of what the
  relays answer, \<^verbatim>\<open>Catalogue.Newest\<close> returns what \<^verbatim>\<open>NewestRelease\<close> returns, and
  \<^verbatim>\<open>NewestRelease\<close> returns no error.\<close>

theorem catalogue_mirrors_relays:
  assumes "pool_ok P" and "relays \<noteq> []"
  shows "NewestRelease X P relays publisher name =
    Inr (cat_Newest X (Some (snapshot P relays publisher t)) publisher name)"
  by (rule NewestRelease_snapshot [OF assms])

text \<open>A signed release and its revocation.\<close>

definition sample_pk :: string where
  "sample_pk = replicate 64 (CHR ''0'')"

definition sample_release_event :: event where
  "sample_release_event =
     \<lparr>ev_id = ''rel1'', ev_pubkey = sample_pk, ev_created_at = 5, ev_kind = 9900,
      ev_tags = [[''name'', ''root''], [''version'', ''1''], [''x'', replicate 64 (CHR ''A'')]],
      ev_content = [], ev_sig = []\<rparr>"

definition sample_release :: release where
  "sample_release =
     \<lparr>Publisher = sample_pk, Name = ''root'', Version = ''1'',
      SHA256 = replicate 64 (CHR ''a''), EventID = ''rel1''\<rparr>"

lemma lower_A: "lower_byte (CHR ''A'') = CHR ''a''"
  by (simp add: lower_byte_def is_upper_def char_of_def bit_0)

lemma sample_release_tags:
  "isHex (replicate 64 (CHR ''A''))" "isSHA256 (replicate 64 (CHR ''a''))"
  "ToLower X (replicate 64 (CHR ''A'')) = replicate 64 (CHR ''a'')"
  by (simp_all add: isHex_def isSHA256_def is_hex_char_byte ToLower_def is_ascii_def lower_A
      list_all_iff del: replicate_Suc)

lemma sample_parse: "parseRelease X (Some sample_release_event) = Some sample_release"
  by (simp add: parseRelease_def sample_release_event_def sample_release_def KindRelease_def
      release_tag_def sample_release_tags)

lemma sample_newest:
  "NewestRelease X (relay_of [sample_release_event]) [''wss://r''] sample_pk ''root'' =
     Inr (Some sample_release)"
  by (simp add: NewestRelease_def relay_of_def release_hit_def newer_simps sample_parse isRevoked_def
      matches_def empty_filter_def KindRelease_def KindRevocation_def releaseName_def
      sample_release_event_def [THEN arg_cong, of ev_kind, simplified]
      sample_release_event_def [THEN arg_cong, of ev_pubkey, simplified]
      sample_release_event_def [THEN arg_cong, of ev_tags, simplified])

theorem catalogue_mirrors_relays_witness:
  "cat_Newest sample_ext
     (Some (snapshot (relay_of [sample_release_event]) [''wss://r''] sample_pk 7)) sample_pk ''root'' =
   Some sample_release"
  using catalogue_mirrors_relays [OF relay_of_ok, of "[''wss://r'']" sample_ext
      "[sample_release_event]" "sample_pk" "''root''" 7]
  by (simp add: sample_newest)

lemma NewestRelease_Some:
  assumes "pool_ok P" and "NewestRelease X P relays publisher name = Inr (Some rel)"
  obtains best where
    "first_newest (candidates publisher name (Releases (snapshot P relays publisher t))) best"
    "parseRelease X (Some best) = Some rel"
    "\<not> revoked_by publisher (Revocations (snapshot P relays publisher t)) (ev_id best)"
proof -
  have "relays \<noteq> []" using assms(2) by (auto simp: NewestRelease_def)
  then show thesis
    using assms(2) that by (auto simp: NewestRelease_snapshot [OF assms(1), of _ _ _ _ t] cat_Newest_iff)
qed

lemma newest_release_ok:
  assumes "pool_ok P" and "NewestRelease X P relays publisher name = Inr (Some rel)"
  shows "release_ok rel \<and> Publisher rel = publisher"
proof -
  obtain best where
    "first_newest (candidates publisher name (Releases (snapshot P relays publisher 0))) best"
    and p: "parseRelease X (Some best) = Some rel"
    using NewestRelease_Some [OF assms, of 0] by metis
  then have "ev_pubkey best = publisher"
    using first_newest_member by (force simp: candidates_def)
  then show ?thesis using parseRelease_ok [OF p] by simp
qed

lemma cat_newest_ok:
  assumes "cat_Newest X c publisher name = Some rel"
  shows "release_ok rel \<and> Publisher rel = publisher"
proof -
  obtain c' where c: "c = Some c'" using assms by (cases c) (auto simp: cat_Newest_def)
  obtain best where "first_newest (candidates publisher name (Releases c')) best"
    and p: "parseRelease X (Some best) = Some rel"
    using assms by (auto simp: c cat_Newest_iff)
  then have "ev_pubkey best = publisher"
    using first_newest_member by (force simp: candidates_def)
  then show ?thesis using parseRelease_ok [OF p] by simp
qed

text \<open>Where a release comes from: a release event of the publisher that is selected by that name.\<close>

definition release_from :: "ext \<Rightarrow> string \<Rightarrow> string \<Rightarrow> release \<Rightarrow> bool" where
  "release_from X publisher name rel \<longleftrightarrow>
     (\<exists>ev. ev_kind ev = KindRelease \<and> ev_pubkey ev = publisher \<and> releaseName ev = name \<and>
        parseRelease X (Some ev) = Some rel)"

lemma release_from_candidate:
  "first_newest (candidates publisher name evs) best \<Longrightarrow> parseRelease X (Some best) = Some rel \<Longrightarrow>
     release_from X publisher name rel"
  using first_newest_member [of "candidates publisher name evs" best]
  by (auto simp: candidates_def release_from_def)

lemma newest_release_from:
  assumes "pool_ok P" and "NewestRelease X P relays publisher name = Inr (Some rel)"
  shows "release_from X publisher name rel"
  using NewestRelease_Some [OF assms, of 0] release_from_candidate by metis

lemma cat_newest_from:
  "cat_Newest X c publisher name = Some rel \<Longrightarrow> release_from X publisher name rel"
  by (cases c) (auto simp: cat_Newest_def [of X None] cat_Newest_iff intro: release_from_candidate)

text \<open>A release found on the relays has the asked publisher, a name, a version and an
  artifact digest of 64 lowercase hexadecimal characters; no release event of the package
  that the relays delivered is newer, and none of the publisher's delivered revocations
  names it.\<close>

lemma newest_release_sound:
  assumes "pool_ok P" and "NewestRelease X P relays publisher name = Inr (Some rel)"
  shows "release_ok rel \<and> Publisher rel = publisher \<and>
    (\<exists>best. parseRelease X (Some best) = Some rel \<and>
       first_newest (candidates publisher name (Releases (snapshot P relays publisher t))) best \<and>
       \<not> revoked_by publisher (Revocations (snapshot P relays publisher t)) (ev_id best))"
  using newest_release_ok [OF assms] NewestRelease_Some [OF assms, of t] by metis

lemma newest_release_sound_witness:
  "release_ok sample_release"
  using newest_release_sound [OF relay_of_ok sample_newest, of sample_ext 0] by simp

subsection \<open>What the newest-first choice does not do\<close>

text \<open>The newest event is chosen before it is parsed, so a newer event that is no valid release
  hides an older one that is.\<close>

definition broken_release_event :: event where
  "broken_release_event = sample_release_event\<lparr>ev_id := ''rel2'', ev_created_at := 9,
     ev_tags := [[''name'', ''root'']]\<rparr>"

lemma broken_hides_valid:
  "cat_Newest X (Some \<lparr>CreatedAt = 0, Releases = [sample_release_event], Revocations = []\<rparr>)
     sample_pk ''root'' = Some sample_release"
  "cat_Newest X (Some \<lparr>CreatedAt = 0, Releases = [sample_release_event, broken_release_event],
     Revocations = []\<rparr>) sample_pk ''root'' = None"
proof -
  have "candidates sample_pk ''root'' [sample_release_event, broken_release_event] =
      [sample_release_event, broken_release_event]"
    by (simp add: candidates_def sample_release_event_def broken_release_event_def KindRelease_def
        releaseName_def)
  moreover have "candidates sample_pk ''root'' [sample_release_event] = [sample_release_event]"
    by (simp add: candidates_def sample_release_event_def KindRelease_def releaseName_def)
  moreover have "ev_created_at broken_release_event = 9" "ev_created_at sample_release_event = 5"
    by (simp_all add: sample_release_event_def broken_release_event_def)
  moreover have "parseRelease X (Some broken_release_event) = None"
    by (simp add: parseRelease_def broken_release_event_def sample_release_event_def KindRelease_def
        release_tag_def)
  ultimately show "cat_Newest X (Some \<lparr>CreatedAt = 0, Releases = [sample_release_event], Revocations = []\<rparr>)
     sample_pk ''root'' = Some sample_release"
    and "cat_Newest X (Some \<lparr>CreatedAt = 0, Releases = [sample_release_event, broken_release_event],
     Revocations = []\<rparr>) sample_pk ''root'' = None"
    by (simp_all add: cat_Newest_unfold newer_simps sample_parse revoked_by_def)
qed

text \<open>The event is selected by its first \<open>name\<close> tag and its release named by the last one.\<close>

lemma name_tags_disagree:
  "releaseName (sample_release_event\<lparr>ev_tags := ev_tags sample_release_event @ [[''name'', ''other'']]\<rparr>) =
     ''root''"
  "map_option Name (parseRelease X (Some (sample_release_event\<lparr>ev_tags :=
     ev_tags sample_release_event @ [[''name'', ''other'']]\<rparr>))) = Some ''other''"
  by (simp_all add: parseRelease_def releaseName_def sample_release_event_def KindRelease_def
      release_tag_def sample_release_tags)

end
