(* ===== verification/FileSystem.thy ===== *)
theory FileSystem
  imports GoPath Codec "HOL-Library.Word"
begin

section \<open>The file operations of \<^verbatim>\<open>os\<close> the bundle store uses\<close>

text \<open>
  A file system is a map from path strings to directories and files with their permission bits
  and contents. The program uses lexically cleaned paths and creates no links, so one file has
  one path; it is the owner of the files, so of their bits those of the owner count, and for the
  superuser not even those.

  What the operating system decides is a record \<open>os\<close>: the working directory, and for each
  operation a function that says whether it fails on a path in a given file system. An
  operation that fails part-way leaves what a real one would: \<open>RemoveAll\<close> some of the
  entries, \<open>MkdirAll\<close> the parents it already made, a write a prefix of the data.
  The root and the working directory (\<open>/\<close> and \<open>.\<close>) always exist.
\<close>

unbundle bit_operations_syntax

type_synonym file_mode = "32 word"

datatype fnode = FDir | FFile file_mode bytes

type_synonym fsys = "string \<Rightarrow> fnode option"
type_synonym 'a fault = "string \<Rightarrow> fsys \<Rightarrow> 'a"

record os =
  os_cwd :: "string option"
  os_mkdir :: "bool fault"
  os_remove :: "(string \<Rightarrow> bool) option fault"
  os_create :: "bool fault"
  os_write :: "nat option fault"
  os_close :: "bool fault"
  os_rename :: "bool fault"
  os_read :: "bool fault"
  os_umask :: file_mode
  os_superuser :: bool

text \<open>An operating system on which nothing fails, for an ordinary user with the usual mask.\<close>

definition reliable_os :: os where
  "reliable_os =
     \<lparr>os_cwd = Some slash, os_mkdir = (\<lambda>_ _. False), os_remove = (\<lambda>_ _. None),
      os_create = (\<lambda>_ _. False), os_write = (\<lambda>_ _. None), os_close = (\<lambda>_ _. False),
      os_rename = (\<lambda>_ _. False), os_read = (\<lambda>_ _. False), os_umask = 0x12, os_superuser = False\<rparr>"

datatype os_error = OsError string

definition is_dir :: "fsys \<Rightarrow> string \<Rightarrow> bool" where
  "is_dir fs p \<longleftrightarrow> p = slash \<or> p = ''.'' \<or> fs p = Some FDir"

text \<open>A path is under another when it is the other or below it.\<close>

definition under :: "string \<Rightarrow> string \<Rightarrow> bool" where
  "under p q \<longleftrightarrow> q = p \<or> HasPrefix q (p @ slash)"

definition RemoveAll :: "os \<Rightarrow> string \<Rightarrow> fsys \<Rightarrow> fsys \<times> (os_error + unit)" where
  "RemoveAll E p fs =
     (case os_remove E p fs of
        None \<Rightarrow> (\<lambda>q. if under p q then None else fs q, Inr ())
      | Some keep \<Rightarrow>
          (\<lambda>q. if under p q \<and> \<not> keep q then None else fs q, Inl (OsError ''remove'')))"

function MkdirAll :: "os \<Rightarrow> string \<Rightarrow> fsys \<Rightarrow> fsys \<times> (os_error + unit)" where
  "MkdirAll E p fs =
     (if is_dir fs p then (fs, Inr ())
      else if fs p \<noteq> None then (fs, Inl (OsError ''not a directory''))
      else
        (case (if length (PathDir p) < length p then MkdirAll E (PathDir p) fs else (fs, Inr ())) of
           (fs1, Inl e) \<Rightarrow> (fs1, Inl e)
         | (fs1, Inr _) \<Rightarrow>
             if os_mkdir E p fs1 then (fs1, Inl (OsError ''mkdir''))
             else (fs1(p \<mapsto> FDir), Inr ())))"
  by pat_completeness auto
termination
  by (relation "measure (\<lambda>(E, p, fs). length p)") auto

declare MkdirAll.simps [simp del]

text \<open>Bits 8 and 7 let the owner read and write. A file that is created gets the mode of the call less
  the mask; opening an existing one leaves its mode.\<close>

definition may_read :: "os \<Rightarrow> file_mode \<Rightarrow> bool" where
  "may_read E m \<longleftrightarrow> os_superuser E \<or> bit m 8"

definition may_write :: "os \<Rightarrow> file_mode \<Rightarrow> bool" where
  "may_write E m \<longleftrightarrow> os_superuser E \<or> bit m 7"

definition open_refused :: "os \<Rightarrow> fnode option \<Rightarrow> bool" where
  "open_refused E old = (case old of Some (FFile m _) \<Rightarrow> \<not> may_write E m | _ \<Rightarrow> False)"

definition written_mode :: "file_mode \<Rightarrow> file_mode \<Rightarrow> fnode option \<Rightarrow> file_mode" where
  "written_mode umask perm old = (case old of Some (FFile m _) \<Rightarrow> m | _ \<Rightarrow> perm AND NOT umask)"

text \<open>\<open>OpenFile\<close> with \<^verbatim>\<open>O_CREATE|O_TRUNC|O_WRONLY\<close> and the mode \<open>perm\<close>, \<open>io.Copy\<close> from a reader that delivers
  \<open>body\<close> and then ends or fails (\<open>short\<close>), and \<open>Close\<close>.\<close>

definition WriteFile ::
  "os \<Rightarrow> string \<Rightarrow> file_mode \<Rightarrow> bytes \<Rightarrow> bool \<Rightarrow> fsys \<Rightarrow> fsys \<times> (os_error + unit)" where
  "WriteFile E p perm body short fs =
     (if is_dir fs p \<or> \<not> is_dir fs (PathDir p) \<or> open_refused E (fs p) \<or> os_create E p fs
      then (fs, Inl (OsError ''open''))
      else
        (let m = written_mode (os_umask E) perm (fs p)
         in case os_write E p fs of
              Some k \<Rightarrow> (fs(p \<mapsto> FFile m (take k body)), Inl (OsError ''write''))
            | None \<Rightarrow>
                if short then (fs(p \<mapsto> FFile m body), Inl (OsError ''read''))
                else if os_close E p fs then (fs(p \<mapsto> FFile m body), Inl (OsError ''close''))
                else (fs(p \<mapsto> FFile m body), Inr ())))"

text \<open>\<open>Rename\<close> moves a file or a directory with all that is below it; a directory is not
  moved over an existing entry, nor below itself.\<close>

definition move :: "string \<Rightarrow> string \<Rightarrow> fsys \<Rightarrow> fsys" where
  "move old new fs =
     (\<lambda>q. if under new q then fs (old @ drop (length new) q)
          else if under old q then None else fs q)"

definition Rename :: "os \<Rightarrow> string \<Rightarrow> string \<Rightarrow> fsys \<Rightarrow> fsys \<times> (os_error + unit)" where
  "Rename E old new fs =
     (if fs old = None \<or> fs new = Some FDir \<or> (fs old = Some FDir \<and> fs new \<noteq> None) \<or>
         under old new \<or> os_rename E new fs
      then (fs, Inl (OsError ''rename''))
      else (move old new fs, Inr ()))"

definition ReadFile :: "os \<Rightarrow> string \<Rightarrow> fsys \<Rightarrow> os_error + bytes" where
  "ReadFile E p fs =
     (case fs p of
        Some (FFile m b) \<Rightarrow>
          if \<not> may_read E m then Inl (OsError ''open'')
          else if os_read E p fs then Inl (OsError ''read'') else Inr b
      | _ \<Rightarrow> Inl (OsError ''open''))"

subsection \<open>Lemmas\<close>

lemma under_refl [simp]: "under p p"
  by (simp add: under_def)

lemma under_abs_path:
  assumes "normal xs" and "xs \<noteq> []" and "normal zs"
  shows "under (abs_path xs) (abs_path zs) \<longleftrightarrow> (\<exists>ys. zs = xs @ ys)"
  unfolding under_def abs_path_below [OF assms]
proof
  show "abs_path zs = abs_path xs \<or> (\<exists>ys. ys \<noteq> [] \<and> zs = xs @ ys) \<Longrightarrow> \<exists>ys. zs = xs @ ys"
    using abs_path_inj [OF assms(3) assms(1)] by auto
  show "\<exists>ys. zs = xs @ ys \<Longrightarrow> abs_path zs = abs_path xs \<or> (\<exists>ys. ys \<noteq> [] \<and> zs = xs @ ys)"
    by auto
qed

lemma is_dir_abs_path: "normal zs \<Longrightarrow> is_dir fs (abs_path zs) \<longleftrightarrow> zs = [] \<or> fs (abs_path zs) = Some FDir"
  using abs_path_inj [of zs "[]"] by (auto simp: is_dir_def abs_path_def)

lemma PathDir_abs_path:
  assumes "normal (zs @ [z])"
  shows "PathDir (abs_path (zs @ [z])) = abs_path zs"
proof (cases "zs = []")
  case True
  have "CHR ''/'' \<notin> set z" using assms by (simp add: normal_seg_def)
  then have "LastIndexByte ([] @ CHR ''/'' # z) (CHR ''/'') = Some (length ([] :: string))"
    by (rule LastIndexByte_append)
  then show ?thesis using True
    by (simp add: PathDir_def abs_path_def) (simp add: Clean_def IsAbs_def Split_byte_Cons)
next
  case False
  have z: "CHR ''/'' \<notin> set z" using assms by (simp add: normal_seg_def)
  have eq: "abs_path (zs @ [z]) = abs_path zs @ CHR ''/'' # z"
    using False by (simp add: abs_path_def Join_append)
  have "PathDir (abs_path (zs @ [z])) = Clean (abs_path zs @ slash)"
    unfolding PathDir_def eq LastIndexByte_append [OF z] by simp
  also have "\<dots> = abs_path zs"
  proof -
    have "abs_path zs @ slash = CHR ''/'' # Join (zs @ [[]]) slash"
      using False by (simp add: abs_path_def Join_append)
    moreover have "\<forall>x \<in> set (zs @ [[]]). CHR ''/'' \<notin> set x"
      using normal_no_slash assms by auto
    ultimately have "Split (abs_path zs @ slash) slash = [] # zs @ [[]]"
      using Split_Join [of "zs @ [[]]" "CHR ''/''"] by (simp add: Split_byte_Cons)
    moreover have "clean_segs True [] ([] # zs @ [[]]) = zs"
      using clean_segs_normal [of zs True "[]" "[[]]"] assms by simp
    ultimately show ?thesis by (simp add: Clean_def IsAbs_def abs_path_Cons)
  qed
  finally show ?thesis .
qed

lemma abs_path_length: "length (abs_path zs) < length (abs_path (zs @ [z])) \<longleftrightarrow> zs \<noteq> [] \<or> z \<noteq> []"
  by (cases "zs = []") (auto simp: abs_path_def Join_append)

text \<open>\<open>MkdirAll\<close> on a normal absolute path only makes directories where nothing was, on the
  path itself and its parents; when it succeeds, the path is a directory.\<close>

lemma MkdirAll_step:
  assumes "normal (zs @ [z])"
  shows "MkdirAll E (abs_path (zs @ [z])) fs =
    (if fs (abs_path (zs @ [z])) = Some FDir then (fs, Inr ())
     else if fs (abs_path (zs @ [z])) \<noteq> None then (fs, Inl (OsError ''not a directory''))
     else (case MkdirAll E (abs_path zs) fs of
         (fs1, Inl e) \<Rightarrow> (fs1, Inl e)
       | (fs1, Inr _) \<Rightarrow>
           if os_mkdir E (abs_path (zs @ [z])) fs1 then (fs1, Inl (OsError ''mkdir''))
           else (fs1(abs_path (zs @ [z]) \<mapsto> FDir), Inr ())))"
proof -
  have "z \<noteq> []" using assms by (simp add: normal_seg_def)
  then show ?thesis
    by (subst MkdirAll.simps)
      (simp add: PathDir_abs_path [OF assms] abs_path_length is_dir_abs_path [OF assms])
qed

lemma MkdirAll_root: "MkdirAll E (abs_path []) fs = (fs, Inr ())"
  by (subst MkdirAll.simps) (simp add: is_dir_def abs_path_def)

lemma MkdirAll_frame:
  assumes "normal zs" and "MkdirAll E (abs_path zs) fs = (fs', r)" and "fs' q \<noteq> fs q"
  shows "fs q = None \<and> fs' q = Some FDir \<and> (\<exists>us vs. us \<noteq> [] \<and> zs = us @ vs \<and> q = abs_path us)"
  using assms
proof (induction zs arbitrary: fs' r rule: rev_induct)
  case Nil
  then show ?case by (simp add: MkdirAll_root)
next
  case (snoc z zs)
  obtain fs1 r1 where m: "MkdirAll E (abs_path zs) fs = (fs1, r1)" by force
  have n: "normal zs" using snoc.prems(1) by simp
  have IH: "fs1 q \<noteq> fs q \<Longrightarrow>
      fs q = None \<and> fs1 q = Some FDir \<and> (\<exists>us vs. us \<noteq> [] \<and> zs = us @ vs \<and> q = abs_path us)"
    by (rule snoc.IH [OF n m])
  then have grow: "fs1 q \<noteq> fs q \<Longrightarrow> fs q = None \<and> fs1 q = Some FDir \<and>
      (\<exists>us vs. us \<noteq> [] \<and> zs @ [z] = us @ vs \<and> q = abs_path us)"
    by fastforce
  consider "fs' = fs" | "fs' = fs1"
    | "fs (abs_path (zs @ [z])) = None" "fs' = fs1(abs_path (zs @ [z]) \<mapsto> FDir)"
    using snoc.prems(2) unfolding MkdirAll_step [OF snoc.prems(1)] m
    by (auto split: if_splits sum.splits)
  then show ?case
  proof cases
    case 3
    show ?thesis
    proof (cases "q = abs_path (zs @ [z])")
      case True
      then show ?thesis
        using 3 by (intro conjI exI [of _ "zs @ [z]"] exI [of _ "[]"]) simp_all
    next
      case False
      then show ?thesis using 3 snoc.prems(3) grow by simp
    qed
  qed (use snoc.prems(3) grow in auto)
qed

lemma MkdirAll_dir:
  assumes "normal zs" and "MkdirAll E (abs_path zs) fs = (fs', Inr u)"
  shows "is_dir fs' (abs_path zs)"
proof (cases zs rule: rev_cases)
  case Nil
  then show ?thesis by (simp add: is_dir_def abs_path_def)
next
  case (snoc ys z)
  then show ?thesis
    using assms MkdirAll_step [of ys z E fs]
    by (auto simp: is_dir_def split: if_splits sum.splits prod.splits)
qed

text \<open>The directories from the root down to a path exist.\<close>

definition dirs_ok :: "string list \<Rightarrow> fsys \<Rightarrow> bool" where
  "dirs_ok zs fs \<longleftrightarrow> (\<forall>us vs. us \<noteq> [] \<and> zs = us @ vs \<longrightarrow> fs (abs_path us) = Some FDir)"

lemma dirs_okD: "dirs_ok (us @ vs) fs \<Longrightarrow> us \<noteq> [] \<Longrightarrow> fs (abs_path us) = Some FDir"
  by (auto simp: dirs_ok_def)

lemma dirs_ok_eq: "dirs_ok zs fs \<Longrightarrow> (\<And>us vs. us \<noteq> [] \<Longrightarrow> zs = us @ vs \<Longrightarrow>
  fs (abs_path us) = Some FDir \<Longrightarrow> fs' (abs_path us) = Some FDir) \<Longrightarrow> dirs_ok zs fs'"
  by (simp add: dirs_ok_def)

lemma dirs_ok_Nil [simp]: "dirs_ok [] fs"
  by (simp add: dirs_ok_def)

lemma dirs_ok_snoc: "dirs_ok (zs @ [z]) fs \<longleftrightarrow> dirs_ok zs fs \<and> fs (abs_path (zs @ [z])) = Some FDir"
proof
  assume "dirs_ok (zs @ [z]) fs"
  then show "dirs_ok zs fs \<and> fs (abs_path (zs @ [z])) = Some FDir"
    using dirs_okD [of "zs @ [z]" "[]" fs] by (simp add: dirs_ok_def)
next
  assume a: "dirs_ok zs fs \<and> fs (abs_path (zs @ [z])) = Some FDir"
  show "dirs_ok (zs @ [z]) fs"
    unfolding dirs_ok_def
  proof (intro allI impI)
    fix us vs assume "us \<noteq> [] \<and> zs @ [z] = us @ vs"
    then show "fs (abs_path us) = Some FDir"
      using a by (cases vs rule: rev_cases) (auto simp: dirs_ok_def)
  qed
qed

lemma dirs_ok_is_dir: "normal zs \<Longrightarrow> dirs_ok zs fs \<Longrightarrow> is_dir fs (abs_path zs)"
  using dirs_okD [of zs "[]" fs] by (cases "zs = []") (auto simp: is_dir_def abs_path_def)

lemma MkdirAll_dirs_ok:
  assumes "normal zs" and "dirs_ok zs fs"
  shows "MkdirAll E (abs_path zs) fs = (fs, Inr ())"
  by (subst MkdirAll.simps) (simp add: dirs_ok_is_dir [OF assms])

text \<open>On the way to a path, what exists has a directory for a parent. Then a successful \<open>MkdirAll\<close> leaves
  directories all the way.\<close>

definition tree_ok :: "string list \<Rightarrow> fsys \<Rightarrow> bool" where
  "tree_ok zs fs \<longleftrightarrow>
     (\<forall>us x vs. zs = us @ x # vs \<and> us \<noteq> [] \<and> fs (abs_path (us @ [x])) \<noteq> None \<longrightarrow> fs (abs_path us) = Some FDir)"

lemma tree_ok_snoc:
  "tree_ok (zs @ [z]) fs \<Longrightarrow> tree_ok zs fs \<and> (zs = [] \<or> fs (abs_path (zs @ [z])) = None \<or> fs (abs_path zs) = Some FDir)"
  unfolding tree_ok_def by (metis append.assoc append_Cons append_Nil)

lemma tree_ok_dirs: "tree_ok zs fs \<Longrightarrow> zs = [] \<or> fs (abs_path zs) = Some FDir \<Longrightarrow> dirs_ok zs fs"
proof (induction zs rule: rev_induct)
  case (snoc z zs)
  then show ?case using tree_ok_snoc [OF snoc.prems(1)] by (auto simp: dirs_ok_snoc)
qed simp

lemma MkdirAll_creates:
  assumes "normal zs" and "tree_ok zs fs" and "MkdirAll E (abs_path zs) fs = (fs', Inr u)"
  shows "dirs_ok zs fs'"
  using assms
proof (induction zs arbitrary: fs' u rule: rev_induct)
  case (snoc z zs)
  note step = MkdirAll_step [OF snoc.prems(1), of E fs]
  show ?case
  proof (cases "fs (abs_path (zs @ [z])) = Some FDir")
    case True
    then have "fs' = fs" using snoc.prems(3) step by simp
    then show ?thesis using tree_ok_dirs [OF snoc.prems(2)] True by simp
  next
    case False
    then obtain fs1 v where sub: "MkdirAll E (abs_path zs) fs = (fs1, Inr v)"
      and fs': "fs' = fs1(abs_path (zs @ [z]) \<mapsto> FDir)"
      using snoc.prems(3) step by (auto split: if_splits prod.splits sum.splits)
    have "dirs_ok zs fs1"
      using snoc.IH [OF _ _ sub] snoc.prems(1,2) tree_ok_snoc by simp
    then have "dirs_ok zs fs'" by (rule dirs_ok_eq) (simp add: fs')
    moreover have "fs' (abs_path (zs @ [z])) = Some FDir" by (simp add: fs')
    ultimately show ?thesis by (simp only: dirs_ok_snoc)
  qed
qed simp

text \<open>Below an existing root, \<open>MkdirAll\<close> and \<open>WriteFile\<close> touch nothing but entries strictly
  below the root.\<close>

lemma MkdirAll_below:
  assumes "normal (rs @ xs)" and "dirs_ok rs fs" and "MkdirAll E (abs_path (rs @ xs)) fs = (fs', r)"
    and "fs' q \<noteq> fs q"
  shows "fs q = None \<and> fs' q = Some FDir \<and> (\<exists>ys. ys \<noteq> [] \<and> normal ys \<and> q = abs_path (rs @ ys))"
proof -
  obtain us vs where us: "us \<noteq> []" "rs @ xs = us @ vs" "q = abs_path us"
    and new: "fs q = None" "fs' q = Some FDir"
    using MkdirAll_frame [OF assms(1,3,4)] by blast
  have "\<exists>ys. ys \<noteq> [] \<and> us = rs @ ys"
  proof (rule ccontr)
    assume "\<nexists>ys. ys \<noteq> [] \<and> us = rs @ ys"
    then obtain ws where "rs = us @ ws"
      using us(2) unfolding append_eq_append_conv2 by (metis append_Nil2)
    then show False using dirs_okD [of us ws fs] assms(2) us new by simp
  qed
  then obtain ys where ys: "ys \<noteq> []" "us = rs @ ys" by blast
  have "normal us" using assms(1) us(2) by (metis list_all_append)
  then have "normal ys" using ys by simp
  then show ?thesis using new us ys by auto
qed

lemma WriteFile_frame:
  assumes "WriteFile E p perm body short fs = (fs', r)" and "fs' q \<noteq> fs q"
  shows "q = p \<and> \<not> is_dir fs p \<and> (\<exists>m b. fs' q = Some (FFile m b))"
  using assms by (auto simp: WriteFile_def Let_def split: if_splits option.splits)

lemma WriteFile_ok:
  "WriteFile E p perm body short fs = (fs', Inr u) \<Longrightarrow>
     \<not> is_dir fs p \<and> \<not> short \<and> fs' = fs(p \<mapsto> FFile (written_mode (os_umask E) perm (fs p)) body)"
  by (auto simp: WriteFile_def Let_def split: if_splits option.splits)

lemma move_below:
  assumes "normal (as @ ys)" and "as \<noteq> []" and "bs \<noteq> []"
  shows "move (abs_path bs) (abs_path as) fs (abs_path (as @ ys)) = fs (abs_path (bs @ ys))"
proof -
  have n: "normal as" using assms(1) by simp
  have "under (abs_path as) (abs_path (as @ ys))"
    using under_abs_path [OF n assms(2,1)] by blast
  moreover have "abs_path bs @ drop (length (abs_path as)) (abs_path (as @ ys)) = abs_path (bs @ ys)"
    using assms(2,3) by (cases "ys = []") (simp_all add: abs_path_def Join_append)
  ultimately show ?thesis by (simp add: move_def)
qed

end
