(* ===== verification/Bundle.thy ===== *)
theory Bundle
  imports Releases FileSystem Contracts
begin

section \<open>The npk bundle store: the archive part of \<^verbatim>\<open>npk.go\<close>\<close>

text \<open>
  \<open>Unpack\<close> checks the digest of an archive, extracts it into a scratch directory and renames
  that to the bundle's directory; \<open>bd_Open\<close> (the method \<^verbatim>\<open>BundleStore.Open\<close>) reads one file
  of an unpacked bundle. The store's only state is the file system.

  The archive formats are arguments: the gzip and zstd readers (which may refuse a body) and
  \<open>tar_read\<close>, what \<^verbatim>\<open>tar.Reader\<close> delivers from a decompressed stream, a list of members
  followed by the end of the archive or an error. A member has its header's name, type and mode,
  its data, and whether reading the data ends in an error.
\<close>

datatype tar_type = TypeReg | TypeDir | TypeSymlink | TypeLink | TypeChar | TypeBlock | TypeFifo
  | TypeOther

record tar_item =
  hdr_Name :: string
  hdr_Typeflag :: tar_type
  hdr_Mode :: int
  it_body :: bytes
  it_short :: bool

datatype tar_end = TarEOF | TarErr

record 'r archive =
  gzip_NewReader :: "bytes \<Rightarrow> 'r option"
  zstd_NewReader :: "bytes \<Rightarrow> 'r option"
  tar_read :: "'r \<Rightarrow> tar_item list \<times> tar_end"

datatype bundle_error =
  BadSHA | HashMismatch | OsErr os_error | GzipErr | NotArchive | TarReadErr
  | TraversalEntry string | EscapesRoot | NoAbs | LinkEntry string | NotUnpacked | UnsafePath

record npk_bundle =
  bd_sha :: string
  bd_root :: string

record bundle_store =
  npk_dir :: string

definition lift_os :: "fsys \<times> (os_error + unit) \<Rightarrow> fsys \<times> (bundle_error + unit)" where
  "lift_os r = (fst r, case snd r of Inl e \<Rightarrow> Inl (OsErr e) | Inr u \<Rightarrow> Inr u)"

definition NewBundleStore :: "os \<Rightarrow> string \<Rightarrow> fsys \<Rightarrow> fsys \<times> (bundle_error + bundle_store)" where
  "NewBundleStore E dir fs =
     (case lift_os (MkdirAll E dir fs) of
        (fs1, Inl e) \<Rightarrow> (fs1, Inl e)
      | (fs1, Inr _) \<Rightarrow> (fs1, Inr \<lparr>npk_dir = dir\<rparr>))"

definition bd_path :: "bundle_store \<Rightarrow> string \<Rightarrow> string" where
  "bd_path s sha = PathJoin (npk_dir s) sha"

definition bd_Has :: "bundle_store \<Rightarrow> string \<Rightarrow> fsys \<Rightarrow> bool" where
  "bd_Has s sha fs \<longleftrightarrow> is_dir fs (bd_path s sha)"

subsection \<open>Paths\<close>

definition within_root :: "os \<Rightarrow> string \<Rightarrow> string \<Rightarrow> bundle_error + unit" where
  "within_root E root target =
     (case Abs (os_cwd E) root of
        None \<Rightarrow> Inl NoAbs
      | Some absRoot \<Rightarrow>
          (case Abs (os_cwd E) target of
             None \<Rightarrow> Inl NoAbs
           | Some absTarget \<Rightarrow>
               if absTarget \<noteq> absRoot \<and> \<not> HasPrefix absTarget (absRoot @ slash)
               then Inl EscapesRoot else Inr ()))"

definition bundleRel :: "string \<Rightarrow> string option" where
  "bundleRel sitePath =
     (if \<not> HasPrefix sitePath slash \<or> Contains sitePath [CHR 0x5C] then None
      else if list_ex (\<lambda>seg. seg = ''..'') (Split sitePath slash) then None
      else
        (let clean = Clean (FromSlash sitePath)
         in if HasPrefix clean ''..'' then None
            else
              (let rel = TrimPrefix clean slash
               in if rel = [] then None
                  else if hd (Split rel slash) = ''.npack'' then None
                  else Some rel)))"

subsection \<open>Extraction\<close>

definition decompress :: "'r archive \<Rightarrow> bytes \<Rightarrow> bundle_error + 'r" where
  "decompress A body =
     (if length body \<ge> 2 \<and> body ! 0 = CHR 0x1F \<and> body ! 1 = CHR 0x8B then
        (case gzip_NewReader A body of None \<Rightarrow> Inl GzipErr | Some r \<Rightarrow> Inr r)
      else
        (case zstd_NewReader A body of None \<Rightarrow> Inl NotArchive | Some r \<Rightarrow> Inr r))"

definition hdr_perm :: "tar_item \<Rightarrow> file_mode" where
  "hdr_perm hdr = word_of_int (hdr_Mode hdr) AND 0x1FF"

definition extract_item :: "os \<Rightarrow> string \<Rightarrow> tar_item \<Rightarrow> fsys \<Rightarrow> fsys \<times> (bundle_error + unit)" where
  "extract_item E dest hdr fs =
     (let name = Clean (FromSlash (hdr_Name hdr))
      in if HasPrefix name ''..'' \<or> IsAbs name then (fs, Inl (TraversalEntry (hdr_Name hdr)))
         else
           (let target = PathJoin dest name
            in case within_root E dest target of
                 Inl e \<Rightarrow> (fs, Inl e)
               | Inr _ \<Rightarrow>
                   (case hdr_Typeflag hdr of
                      TypeDir \<Rightarrow> lift_os (MkdirAll E target fs)
                    | TypeReg \<Rightarrow>
                        (case lift_os (MkdirAll E (PathDir target) fs) of
                           (fs1, Inl e) \<Rightarrow> (fs1, Inl e)
                         | (fs1, Inr _) \<Rightarrow>
                             lift_os (WriteFile E target (hdr_perm hdr) (it_body hdr) (it_short hdr) fs1))
                    | TypeOther \<Rightarrow> (fs, Inr ())
                    | _ \<Rightarrow> (fs, Inl (LinkEntry (hdr_Name hdr))))))"

fun extract_items :: "os \<Rightarrow> string \<Rightarrow> tar_item list \<Rightarrow> tar_end \<Rightarrow> fsys \<Rightarrow> fsys \<times> (bundle_error + unit)" where
  "extract_items E dest [] en fs = (fs, if en = TarEOF then Inr () else Inl TarReadErr)"
| "extract_items E dest (hdr # hdrs) en fs =
     (case extract_item E dest hdr fs of
        (fs1, Inl e) \<Rightarrow> (fs1, Inl e)
      | (fs1, Inr _) \<Rightarrow> extract_items E dest hdrs en fs1)"

definition extractTar :: "os \<Rightarrow> 'r archive \<Rightarrow> 'r \<Rightarrow> string \<Rightarrow> fsys \<Rightarrow> fsys \<times> (bundle_error + unit)" where
  "extractTar E A reader dest fs =
     (case tar_read A reader of (hdrs, en) \<Rightarrow> extract_items E dest hdrs en fs)"

text \<open>\<open>unpack_into\<close> is the body of \<open>Unpack\<close> after the deferred \<^verbatim>\<open>os.RemoveAll(tmp)\<close> is set up.\<close>

definition unpack_into ::
  "os \<Rightarrow> 'r archive \<Rightarrow> bundle_store \<Rightarrow> string \<Rightarrow> bytes \<Rightarrow> string \<Rightarrow> fsys \<Rightarrow> fsys \<times> (bundle_error + npk_bundle)" where
  "unpack_into E A s sha body tmp fs =
     (case decompress A body of
        Inl e \<Rightarrow> (fs, Inl e)
      | Inr reader \<Rightarrow>
          (case extractTar E A reader tmp fs of
             (fs1, Inl e) \<Rightarrow> (fs1, Inl e)
           | (fs1, Inr _) \<Rightarrow>
               (let dest = bd_path s sha
                in case lift_os (RemoveAll E dest fs1) of
                     (fs2, Inl e) \<Rightarrow> (fs2, Inl e)
                   | (fs2, Inr _) \<Rightarrow>
                       (case lift_os (Rename E tmp dest fs2) of
                          (fs3, Inl e) \<Rightarrow> (fs3, Inl e)
                        | (fs3, Inr _) \<Rightarrow> (fs3, Inr \<lparr>bd_sha = sha, bd_root = dest\<rparr>)))))"

definition Unpack ::
  "ext \<Rightarrow> os \<Rightarrow> 'r archive \<Rightarrow> bundle_store \<Rightarrow> string \<Rightarrow> bytes \<Rightarrow> fsys \<Rightarrow> fsys \<times> (bundle_error + npk_bundle)" where
  "Unpack X E A s sha body fs =
     (if \<not> isSHA256 sha then (fs, Inl BadSHA)
      else if hash_hex X body \<noteq> ToLower X sha then (fs, Inl HashMismatch)
      else
        (let tmp = bd_path s (sha @ ''.unpacking'')
         in case lift_os (RemoveAll E tmp fs) of
              (fs1, Inl e) \<Rightarrow> (fs1, Inl e)
            | (fs1, Inr _) \<Rightarrow>
                (case lift_os (MkdirAll E tmp fs1) of
                   (fs2, Inl e) \<Rightarrow> (fs2, Inl e)
                 | (fs2, Inr _) \<Rightarrow>
                     (case unpack_into E A s sha body tmp fs2 of
                        (fs3, r) \<Rightarrow> (fst (RemoveAll E tmp fs3), r)))))"

subsection \<open>Reading\<close>

definition bd_ensure :: "bundle_store \<Rightarrow> string \<Rightarrow> fsys \<Rightarrow> bundle_error + npk_bundle" where
  "bd_ensure s sha fs =
     (if \<not> bd_Has s sha fs then Inl NotUnpacked
      else Inr \<lparr>bd_sha = sha, bd_root = bd_path s sha\<rparr>)"

definition bd_Open :: "os \<Rightarrow> bundle_store \<Rightarrow> string \<Rightarrow> string \<Rightarrow> fsys \<Rightarrow> bundle_error + bytes" where
  "bd_Open E s sha sitePath fs =
     (case bd_ensure s sha fs of
        Inl e \<Rightarrow> Inl e
      | Inr bundle \<Rightarrow>
          (case bundleRel sitePath of
             None \<Rightarrow> Inl UnsafePath
           | Some rel \<Rightarrow>
               (let target = PathJoin (bd_root bundle) (FromSlash rel)
                in case within_root E (bd_root bundle) target of
                     Inl e \<Rightarrow> Inl e
                   | Inr _ \<Rightarrow>
                       (case ReadFile E target fs of Inl e \<Rightarrow> Inl (OsErr e) | Inr b \<Rightarrow> Inr b))))"

subsection \<open>Which paths are safe\<close>

lemma TrimPrefix_slash [simp]: "TrimPrefix (CHR ''/'' # s) slash = s"
  by (simp add: TrimPrefix_def)

lemma Split_Join_normal: "normal ys \<Longrightarrow> ys \<noteq> [] \<Longrightarrow> Split (Join ys slash) slash = ys"
  by (rule Split_Join) (simp_all add: normal_no_slash)

text \<open>The relative path of a site path: its normal segments, not starting with \<open>.npack\<close>.\<close>

lemma bundleRel_normal:
  assumes "bundleRel p = Some rel"
  shows "\<exists>ys. ys \<noteq> [] \<and> normal ys \<and> rel = Join ys slash \<and> hd ys \<noteq> ''.npack'' \<and>
    Clean p = abs_path ys"
proof -
  have "IsAbs p" using assms by (auto simp: bundleRel_def IsAbs_def Let_def split: if_splits)
  then obtain ys where ys: "normal ys" "Clean p = abs_path ys" using Clean_abs by blast
  have rel: "rel = Join ys slash" "rel \<noteq> []" "hd (Split rel slash) \<noteq> ''.npack''"
    using assms ys(2)
    by (auto simp: bundleRel_def Let_def FromSlash_def abs_path_def split: if_splits)
  then have "ys \<noteq> []" by auto
  moreover have "Split rel slash = ys"
    using rel(1) calculation Split_Join_normal ys(1) by simp
  ultimately show ?thesis using ys rel by metis
qed

text \<open>Without \<open>.\<close>, \<open>..\<close> or empty segments the path is the site path without its slash.\<close>

lemma Clean_join: "normal ys \<Longrightarrow> Clean (slash @ Join ys slash) = abs_path ys"
  using Clean_abs_path [of ys] by (simp add: abs_path_def)

lemma bundleRel_join:
  assumes "ys \<noteq> []" and "normal ys" and "hd ys \<noteq> ''.npack''"
    and "CHR 0x5C \<notin> set (Join ys slash)"
  shows "bundleRel (slash @ Join ys slash) = Some (Join ys slash)"
proof -
  have "Split (slash @ Join ys slash) slash = [] # ys"
    using Split_abs_path [OF assms(2,1)] by (simp add: abs_path_def)
  moreover have "''..'' \<notin> set ys" using assms(2) by (auto simp: normal_seg_def list_all_iff)
  moreover have "Split (Join ys slash) slash = ys"
    using Split_Join_normal assms(1,2) by simp
  moreover have "Join ys slash \<noteq> []"
    using assms(1,2) by (cases ys) (auto simp: Join_Nil_iff normal_seg_def)
  moreover have "\<not> sublist [CHR 0x5C] (slash @ Join ys slash)"
    using assms(4) set_mono_sublist by fastforce
  ultimately show ?thesis
    using Clean_join [OF assms(2)] assms(3)
    by (auto simp: bundleRel_def FromSlash_def abs_path_def list_ex_iff)
qed

text \<open>A member name that passes the traversal check stays below the destination, so the second
  check never fails.\<close>

lemma safe_name:
  assumes "normal rs" and "rs \<noteq> []" and "\<not> HasPrefix (Clean n) ''..''" and "\<not> IsAbs (Clean n)"
  shows "\<exists>xs. normal xs \<and> Clean n = (if xs = [] then ''.'' else Join xs slash) \<and>
    PathJoin (abs_path rs) (Clean n) = abs_path (rs @ xs)"
proof -
  have "\<not> IsAbs n"
    using assms(4) Clean_abs [of n] by (auto simp: IsAbs_def abs_path_def)
  then obtain m xs where xs: "normal xs"
    and c: "Clean n = (if m = 0 \<and> xs = [] then ''.'' else Join (replicate m ''..'' @ xs) slash)"
    using Clean_relative by blast
  have "m = 0"
  proof (rule ccontr)
    assume "m \<noteq> 0"
    then obtain k where m: "m = Suc k" by (cases m) auto
    have "prefix ''..'' (Join (''..'' # zs) slash)" for zs by (cases zs) auto
    then have "HasPrefix (Clean n) ''..''" using c m by simp
    then show False using assms(3) by simp
  qed
  then have name: "Clean n = (if xs = [] then ''.'' else Join xs slash)" using c by simp
  moreover have "PathJoin (abs_path rs) (Clean n) = abs_path (rs @ xs)"
    using name PathJoin_dot [OF assms(1,2)] PathJoin_abs [OF assms(1,2) xs] by simp
  ultimately show ?thesis using xs by blast
qed

lemma within_ok:
  assumes "normal (rs @ xs)" and "rs \<noteq> []"
  shows "within_root E (abs_path rs) (abs_path (rs @ xs)) = Inr ()"
proof -
  have "IsAbs (abs_path zs)" for zs by (simp add: IsAbs_def abs_path_def)
  moreover have "prefix (abs_path rs @ slash) (abs_path (rs @ xs))" if "xs \<noteq> []"
    using abs_path_below [of rs "rs @ xs"] assms that by auto
  moreover have "Clean (abs_path rs) = abs_path rs" "Clean (abs_path (rs @ xs)) = abs_path (rs @ xs)"
    using assms(1) by (simp_all add: Clean_abs_path)
  ultimately show ?thesis by (cases "xs = []") (simp_all add: within_root_def Abs_def)
qed

subsection \<open>What an extraction writes\<close>

text \<open>The files an archive describes: for every name the data of the last regular member that
  has it.\<close>

definition archive_item :: "tar_item \<Rightarrow> (string \<Rightarrow> bytes option) \<Rightarrow> string \<Rightarrow> bytes option" where
  "archive_item hdr m =
     (if hdr_Typeflag hdr = TypeReg then m(Clean (hdr_Name hdr) \<mapsto> it_body hdr) else m)"

definition archive_files :: "tar_item list \<Rightarrow> string \<Rightarrow> bytes option" where
  "archive_files hdrs = fold archive_item hdrs Map.empty"

text \<open>With the modes the files get: the first member that has a name sets the mode of its file, and
  later ones fill it anew.\<close>

definition archive_entry ::
  "file_mode \<Rightarrow> tar_item \<Rightarrow> (string \<Rightarrow> (file_mode \<times> bytes) option) \<Rightarrow> string \<Rightarrow> (file_mode \<times> bytes) option" where
  "archive_entry umask hdr m =
     (if hdr_Typeflag hdr = TypeReg
      then m(Clean (hdr_Name hdr) \<mapsto>
        (case m (Clean (hdr_Name hdr)) of None \<Rightarrow> hdr_perm hdr AND NOT umask | Some (p, _) \<Rightarrow> p, it_body hdr))
      else m)"

definition archive_entries :: "file_mode \<Rightarrow> tar_item list \<Rightarrow> string \<Rightarrow> (file_mode \<times> bytes) option" where
  "archive_entries umask hdrs = fold (archive_entry umask) hdrs Map.empty"

lemma archive_entries_files: "map_option snd (archive_entries umask hdrs n) = archive_files hdrs n"
proof -
  have "(\<lambda>n. map_option snd (fold (archive_entry umask) hdrs m n)) =
      fold archive_item hdrs (\<lambda>n. map_option snd (m n))" for m
  proof (induction hdrs arbitrary: m)
    case (Cons hdr hdrs)
    have "(\<lambda>n. map_option snd (archive_entry umask hdr m n)) = archive_item hdr (\<lambda>n. map_option snd (m n))"
      by (auto simp: archive_entry_def archive_item_def fun_eq_iff)
    then show ?case using Cons.IH [of "archive_entry umask hdr m"] by simp
  qed simp
  from fun_cong [OF this, of Map.empty n] show ?thesis
    by (simp add: archive_entries_def archive_files_def)
qed

text \<open>A step of the extraction only changes entries strictly below the destination.\<close>

lemma extract_item_cases:
  assumes "normal rs" and "rs \<noteq> []" and "extract_item E (abs_path rs) hdr fs = (fs', r)"
  obtains (fail) e where "fs' = fs" "r = Inl e"
    | (skip) "fs' = fs" "r = Inr ()" "hdr_Typeflag hdr = TypeOther"
    | (dir) xs where "normal xs" "hdr_Typeflag hdr = TypeDir"
        "lift_os (MkdirAll E (abs_path (rs @ xs)) fs) = (fs', r)"
    | (reg_dir) xs e where "normal xs"
        "lift_os (MkdirAll E (PathDir (abs_path (rs @ xs))) fs) = (fs', Inl e)" "r = Inl e"
    | (reg) xs fs1 u where "normal xs" "hdr_Typeflag hdr = TypeReg"
        "Clean (hdr_Name hdr) = (if xs = [] then ''.'' else Join xs slash)"
        "lift_os (MkdirAll E (PathDir (abs_path (rs @ xs))) fs) = (fs1, Inr u)"
        "lift_os (WriteFile E (abs_path (rs @ xs)) (hdr_perm hdr) (it_body hdr) (it_short hdr) fs1) = (fs', r)"
proof (cases "HasPrefix (Clean (hdr_Name hdr)) ''..'' \<or> IsAbs (Clean (hdr_Name hdr))")
  case True
  then show thesis using fail assms(3) by (auto simp: extract_item_def FromSlash_def Let_def)
next
  case False
  then obtain xs where xs: "normal xs"
      "Clean (hdr_Name hdr) = (if xs = [] then ''.'' else Join xs slash)"
      "PathJoin (abs_path rs) (Clean (hdr_Name hdr)) = abs_path (rs @ xs)"
    using safe_name [OF assms(1,2)] by blast
  have "within_root E (abs_path rs) (abs_path (rs @ xs)) = Inr ()"
    using within_ok assms(1,2) xs(1) by simp
  then have ex: "(case hdr_Typeflag hdr of
      TypeDir \<Rightarrow> lift_os (MkdirAll E (abs_path (rs @ xs)) fs)
    | TypeReg \<Rightarrow>
        (case lift_os (MkdirAll E (PathDir (abs_path (rs @ xs))) fs) of
           (fs1, Inl e) \<Rightarrow> (fs1, Inl e)
         | (fs1, Inr _) \<Rightarrow>
             lift_os (WriteFile E (abs_path (rs @ xs)) (hdr_perm hdr) (it_body hdr) (it_short hdr) fs1))
    | TypeOther \<Rightarrow> (fs, Inr ())
    | _ \<Rightarrow> (fs, Inl (LinkEntry (hdr_Name hdr)))) = (fs', r)"
    using assms(3) False xs(3) by (simp add: extract_item_def FromSlash_def Let_def)
  show thesis
  proof (cases "hdr_Typeflag hdr")
    case TypeReg
    obtain fs1 r1 where m: "lift_os (MkdirAll E (PathDir (abs_path (rs @ xs))) fs) = (fs1, r1)"
      by force
    show thesis
    proof (cases r1)
      case (Inl e)
      then show thesis using ex TypeReg m by (intro reg_dir [OF xs(1)]) auto
    next
      case (Inr u)
      then show thesis using ex TypeReg m by (intro reg [OF xs(1) _ xs(2), of fs1 u]) auto
    qed
  next
    case TypeDir
    then show thesis using ex by (intro dir [OF xs(1)]) auto
  next
    case TypeOther
    then show thesis using ex by (intro skip) auto
  qed (use ex fail in auto)
qed

lemma lift_os_fst: "lift_os x = (fs', r) \<Longrightarrow> \<exists>r'. x = (fs', r')"
  by (cases x) (auto simp: lift_os_def)

lemma lift_os_ok: "lift_os x = (fs', Inr u) \<Longrightarrow> x = (fs', Inr u)"
  by (cases x) (auto simp: lift_os_def split: sum.splits)

text \<open>The parent of a path below the root is the root or below it; of the root itself it exists.\<close>

lemma MkdirAll_parent:
  assumes "normal (rs @ xs)" and "rs \<noteq> []" and "dirs_ok rs fs"
    and "MkdirAll E (PathDir (abs_path (rs @ xs))) fs = (fs', r)" and "fs' q \<noteq> fs q"
  shows "fs q = None \<and> fs' q = Some FDir \<and> (\<exists>ys. ys \<noteq> [] \<and> normal ys \<and> q = abs_path (rs @ ys))"
proof (cases xs rule: rev_cases)
  case Nil
  obtain rs' r' where rs: "rs = rs' @ [r']" using assms(2) by (cases rs rule: rev_cases) auto
  have "normal (rs' @ [r'])" using assms(1) rs by simp
  then have "PathDir (abs_path (rs @ xs)) = abs_path rs'"
    using Nil rs PathDir_abs_path by simp
  moreover have "dirs_ok rs' fs" using assms(3) rs by (simp add: dirs_ok_snoc)
  ultimately have "fs' = fs"
    using assms(1,4) rs MkdirAll_dirs_ok [of rs' fs E] by simp
  then show ?thesis using assms(5) by simp
next
  case (snoc ys z)
  have "normal ((rs @ ys) @ [z])" using assms(1) snoc by simp
  then have "PathDir (abs_path (rs @ xs)) = abs_path (rs @ ys)"
    using snoc PathDir_abs_path [of "rs @ ys" z] by simp
  then show ?thesis
    using MkdirAll_below [of rs ys fs E fs' r q] assms snoc by simp
qed

lemma extract_item_frame:
  assumes "normal rs" and "rs \<noteq> []" and "dirs_ok rs fs"
    and "extract_item E (abs_path rs) hdr fs = (fs', r)" and "fs' q \<noteq> fs q"
  shows "fs' q \<noteq> None \<and> fs q \<noteq> Some FDir \<and> (\<exists>ys. ys \<noteq> [] \<and> normal ys \<and> q = abs_path (rs @ ys))"
  using assms(1,2,4)
proof (cases rule: extract_item_cases)
  case (dir xs)
  then obtain r' where "MkdirAll E (abs_path (rs @ xs)) fs = (fs', r')"
    using lift_os_fst by blast
  then show ?thesis using MkdirAll_below [of rs xs fs E fs' r' q] dir assms by simp
next
  case (reg_dir xs e)
  then obtain r' where "MkdirAll E (PathDir (abs_path (rs @ xs))) fs = (fs', r')"
    using lift_os_fst by blast
  then show ?thesis using MkdirAll_parent [of rs xs fs E fs' r' q] reg_dir assms by simp
next
  case (reg xs fs1 u)
  have m: "MkdirAll E (PathDir (abs_path (rs @ xs))) fs = (fs1, Inr u)"
    using reg(4) by (rule lift_os_ok)
  obtain r' where w: "WriteFile E (abs_path (rs @ xs)) (hdr_perm hdr) (it_body hdr) (it_short hdr) fs1 = (fs', r')"
    using reg(5) lift_os_fst by blast
  have up: "fs1 p \<noteq> fs p \<Longrightarrow> fs p = None \<and> fs1 p = Some FDir \<and>
      (\<exists>ys. ys \<noteq> [] \<and> normal ys \<and> p = abs_path (rs @ ys))" for p
    using MkdirAll_parent [OF _ assms(2,3) m] assms(1) reg(1) by simp
  have keep: "fs p = Some FDir \<Longrightarrow> is_dir fs1 p" for p
    using up [of p] unfolding is_dir_def by (metis option.distinct(1))
  show ?thesis
  proof (cases "fs' q = fs1 q")
    case True
    then show ?thesis using up [of q] assms(5) by simp
  next
    case False
    then have q: "q = abs_path (rs @ xs)" "\<not> is_dir fs1 q" "fs' q \<noteq> None"
      using WriteFile_frame [OF w] by auto
    have "xs \<noteq> []"
    proof
      assume "xs = []"
      then have "fs q = Some FDir" using q(1) dirs_okD [of rs "[]" fs] assms(2,3) by simp
      then show False using q(2) keep by blast
    qed
    moreover have "fs q \<noteq> Some FDir" using q(2) keep by blast
    ultimately show ?thesis using q(1,3) reg(1) by blast
  qed
qed (use assms(5) in auto)

lemma extract_item_dirs_ok:
  assumes "normal rs" and "rs \<noteq> []" and "dirs_ok zs fs" and "dirs_ok rs fs"
    and "extract_item E (abs_path rs) hdr fs = (fs', r)"
  shows "dirs_ok zs fs'"
  using assms(3)
proof (rule dirs_ok_eq)
  fix us vs assume "fs (abs_path us) = Some FDir"
  then show "fs' (abs_path us) = Some FDir"
    using extract_item_frame [OF assms(1,2,4,5), of "abs_path us"] by fastforce
qed

lemma extract_items_frame:
  assumes "normal rs" and "rs \<noteq> []" and "dirs_ok rs fs"
    and "extract_items E (abs_path rs) hdrs en fs = (fs', r)"
  shows "dirs_ok rs fs' \<and> (fs' q \<noteq> fs q \<longrightarrow> (\<exists>ys. ys \<noteq> [] \<and> normal ys \<and> q = abs_path (rs @ ys)))"
  using assms(3,4)
proof (induction hdrs arbitrary: fs)
  case (Cons hdr hdrs)
  obtain fs1 r1 where i: "extract_item E (abs_path rs) hdr fs = (fs1, r1)" by force
  have d: "dirs_ok rs fs1"
    by (rule extract_item_dirs_ok [OF assms(1,2) Cons.prems(1) Cons.prems(1) i])
  have f: "fs1 q \<noteq> fs q \<Longrightarrow> \<exists>ys. ys \<noteq> [] \<and> normal ys \<and> q = abs_path (rs @ ys)"
    using extract_item_frame [OF assms(1,2) Cons.prems(1) i] by blast
  show ?case
  proof (cases r1)
    case (Inl e)
    then have "fs' = fs1" using Cons.prems(2) i by simp
    then show ?thesis using d f by blast
  next
    case (Inr u)
    then have "extract_items E (abs_path rs) hdrs en fs1 = (fs', r)"
      using Cons.prems(2) i by simp
    then show ?thesis using Cons.IH [OF d] f by metis
  qed
qed auto

text \<open>After a successful extraction the files below the destination are those of the archive.\<close>

definition holds_files :: "string list \<Rightarrow> fsys \<Rightarrow> (string \<Rightarrow> (file_mode \<times> bytes) option) \<Rightarrow> bool" where
  "holds_files rs fs m \<longleftrightarrow>
     (\<forall>ys p b. ys \<noteq> [] \<and> normal ys \<longrightarrow>
        (fs (abs_path (rs @ ys)) = Some (FFile p b) \<longleftrightarrow> m (Join ys slash) = Some (p, b)))"

lemma Join_inj: "normal xs \<Longrightarrow> normal ys \<Longrightarrow> xs \<noteq> [] \<Longrightarrow> ys \<noteq> [] \<Longrightarrow>
    Join xs slash = Join ys slash \<longleftrightarrow> xs = ys"
  using Split_Join_normal by metis

lemma holds_files_dirs:
  "holds_files rs fs m \<Longrightarrow> (\<And>q. fs' q \<noteq> fs q \<Longrightarrow> fs q = None \<and> fs' q = Some FDir) \<Longrightarrow>
     holds_files rs fs' m"
proof -
  assume h: "holds_files rs fs m" and up: "\<And>q. fs' q \<noteq> fs q \<Longrightarrow> fs q = None \<and> fs' q = Some FDir"
  have "fs' q = Some (FFile p b) \<longleftrightarrow> fs q = Some (FFile p b)" for q p b
    using up [of q] by (cases "fs' q = fs q") auto
  then show ?thesis using h by (simp add: holds_files_def)
qed

lemma extract_item_files:
  assumes "normal rs" and "rs \<noteq> []" and "dirs_ok rs fs"
    and "extract_item E (abs_path rs) hdr fs = (fs', Inr u)" and "holds_files rs fs m"
  shows "holds_files rs fs' (archive_entry (os_umask E) hdr m)"
  using assms(1,2,4)
proof (cases rule: extract_item_cases)
  case skip
  then show ?thesis using assms(5) by (simp add: archive_entry_def)
next
  case (dir xs)
  have "MkdirAll E (abs_path (rs @ xs)) fs = (fs', Inr u)"
    using dir(3) by (rule lift_os_ok)
  then have "fs' q \<noteq> fs q \<Longrightarrow> fs q = None \<and> fs' q = Some FDir" for q
    using MkdirAll_below [of rs xs fs E fs' "Inr u" q] dir assms by simp
  then show ?thesis using holds_files_dirs [OF assms(5)] dir(2) by (simp add: archive_entry_def)
next
  case (reg xs fs1 v)
  have m: "MkdirAll E (PathDir (abs_path (rs @ xs))) fs = (fs1, Inr v)"
    using reg(4) by (rule lift_os_ok)
  have up: "fs1 p \<noteq> fs p \<Longrightarrow> fs p = None \<and> fs1 p = Some FDir" for p
    using MkdirAll_parent [OF _ assms(2,3) m] assms(1) reg(1) by simp
  have keep: "fs p = Some FDir \<Longrightarrow> is_dir fs1 p" for p
    using up [of p] unfolding is_dir_def by (metis option.distinct(1))
  have h1: "holds_files rs fs1 m" using holds_files_dirs [OF assms(5)] up by blast
  define perm where "perm = written_mode (os_umask E) (hdr_perm hdr) (fs1 (abs_path (rs @ xs)))"
  have w: "\<not> is_dir fs1 (abs_path (rs @ xs))" "fs' = fs1(abs_path (rs @ xs) \<mapsto> FFile perm (it_body hdr))"
    using WriteFile_ok [OF lift_os_ok [OF reg(5)]] by (auto simp: perm_def)
  have "xs \<noteq> []"
  proof
    assume "xs = []"
    then have "fs (abs_path (rs @ xs)) = Some FDir" using dirs_okD [of rs "[]" fs] assms(2,3) by simp
    then show False using w(1) keep by blast
  qed
  have old: "fs1 (abs_path (rs @ xs)) = Some (FFile p b) \<longleftrightarrow> m (Join xs slash) = Some (p, b)" for p b
    using h1 reg(1) \<open>xs \<noteq> []\<close> unfolding holds_files_def by blast
  have "perm = (case m (Join xs slash) of None \<Rightarrow> hdr_perm hdr AND NOT (os_umask E) | Some (p, _) \<Rightarrow> p)"
  proof (cases "m (Join xs slash)")
    case None
    then have "fs1 (abs_path (rs @ xs)) \<noteq> Some (FFile p b)" for p b using old by simp
    then show ?thesis
      using None by (auto simp: perm_def written_mode_def split: option.splits fnode.splits)
  next
    case (Some e)
    then show ?thesis using old [of "fst e" "snd e"] by (simp add: perm_def written_mode_def split: prod.splits)
  qed
  then have "archive_entry (os_umask E) hdr m = m(Join xs slash \<mapsto> (perm, it_body hdr))"
    using reg(2,3) \<open>xs \<noteq> []\<close> by (simp add: archive_entry_def)
  moreover have "abs_path (rs @ ys) = abs_path (rs @ xs) \<longleftrightarrow> ys = xs" if "normal ys" for ys
    using abs_path_inj [of "rs @ ys" "rs @ xs"] assms(1) reg(1) that by auto
  ultimately show ?thesis
    using h1 Join_inj reg(1) \<open>xs \<noteq> []\<close> unfolding w(2) holds_files_def by auto
qed auto

lemma extract_items_files:
  assumes "normal rs" and "rs \<noteq> []" and "dirs_ok rs fs"
    and "extract_items E (abs_path rs) hdrs en fs = (fs', Inr u)" and "holds_files rs fs m"
  shows "holds_files rs fs' (fold (archive_entry (os_umask E)) hdrs m)"
  using assms(3-5)
proof (induction hdrs arbitrary: fs m)
  case (Cons hdr hdrs)
  obtain fs1 v where i: "extract_item E (abs_path rs) hdr fs = (fs1, Inr v)"
    and rest: "extract_items E (abs_path rs) hdrs en fs1 = (fs', Inr u)"
    using Cons.prems(2) by (auto split: prod.splits sum.splits)
  have "dirs_ok rs fs1"
    by (rule extract_item_dirs_ok [OF assms(1,2) Cons.prems(1) Cons.prems(1) i])
  then show ?case
    using Cons.IH [OF _ rest] extract_item_files [OF assms(1,2) Cons.prems(1) i Cons.prems(3)] by simp
qed simp

subsection \<open>The store\<close>

text \<open>The store's directory is a clean absolute path other than the root, and it exists.\<close>

definition store_at :: "string list \<Rightarrow> bundle_store \<Rightarrow> bool" where
  "store_at ds s \<longleftrightarrow> normal ds \<and> ds \<noteq> [] \<and> npk_dir s = abs_path ds"

lemma is_hex_char_not_special: "is_hex_char c \<Longrightarrow> c \<noteq> CHR ''/'' \<and> c \<noteq> CHR ''.''"
  by (auto simp: is_hex_char_byte)

lemma sha_seg:
  assumes "isSHA256 sha"
  shows "normal_seg sha" and "normal_seg (sha @ ''.unpacking'')"
proof -
  have l: "length sha = 64" and c: "\<forall>x \<in> set sha. x \<noteq> CHR ''/''"
    using assms is_hex_char_not_special by (auto simp: isSHA256_def isHex_def list_all_iff)
  have "sha \<noteq> []" "sha \<noteq> ''.''" "sha \<noteq> ''..''" using l by auto
  then show "normal_seg sha" using c by (auto simp: normal_seg_def)
  have "length (sha @ ''.unpacking'') = 74" using l by simp
  then have "sha @ ''.unpacking'' \<noteq> ''.''" "sha @ ''.unpacking'' \<noteq> ''..''" by auto
  then show "normal_seg (sha @ ''.unpacking'')" using c by (auto simp: normal_seg_def)
qed

lemma bd_path_abs:
  "store_at ds s \<Longrightarrow> normal_seg sha \<Longrightarrow> bd_path s sha = abs_path (ds @ [sha])"
  using PathJoin_abs [of ds "[sha]"] by (simp add: store_at_def bd_path_def)

lemma tmp_path: "ds \<noteq> [] \<Longrightarrow> abs_path (ds @ [a @ b]) = abs_path (ds @ [a]) @ b"
  by (simp add: abs_path_def Join_append)

lemma under_tmp:
  assumes "ds \<noteq> []" and "under (abs_path (ds @ [sha @ ''.unpacking''])) q"
  shows "\<not> under (abs_path (ds @ [sha])) q"
  using assms by (auto simp: tmp_path under_def prefix_def)

lemma RemoveAll_frame:
  assumes "RemoveAll E p fs = (fs', r)"
  shows "fs' q \<noteq> fs q \<Longrightarrow> under p q \<and> fs' q = None"
    and "r = Inr u \<Longrightarrow> under p q \<Longrightarrow> fs' q = None"
  using assms by (auto simp: RemoveAll_def split: option.splits if_splits)

lemma Rename_cases:
  assumes "Rename E old new fs = (fs', r)"
  shows "(r = Inr () \<and> fs' = move old new fs) \<or> ((\<exists>e. r = Inl e) \<and> fs' = fs)"
  using assms by (auto simp: Rename_def split: if_splits)

text \<open>\<open>unpack_into\<close>: the extraction stays below the scratch directory, and only the last two
  operations reach the bundle's directory.\<close>

lemma unpack_into_cases:
  assumes "unpack_into E A s sha body tmp fs = (fs', r)"
  obtains (none) e where "fs' = fs" "r = Inl e"
    | (extracting) reader e where "extractTar E A reader tmp fs = (fs', Inl e)" "r = Inl e"
    | (remove) reader fs1 u e e' where "extractTar E A reader tmp fs = (fs1, Inr u)"
        "RemoveAll E (bd_path s sha) fs1 = (fs', Inl e)" "r = Inl e'"
    | (rename) reader fs1 fs2 u v e where "decompress A body = Inr reader"
        "extractTar E A reader tmp fs = (fs1, Inr u)"
        "RemoveAll E (bd_path s sha) fs1 = (fs2, Inr v)"
        "Rename E tmp (bd_path s sha) fs2 = (fs', Inl e)" "\<exists>e'. r = Inl e'"
    | (ok) reader fs1 fs2 u v w where "decompress A body = Inr reader"
        "extractTar E A reader tmp fs = (fs1, Inr u)"
        "RemoveAll E (bd_path s sha) fs1 = (fs2, Inr v)"
        "Rename E tmp (bd_path s sha) fs2 = (fs', Inr w)"
        "r = Inr \<lparr>bd_sha = sha, bd_root = bd_path s sha\<rparr>"
proof (cases "decompress A body")
  case (Inl e)
  then show thesis using assms none [of e] by (auto simp: unpack_into_def)
next
  case (Inr reader)
  obtain fs1 r1 where x: "extractTar E A reader tmp fs = (fs1, r1)" by force
  obtain fs2 r2 where m: "RemoveAll E (bd_path s sha) fs1 = (fs2, r2)" by force
  obtain fs3 r3 where n: "Rename E tmp (bd_path s sha) fs2 = (fs3, r3)" by force
  note eqs = Inr x m n unpack_into_def lift_os_def Let_def
  show thesis
  proof (cases r1)
    case (Inl e)
    then show thesis using assms x by (intro extracting [of reader e]) (simp_all add: eqs)
  next
    case r1: (Inr u)
    show thesis
    proof (cases r2)
      case (Inl e)
      then show thesis using assms x m r1 by (intro remove [of reader fs1 u e "OsErr e"]) (simp_all add: eqs)
    next
      case r2: (Inr v)
      show thesis
      proof (cases r3)
        case (Inl e)
        then show thesis using assms x m n r1 r2 Inr
          by (intro rename [of reader fs1 u fs2 v e]) (auto simp: eqs)
      next
        case (Inr w)
        then show thesis using assms x m n r1 r2 \<open>decompress A body = Inr reader\<close>
          by (intro ok [of reader fs1 u fs2 v w]) (simp_all add: eqs)
      qed
    qed
  qed
qed

lemma extractTar_frame:
  assumes "normal rs" and "rs \<noteq> []" and "dirs_ok rs fs"
    and "extractTar E A reader (abs_path rs) fs = (fs', r)"
  shows "fs' q \<noteq> fs q \<Longrightarrow> under (abs_path rs) q" and "dirs_ok rs fs'"
proof -
  obtain hdrs en where t: "tar_read A reader = (hdrs, en)" by force
  have e: "extract_items E (abs_path rs) hdrs en fs = (fs', r)"
    using assms(4) by (simp add: extractTar_def t)
  show "dirs_ok rs fs'" using extract_items_frame [OF assms(1-3) e] by blast
  assume "fs' q \<noteq> fs q"
  then obtain ys where "normal ys" "q = abs_path (rs @ ys)"
    using extract_items_frame [OF assms(1-3) e] by blast
  then show "under (abs_path rs) q" using under_abs_path [of rs "rs @ ys"] assms(1,2) by auto
qed

lemma extractTar_files:
  assumes "normal rs" and "rs \<noteq> []" and "dirs_ok rs fs"
    and "extractTar E A reader (abs_path rs) fs = (fs', Inr u)" and "holds_files rs fs Map.empty"
  shows "\<exists>hdrs. tar_read A reader = (hdrs, TarEOF) \<and> holds_files rs fs' (archive_entries (os_umask E) hdrs)"
proof -
  obtain hdrs en where t: "tar_read A reader = (hdrs, en)" by force
  have e: "extract_items E (abs_path rs) hdrs en fs = (fs', Inr u)"
    using assms(4) by (simp add: extractTar_def t)
  have "en = TarEOF" using e
  proof (induction hdrs arbitrary: fs)
    case (Cons h hs)
    then show ?case
      by (cases "extract_item E (abs_path rs) h fs"; cases "snd (extract_item E (abs_path rs) h fs)") auto
  qed (auto split: if_splits)
  then show ?thesis
    using t extract_items_files [OF assms(1-3) e assms(5)] by (auto simp: archive_entries_def)
qed

lemma under_move:
  "move old new fs q \<noteq> fs q \<Longrightarrow> under old q \<or> under new q"
  by (auto simp: move_def split: if_splits)

text \<open>What the scratch directory looks like when the extraction starts.\<close>

lemma fresh_tmp:
  assumes "normal (ds @ [t])" and "dirs_ok ds fs"
    and "RemoveAll E (abs_path (ds @ [t])) fs = (fs1, Inr u)"
    and "MkdirAll E (abs_path (ds @ [t])) fs1 = (fs2, Inr v)"
  shows "dirs_ok (ds @ [t]) fs2" and "holds_files (ds @ [t]) fs2 Map.empty"
    and "fs2 q \<noteq> fs q \<Longrightarrow> under (abs_path (ds @ [t])) q"
proof -
  have gone: "fs1 (abs_path (ds @ [t] @ ys)) = None" if "normal ys" for ys
    using RemoveAll_frame(2) [OF assms(3) refl] under_abs_path [of "ds @ [t]" "(ds @ [t]) @ ys"]
      assms(1) that by simp
  have d1: "dirs_ok ds fs1"
    using assms(2)
  proof (rule dirs_ok_eq)
    fix us vs assume us: "ds = us @ vs" "fs (abs_path us) = Some FDir"
    have "\<not> under (abs_path (ds @ [t])) (abs_path us)"
      using under_abs_path [of "ds @ [t]" us] assms(1) us(1) by auto
    then show "fs1 (abs_path us) = Some FDir"
      using RemoveAll_frame(1) [OF assms(3), of "abs_path us"] us(2) by metis
  qed
  have m: "fs2 q \<noteq> fs1 q \<Longrightarrow> fs1 q = None \<and> fs2 q = Some FDir \<and> q = abs_path (ds @ [t])" for q
  proof -
    assume new: "fs2 q \<noteq> fs1 q"
    then obtain us vs where us: "us \<noteq> []" "ds @ [t] = us @ vs" "q = abs_path us"
      and f: "fs1 q = None" "fs2 q = Some FDir"
      using MkdirAll_frame [OF assms(1,4)] by blast
    have "vs = []"
    proof (rule ccontr)
      assume "vs \<noteq> []"
      then have "ds = us @ butlast vs" using us(2) by (metis butlast_append butlast_snoc)
      then show False using dirs_okD [of us "butlast vs" fs1] d1 us f by simp
    qed
    then show ?thesis using us f by simp
  qed
  have "fs2 (abs_path (ds @ [t])) = Some FDir"
    using MkdirAll_dir [OF assms(1,4)] is_dir_abs_path [OF assms(1)] by simp
  moreover have "dirs_ok ds fs2"
    using d1 m by (intro dirs_ok_eq [OF d1]) metis
  ultimately show "dirs_ok (ds @ [t]) fs2" by (simp add: dirs_ok_snoc)
  show "holds_files (ds @ [t]) fs2 Map.empty"
    unfolding holds_files_def
  proof (intro allI impI)
    fix ys p b assume "ys \<noteq> [] \<and> normal ys"
    then show "(fs2 (abs_path ((ds @ [t]) @ ys)) = Some (FFile p b)) = (Map.empty (Join ys slash) = Some (p, b))"
      using gone [of ys] m [of "abs_path ((ds @ [t]) @ ys)"]
      by (cases "fs2 (abs_path ((ds @ [t]) @ ys)) = fs1 (abs_path ((ds @ [t]) @ ys))") auto
  qed
  assume "fs2 q \<noteq> fs q"
  then show "under (abs_path (ds @ [t])) q"
    using m [of q] RemoveAll_frame(1) [OF assms(3), of q] by (cases "fs2 q = fs1 q") auto
qed

text \<open>Every outcome of \<open>Unpack\<close>, over the whole file system.\<close>

lemma unpack_into_frame:
  assumes "normal (ds @ [t])" and "dirs_ok (ds @ [t]) fs"
    and "unpack_into E A s sha body (abs_path (ds @ [t])) fs = (fs', r)" and "fs' q \<noteq> fs q"
  shows "under (abs_path (ds @ [t])) q \<or> under (bd_path s sha) q"
proof -
  let ?T = "abs_path (ds @ [t])"
  have x: "fs1 q \<noteq> fs q \<Longrightarrow> under ?T q" if "extractTar E A reader ?T fs = (fs1, r1)" for reader fs1 r1
    using extractTar_frame(1) [OF assms(1) _ assms(2) that] by simp
  show ?thesis
    using assms(3)
  proof (cases rule: unpack_into_cases)
    case (remove reader fs1 u e e')
    show ?thesis using x [OF remove(1)] RemoveAll_frame(1) [OF remove(2), of q] assms(4) by metis
  next
    case (rename reader fs1 fs2 u v e)
    then have "fs' = fs2" using Rename_cases by blast
    then show ?thesis
      using x [OF rename(2)] RemoveAll_frame(1) [OF rename(3), of q] assms(4) by metis
  next
    case (ok reader fs1 fs2 u v w)
    then have "fs' = move ?T (bd_path s sha) fs2" using Rename_cases by blast
    then show ?thesis
      using x [OF ok(2)] RemoveAll_frame(1) [OF ok(3), of q] assms(4) under_move [of ?T _ fs2 q] by metis
  next
    case (extracting reader e)
    show ?thesis using x [OF extracting(1)] assms(4) by blast
  qed (use assms(4) in auto)
qed

lemma unpack_into_dest:
  assumes "normal (ds @ [t])" and "dirs_ok (ds @ [t]) fs"
    and "t = sha @ ''.unpacking''" and "bd_path s sha = abs_path (ds @ [sha])"
    and "unpack_into E A s sha body (abs_path (ds @ [t])) fs = (fs', Inl e)"
    and "under (abs_path (ds @ [sha])) q" and "ds \<noteq> []"
  shows "fs' q = fs q \<or> fs' q = None"
proof -
  let ?T = "abs_path (ds @ [t])"
  have nt: "\<not> under ?T q" using under_tmp [of ds sha q] assms(3,6,7) by blast
  have x: "fs1 q = fs q" if "extractTar E A reader ?T fs = (fs1, r1)" for reader fs1 r1
    using extractTar_frame(1) [OF assms(1) _ assms(2) that, of q] nt by auto
  show ?thesis
    using assms(5)
  proof (cases rule: unpack_into_cases)
    case (remove reader fs1 u e1 e2)
    show ?thesis using x [OF remove(1)] RemoveAll_frame(1) [OF remove(2), of q] by metis
  next
    case (rename reader fs1 fs2 u v e1)
    then have "fs' = fs2" using Rename_cases by blast
    then show ?thesis using x [OF rename(2)] RemoveAll_frame(1) [OF rename(3), of q] by metis
  next
    case (extracting reader e1)
    show ?thesis using x [OF extracting(1)] by blast
  qed auto
qed

lemma unpack_into_ok:
  assumes "normal (ds @ [t])" and "dirs_ok (ds @ [t]) fs" and "holds_files (ds @ [t]) fs Map.empty"
    and "t = sha @ ''.unpacking''" and "bd_path s sha = abs_path (ds @ [sha])"
    and "unpack_into E A s sha body (abs_path (ds @ [t])) fs = (fs', Inr b)"
    and "ds \<noteq> []" and "normal_seg sha"
  shows "\<exists>reader hdrs. decompress A body = Inr reader \<and> tar_read A reader = (hdrs, TarEOF) \<and>
    holds_files (ds @ [sha]) fs' (archive_entries (os_umask E) hdrs) \<and> fs' (abs_path (ds @ [sha])) = Some FDir \<and>
    b = \<lparr>bd_sha = sha, bd_root = abs_path (ds @ [sha])\<rparr>"
  using assms(6)
proof (cases rule: unpack_into_cases)
  case (ok reader fs1 fs2 u v w)
  let ?T = "abs_path (ds @ [t])" and ?D = "abs_path (ds @ [sha])"
  obtain hdrs where h: "tar_read A reader = (hdrs, TarEOF)"
    "holds_files (ds @ [t]) fs1 (archive_entries (os_umask E) hdrs)"
    using extractTar_files [OF assms(1) _ assms(2) ok(2) assms(3)] by auto
  have d: "dirs_ok (ds @ [t]) fs1"
    using extractTar_frame(2) [OF assms(1) _ assms(2) ok(2)] by simp
  have same: "fs2 (abs_path ((ds @ [t]) @ ys)) = fs1 (abs_path ((ds @ [t]) @ ys))" if "normal ys" for ys
  proof -
    have "under ?T (abs_path ((ds @ [t]) @ ys))"
      using under_abs_path [of "ds @ [t]" "(ds @ [t]) @ ys"] assms(1) that by auto
    then have "\<not> under ?D (abs_path ((ds @ [t]) @ ys))"
      using under_tmp [OF assms(7)] assms(4) by blast
    then show ?thesis
      using RemoveAll_frame(1) [OF ok(3), of "abs_path ((ds @ [t]) @ ys)"] assms(5) by metis
  qed
  have fs': "fs' = move ?T ?D fs2" using ok(4) Rename_cases assms(5) by fastforce
  have moved: "fs' (abs_path ((ds @ [sha]) @ ys)) = fs1 (abs_path ((ds @ [t]) @ ys))" if "normal ys" for ys
    using move_below [of "ds @ [sha]" ys "ds @ [t]" fs2] same [OF that] assms(1,8) that
    by (simp add: fs')
  have "holds_files (ds @ [sha]) fs' (archive_entries (os_umask E) hdrs)"
    using h(2) moved unfolding holds_files_def by simp
  moreover have "fs' ?D = Some FDir"
    using moved [of "[]"] dirs_okD [of "ds @ [t]" "[]" fs1] d by simp
  ultimately show ?thesis using ok h(1) assms(5) by auto
qed auto

lemma Unpack_cases:
  assumes "Unpack X E A s sha body fs = (fs', r)"
  obtains (refused) e where "fs' = fs" "r = Inl e"
    | (no_remove) e where "RemoveAll E (bd_path s (sha @ ''.unpacking'')) fs = (fs', Inl e)"
        "\<exists>e'. r = Inl e'"
    | (no_mkdir) fs1 u e where "RemoveAll E (bd_path s (sha @ ''.unpacking'')) fs = (fs1, Inr u)"
        "MkdirAll E (bd_path s (sha @ ''.unpacking'')) fs1 = (fs', Inl e)" "\<exists>e'. r = Inl e'"
    | (unpacked) fs1 fs2 fs3 u v where "isSHA256 sha" "hash_hex X body = ToLower X sha"
        "RemoveAll E (bd_path s (sha @ ''.unpacking'')) fs = (fs1, Inr u)"
        "MkdirAll E (bd_path s (sha @ ''.unpacking'')) fs1 = (fs2, Inr v)"
        "unpack_into E A s sha body (bd_path s (sha @ ''.unpacking'')) fs2 = (fs3, r)"
        "fs' = fst (RemoveAll E (bd_path s (sha @ ''.unpacking'')) fs3)"
proof (cases "\<not> isSHA256 sha \<or> hash_hex X body \<noteq> ToLower X sha")
  case True
  then show thesis using assms refused by (auto simp: Unpack_def split: if_splits)
next
  case False
  let ?t = "bd_path s (sha @ ''.unpacking'')"
  obtain fs1 r1 where m: "RemoveAll E ?t fs = (fs1, r1)" by force
  obtain fs2 r2 where n: "MkdirAll E ?t fs1 = (fs2, r2)" by force
  obtain fs3 r3 where x: "unpack_into E A s sha body ?t fs2 = (fs3, r3)" by force
  note eqs = m n x Unpack_def lift_os_def Let_def
  show thesis
  proof (cases r1)
    case (Inl e)
    then show thesis using assms False m by (intro no_remove [of e]) (auto simp: eqs)
  next
    case r1: (Inr u)
    show thesis
    proof (cases r2)
      case (Inl e)
      then show thesis using assms False m n r1 by (intro no_mkdir [of fs1 u e]) (auto simp: eqs)
    next
      case (Inr v)
      then show thesis using assms False m n x r1
        by (intro unpacked [of fs1 u fs2 v fs3]) (auto simp: eqs)
    qed
  qed
qed

lemma no_mkdir_frame:
  assumes "normal (ds @ [t])" and "dirs_ok ds fs"
    and "RemoveAll E (abs_path (ds @ [t])) fs = (fs1, Inr u)"
    and "MkdirAll E (abs_path (ds @ [t])) fs1 = (fs2, r)" and "fs2 q \<noteq> fs q"
  shows "under (abs_path (ds @ [t])) q"
proof (cases "fs2 q = fs1 q")
  case True
  then show ?thesis using RemoveAll_frame(1) [OF assms(3), of q] assms(5) by auto
next
  case False
  then obtain us vs where us: "us \<noteq> []" "ds @ [t] = us @ vs" "q = abs_path us" "fs1 q = None"
    using MkdirAll_frame [OF assms(1,4)] by blast
  show ?thesis
  proof (cases "vs = []")
    case True
    then show ?thesis using us by simp
  next
    case False
    then have "ds = us @ butlast vs" using us(2) by (metis butlast_append butlast_snoc)
    then have "fs q = Some FDir" using dirs_okD [of us "butlast vs" fs] assms(2) us by simp
    then show ?thesis using RemoveAll_frame(1) [OF assms(3), of q] us(4) by auto
  qed
qed

lemma Unpack_frame:
  assumes "store_at ds s" and "dirs_ok ds fs" and "isSHA256 sha"
    and "Unpack X E A s sha body fs = (fs', r)" and "fs' q \<noteq> fs q"
  shows "under (bd_path s (sha @ ''.unpacking'')) q \<or> under (bd_path s sha) q"
proof -
  let ?t = "sha @ ''.unpacking''"
  have n: "normal (ds @ [?t])" and T: "bd_path s ?t = abs_path (ds @ [?t])"
    using assms(1) sha_seg [OF assms(3)] bd_path_abs [OF assms(1), of ?t] by (simp_all add: store_at_def)
  show ?thesis
    using assms(4)
  proof (cases rule: Unpack_cases)
    case (no_remove e)
    then show ?thesis using RemoveAll_frame(1) [OF no_remove(1), of q] assms(5) by auto
  next
    case (no_mkdir fs1 u e)
    then show ?thesis using no_mkdir_frame [OF n assms(2), of E fs1 u fs' "Inl e" q] assms(5) T by simp
  next
    case (unpacked fs1 fs2 fs3 u v)
    note f = unpacked(3,4)[unfolded T]
    note fresh = fresh_tmp [OF n assms(2) f]
    show ?thesis
    proof (cases "fs3 q = fs2 q")
      case True
      have "fs' q \<noteq> fs3 q \<Longrightarrow> under (bd_path s ?t) q"
        using RemoveAll_frame(1) [of E "bd_path s ?t" fs3 fs' _ q] unpacked(6) by (metis prod.collapse)
      then show ?thesis using True fresh(3) [of q] assms(5) T by metis
    next
      case False
      then show ?thesis
        using unpack_into_frame [OF n fresh(1) unpacked(5)[unfolded T]] T by auto
    qed
  qed (use assms(5) in auto)
qed

lemma RemoveAll_dest:
  assumes "ds \<noteq> []" and "under (abs_path (ds @ [sha])) q"
  shows "fst (RemoveAll E (abs_path (ds @ [sha @ ''.unpacking''])) fs) q = fs q"
  using under_tmp [OF assms(1), of sha q] assms(2)
    RemoveAll_frame(1) [of E "abs_path (ds @ [sha @ ''.unpacking''])" fs _ _ q]
  by (metis prod.collapse)

lemma Unpack_failed:
  assumes "store_at ds s" and "dirs_ok ds fs" and "isSHA256 sha"
    and "Unpack X E A s sha body fs = (fs', Inl e)" and "under (bd_path s sha) q"
  shows "fs' q = fs q \<or> fs' q = None"
proof -
  let ?t = "sha @ ''.unpacking''"
  have n: "normal (ds @ [?t])" and T: "bd_path s ?t = abs_path (ds @ [?t])"
    and D: "bd_path s sha = abs_path (ds @ [sha])" and ne: "ds \<noteq> []"
    using assms(1) sha_seg [OF assms(3)] bd_path_abs [OF assms(1)] by (simp_all add: store_at_def)
  have nt: "\<not> under (abs_path (ds @ [?t])) q" using under_tmp [OF ne] assms(5) D by metis
  show ?thesis
    using assms(4)
  proof (cases rule: Unpack_cases)
    case (no_remove e)
    then show ?thesis using RemoveAll_frame(1) [OF no_remove(1), of q] nt T by metis
  next
    case (no_mkdir fs1 u e1)
    then show ?thesis using no_mkdir_frame [OF n assms(2), of E fs1 u fs' "Inl e1" q] nt T by metis
  next
    case (unpacked fs1 fs2 fs3 u v)
    note fresh = fresh_tmp [OF n assms(2) unpacked(3,4)[unfolded T]]
    have "fs' q = fs3 q" using RemoveAll_dest [OF ne] unpacked(6) assms(5) D T by simp
    moreover have "fs2 q = fs q" using fresh(3) [of q] nt by blast
    moreover have "fs3 q = fs2 q \<or> fs3 q = None"
      using unpack_into_dest [OF n fresh(1) refl D unpacked(5)[unfolded T]] assms(5) D ne by simp
    ultimately show ?thesis by simp
  qed simp_all
qed

lemma Unpack_ok:
  assumes "store_at ds s" and "dirs_ok ds fs"
    and "Unpack X E A s sha body fs = (fs', Inr b)"
  shows "isSHA256 sha \<and> hash_hex X body = ToLower X sha \<and> b = \<lparr>bd_sha = sha, bd_root = bd_path s sha\<rparr> \<and>
    bd_Has s sha fs' \<and>
    (\<exists>reader hdrs. decompress A body = Inr reader \<and> tar_read A reader = (hdrs, TarEOF) \<and>
       holds_files (ds @ [sha]) fs' (archive_entries (os_umask E) hdrs))"
  using assms(3)
proof (cases rule: Unpack_cases)
  case (unpacked fs1 fs2 fs3 u v)
  let ?t = "sha @ ''.unpacking''"
  have n: "normal (ds @ [?t])" and T: "bd_path s ?t = abs_path (ds @ [?t])" and sha: "normal_seg sha"
    and D: "bd_path s sha = abs_path (ds @ [sha])" and ne: "ds \<noteq> []"
    using assms(1) sha_seg [OF unpacked(1)] bd_path_abs [OF assms(1)] by (simp_all add: store_at_def)
  note fresh = fresh_tmp [OF n assms(2) unpacked(3,4)[unfolded T]]
  obtain reader hdrs where h: "decompress A body = Inr reader" "tar_read A reader = (hdrs, TarEOF)"
    "holds_files (ds @ [sha]) fs3 (archive_entries (os_umask E) hdrs)" "fs3 (abs_path (ds @ [sha])) = Some FDir"
    "b = \<lparr>bd_sha = sha, bd_root = abs_path (ds @ [sha])\<rparr>"
    using unpack_into_ok [OF n fresh(1,2) refl D unpacked(5)[unfolded T] ne sha] by blast
  have keep: "under (abs_path (ds @ [sha])) q \<Longrightarrow> fs' q = fs3 q" for q
    using RemoveAll_dest [OF ne] unpacked(6) T by simp
  have "under (abs_path (ds @ [sha])) (abs_path ((ds @ [sha]) @ ys))" if "normal ys" for ys
    using under_abs_path [of "ds @ [sha]" "(ds @ [sha]) @ ys"] n sha that by auto
  then have "holds_files (ds @ [sha]) fs' (archive_entries (os_umask E) hdrs)"
    using h(3) keep unfolding holds_files_def by simp
  moreover have "bd_Has s sha fs'" using keep h(4) D by (simp add: bd_Has_def is_dir_def)
  ultimately show ?thesis using unpacked(1,2) h(1,2,5) unfolding D by blast
qed auto

subsection \<open>The store as a verified store\<close>

text \<open>A member of an archive whose digest is the bundle's.\<close>

definition archive_member :: "ext \<Rightarrow> 'r archive \<Rightarrow> string \<Rightarrow> string \<Rightarrow> bytes \<Rightarrow> bool" where
  "archive_member X A sha rel b \<longleftrightarrow>
     (\<exists>body reader hdrs. hash_hex X body = ToLower X sha \<and> decompress A body = Inr reader \<and>
        tar_read A reader = (hdrs, TarEOF) \<and> archive_files hdrs rel = Some b)"

definition bd_inv :: "ext \<Rightarrow> 'r archive \<Rightarrow> string list \<Rightarrow> fsys \<Rightarrow> bool" where
  "bd_inv X A ds fs \<longleftrightarrow> dirs_ok ds fs \<and>
     (\<forall>sha ys p b. isSHA256 sha \<and> ys \<noteq> [] \<and> normal ys \<and>
        fs (abs_path ((ds @ [sha]) @ ys)) = Some (FFile p b) \<longrightarrow> archive_member X A sha (Join ys slash) b)"

definition bd_step :: "ext \<Rightarrow> 'r archive \<Rightarrow> bundle_store \<Rightarrow> os \<times> string \<times> bytes \<Rightarrow> fsys \<Rightarrow> fsys" where
  "bd_step X A s op fs = (case op of (E, sha, body) \<Rightarrow> fst (Unpack X E A s sha body fs))"

definition bd_read :: "bundle_store \<Rightarrow> fsys \<Rightarrow> string \<times> string \<Rightarrow> bytes option" where
  "bd_read s fs k =
     (case bd_Open reliable_os s (fst k) (snd k) fs of Inl e \<Rightarrow> None | Inr b \<Rightarrow> Some b)"

definition bd_authentic :: "ext \<Rightarrow> 'r archive \<Rightarrow> string \<times> string \<Rightarrow> bytes \<Rightarrow> bool" where
  "bd_authentic X A k b \<longleftrightarrow>
     (isSHA256 (fst k) \<longrightarrow> (\<exists>rel. bundleRel (snd k) = Some rel \<and> archive_member X A (fst k) rel b))"

lemma bd_Open_normal:
  assumes "store_at ds s" and "normal_seg sha" and "bundleRel p = Some (Join ys slash)"
    and "normal ys" and "ys \<noteq> []"
  shows "bd_Open E s sha p fs =
    (if bd_Has s sha fs
     then (case ReadFile E (abs_path ((ds @ [sha]) @ ys)) fs of Inl e \<Rightarrow> Inl (OsErr e) | Inr b \<Rightarrow> Inr b)
     else Inl NotUnpacked)"
proof -
  have n: "normal ((ds @ [sha]) @ ys)" and D: "bd_path s sha = abs_path (ds @ [sha])"
    using assms bd_path_abs by (auto simp: store_at_def)
  have "PathJoin (abs_path (ds @ [sha])) (Join ys slash) = abs_path ((ds @ [sha]) @ ys)"
    using PathJoin_abs [of "ds @ [sha]" ys] n assms(4,5) by simp
  moreover have "within_root E (abs_path (ds @ [sha])) (abs_path ((ds @ [sha]) @ ys)) = Inr ()"
    by (rule within_ok [OF n]) simp
  ultimately show ?thesis
    using assms(3) by (simp add: bd_Open_def bd_ensure_def D FromSlash_def)
qed

lemma bd_Open_cases:
  assumes "store_at ds s" and "normal_seg sha" and "bd_Open E s sha p fs = Inr b"
  obtains ys m where "ys \<noteq> []" "normal ys" "bundleRel p = Some (Join ys slash)" "hd ys \<noteq> ''.npack''"
    "fs (abs_path ((ds @ [sha]) @ ys)) = Some (FFile m b)"
proof -
  obtain rel where rel: "bundleRel p = Some rel"
    using assms(3) by (auto simp: bd_Open_def split: sum.splits option.splits)
  then obtain ys where ys: "ys \<noteq> []" "normal ys" "rel = Join ys slash" "hd ys \<noteq> ''.npack''"
    using bundleRel_normal by blast
  have "\<exists>m. fs (abs_path ((ds @ [sha]) @ ys)) = Some (FFile m b)"
    using assms(3) bd_Open_normal [OF assms(1,2) rel [unfolded ys(3)] ys(2,1), of E fs]
    by (auto simp: ReadFile_def split: if_splits option.splits fnode.splits)
  then show thesis using that ys rel by blast
qed

lemma other_bundle:
  assumes "normal ((ds @ [sha']) @ ys)" and "sha' \<noteq> sha" and "isSHA256 sha" and "isSHA256 sha'"
    and "store_at ds s"
  shows "\<not> under (bd_path s sha) (abs_path ((ds @ [sha']) @ ys)) \<and>
    \<not> under (bd_path s (sha @ ''.unpacking'')) (abs_path ((ds @ [sha']) @ ys))"
proof -
  have n: "normal (ds @ [sha])" "normal (ds @ [sha @ ''.unpacking''])"
    using assms(5) sha_seg [OF assms(3)] by (auto simp: store_at_def)
  have "length sha = 64" "length sha' = 64" using assms(3,4) by (auto simp: isSHA256_def)
  then have "sha' \<noteq> sha @ ''.unpacking''" by auto
  then show ?thesis
    using under_abs_path [OF n(1) _ assms(1)] under_abs_path [OF n(2) _ assms(1)] assms(2,5)
      bd_path_abs sha_seg [OF assms(3)] by auto
qed

lemma parent_not_under:
  assumes "store_at ds s" and "isSHA256 sha" and "ds = us @ vs"
  shows "\<not> under (bd_path s sha) (abs_path us) \<and> \<not> under (bd_path s (sha @ ''.unpacking'')) (abs_path us)"
proof -
  have n: "normal (ds @ [sha])" "normal (ds @ [sha @ ''.unpacking''])" "normal us"
    using assms(1,3) sha_seg [OF assms(2)] by (auto simp: store_at_def)
  have no: "us \<noteq> (ds @ [x]) @ zs" for x zs
    using assms(3) by (metis append.assoc append_self_conv not_Cons_self2 append_is_Nil_conv)
  show ?thesis
    using under_abs_path [OF n(1) _ n(3)] under_abs_path [OF n(2) _ n(3)] no
      bd_path_abs [OF assms(1)] sha_seg [OF assms(2)] by auto
qed

lemma bd_step_inv:
  assumes "store_at ds s" and "bd_inv X A ds fs"
  shows "bd_inv X A ds (bd_step X A s op fs)"
proof -
  obtain E sha body where op: "op = (E, sha, body)" by (cases op)
  obtain fs' r where u: "Unpack X E A s sha body fs = (fs', r)" by force
  have step: "bd_step X A s op fs = fs'" by (simp add: bd_step_def op u)
  show ?thesis
  proof (cases "isSHA256 sha")
    case False
    then have "fs' = fs" using u by (simp add: Unpack_def)
    then show ?thesis using assms(2) step by simp
  next
    case sha: True
    have d: "dirs_ok ds fs" using assms(2) by (simp add: bd_inv_def)
    have "dirs_ok ds fs'"
      using d
    proof (rule dirs_ok_eq)
      fix us vs assume "us \<noteq> []" and us: "ds = us @ vs" and f: "fs (abs_path us) = Some FDir"
      then show "fs' (abs_path us) = Some FDir"
        using Unpack_frame [OF assms(1) d sha u, of "abs_path us"] parent_not_under [OF assms(1) sha us]
        by metis
    qed
    moreover have "archive_member X A sha' (Join ys slash) b"
      if that: "isSHA256 sha'" "ys \<noteq> []" "normal ys"
        "fs' (abs_path ((ds @ [sha']) @ ys)) = Some (FFile m b)" for sha' ys m b
    proof (cases "sha' = sha \<and> (\<exists>bd. r = Inr bd)")
      case True
      then obtain bd where "r = Inr bd" by blast
      with u Unpack_ok [OF assms(1) d, of X E A sha body fs' bd] obtain reader hdrs where
          arch: "hash_hex X body = ToLower X sha" "decompress A body = Inr reader" "tar_read A reader = (hdrs, TarEOF)"
        and held: "holds_files (ds @ [sha]) fs' (archive_entries (os_umask E) hdrs)" by auto
      have "archive_entries (os_umask E) hdrs (Join ys slash) = Some (m, b)"
        using held that True unfolding holds_files_def by blast
      then have "archive_files hdrs (Join ys slash) = Some b"
        using archive_entries_files [of "os_umask E" hdrs "Join ys slash"] by simp
      then show ?thesis using arch True unfolding archive_member_def by blast
    next
      case False
      let ?q = "abs_path ((ds @ [sha']) @ ys)"
      have n: "normal ((ds @ [sha']) @ ys)"
        using assms(1) sha_seg [OF that(1)] that(3) by (simp add: store_at_def)
      have "fs' ?q = fs ?q \<or> fs' ?q = None"
      proof (cases "sha' = sha")
        case True
        then obtain e where "r = Inl e" using False by (cases r) auto
        moreover have "under (bd_path s sha) ?q"
          using True n bd_path_abs [OF assms(1) sha_seg(1) [OF sha]]
            under_abs_path [of "ds @ [sha]" "(ds @ [sha']) @ ys"] by auto
        ultimately show ?thesis using Unpack_failed [OF assms(1) d sha, of X E A body fs' e ?q] u by simp
      next
        case False
        then show ?thesis
          using Unpack_frame [OF assms(1) d sha u, of ?q] other_bundle [OF n False sha that(1) assms(1)]
          by metis
      qed
      then have "fs ?q = Some (FFile m b)" using that(4) by auto
      then show ?thesis using that(1-3) assms(2) unfolding bd_inv_def by blast
    qed
    ultimately show ?thesis unfolding step bd_inv_def by blast
  qed
qed

lemma bd_read_authentic:
  assumes "store_at ds s" and "bd_inv X A ds fs" and "bd_Open E s sha p fs = Inr b"
    and "isSHA256 sha"
  shows "\<exists>rel. bundleRel p = Some rel \<and> archive_member X A sha rel b"
proof -
  obtain ys m where "ys \<noteq> []" "normal ys" "bundleRel p = Some (Join ys slash)"
      "fs (abs_path ((ds @ [sha]) @ ys)) = Some (FFile m b)"
    using bd_Open_cases [OF assms(1) sha_seg(1) [OF assms(4)] assms(3)] by metis
  then show ?thesis using assms(2,4) unfolding bd_inv_def by blast
qed

interpretation bundles: verified_store
  "\<lambda>fs. \<exists>ds. store_at ds s \<and> bd_inv X A ds fs" "bd_read s" "bd_authentic X A" "bd_step X A s"
  for X A s
proof unfold_locales
  fix fs k b assume "\<exists>ds. store_at ds s \<and> bd_inv X A ds fs" "bd_read s fs k = Some b"
  then show "bd_authentic X A k b"
    using bd_read_authentic [of _ s X A fs reliable_os "fst k" "snd k" b]
    by (auto simp: bd_authentic_def bd_read_def split: sum.splits)
next
  fix fs op assume "\<exists>ds. store_at ds s \<and> bd_inv X A ds fs"
  then show "\<exists>ds. store_at ds s \<and> bd_inv X A ds (bd_step X A s op fs)"
    using bd_step_inv by blast
qed

subsection \<open>Properties\<close>

definition sample_archive :: "unit archive" where
  "sample_archive =
     \<lparr>gzip_NewReader = (\<lambda>_. None), zstd_NewReader = (\<lambda>_. Some ()),
      tar_read = (\<lambda>_. ([\<lparr>hdr_Name = ''index.html'', hdr_Typeflag = TypeReg, hdr_Mode = 420, it_body = ''hi'',
        it_short = False\<rparr>], TarEOF))\<rparr>"

definition sample_bundles :: bundle_store where
  "sample_bundles = \<lparr>npk_dir = ''/npk''\<rparr>"

definition sample_fs :: fsys where
  "sample_fs = [''/npk'' \<mapsto> FDir]"

definition npk_sha :: string where
  "npk_sha = hash_hex sample_ext ''abcdef''"

lemma sample_store: "store_at [''npk''] sample_bundles" "dirs_ok [''npk''] sample_fs"
  "bd_inv X A [''npk''] sample_fs"
proof -
  have dirs: "dirs_ok [''npk''] sample_fs"
    by (auto simp: dirs_ok_def sample_fs_def abs_path_def Cons_eq_append_conv)
  then show "dirs_ok [''npk''] sample_fs" .
  show "store_at [''npk''] sample_bundles"
    by (simp add: store_at_def sample_bundles_def abs_path_def normal_seg_def)
  show "bd_inv X A [''npk''] sample_fs"
    using dirs by (auto simp: bd_inv_def sample_fs_def)
qed

lemma npk_sha: "isSHA256 npk_sha"
  unfolding npk_sha_def using hex64_isSHA256 hash_hex64 sample_ext_ok(1) by blast

lemma sample_unpack:
  "(case Unpack sample_ext reliable_os sample_archive sample_bundles npk_sha ''abcdef'' sample_fs of
      (_, Inr b) \<Rightarrow> bd_sha b = npk_sha | _ \<Rightarrow> False)"
  by code_simp

lemma sample_bundle_read:
  "bd_Open reliable_os sample_bundles npk_sha ''/index.html''
     (fold (bd_step sample_ext sample_archive sample_bundles) [(reliable_os, npk_sha, ''abcdef'')]
       sample_fs) = Inr ''hi''"
  by code_simp

text \<open>C8: Only verified archive members are served from the bundle store. After any sequence of
  \<^verbatim>\<open>Unpack\<close> calls, with any archives and any failing file operations, what
  \<^verbatim>\<open>BundleStore.Open\<close> returns for a digest and a site path is the content of the member of
  that name in an archive whose SHA-256 is that digest.\<close>

theorem bundle_reads_verified:
  assumes "store_at ds s" and "bd_inv X A ds fs" and "isSHA256 sha"
    and "bd_Open E s sha p (fold (bd_step X A s) ops fs) = Inr b"
  shows "\<exists>rel. bundleRel p = Some rel \<and> archive_member X A sha rel b"
proof -
  have "\<exists>ds. store_at ds s \<and> bd_inv X A ds (fold (bd_step X A s) ops fs)"
    using assms(1,2) by (intro bundles.run_inv) blast
  then show ?thesis using bd_read_authentic assms(3,4) by metis
qed

theorem bundle_reads_verified_witness:
  "\<exists>rel. bundleRel ''/index.html'' = Some rel \<and>
     archive_member sample_ext sample_archive npk_sha rel ''hi''"
  using bundle_reads_verified [OF sample_store(1,3) npk_sha sample_bundle_read] .

text \<open>C19: \<^verbatim>\<open>Unpack\<close> then \<^verbatim>\<open>Open\<close> is a round trip, up to the file modes. When \<^verbatim>\<open>Unpack\<close>
  succeeds, the body has the asked digest and is a complete archive. From then on, as long as
  reads do not fail, opening a safe site path is decided by the archive: if it has a regular
  member of that name, the result is the last such member's content, provided the owner may
  read the mode the first such member gave the file (after the mask), or the service is
  the superuser; otherwise, and without such a member, it is an error (\<open>unreadable_member\<close>).\<close>

theorem unpack_open_roundtrip:
  assumes "store_at ds s" and "dirs_ok ds fs" and "Unpack X E A s sha body fs = (fs', Inr bd)"
    and "bundleRel p = Some rel" and "\<forall>q. \<not> os_read E' q fs'"
  shows "hash_hex X body = ToLower X sha \<and>
    (\<exists>reader hdrs. decompress A body = Inr reader \<and> tar_read A reader = (hdrs, TarEOF) \<and>
       bd_Open E' s sha p fs' =
         (case archive_files hdrs rel of
            None \<Rightarrow> Inl (OsErr (OsError ''open''))
          | Some content \<Rightarrow>
              if may_read E' (fst (the (archive_entries (os_umask E) hdrs rel)))
              then Inr content else Inl (OsErr (OsError ''open''))))"
proof -
  note ok = Unpack_ok [OF assms(1-3)]
  then obtain reader hdrs where r: "decompress A body = Inr reader" "tar_read A reader = (hdrs, TarEOF)"
    "holds_files (ds @ [sha]) fs' (archive_entries (os_umask E) hdrs)" by blast
  obtain ys where ys: "ys \<noteq> []" "normal ys" "rel = Join ys slash"
    using bundleRel_normal [OF assms(4)] by blast
  have files: "archive_files hdrs rel = map_option snd (archive_entries (os_umask E) hdrs rel)"
    by (simp add: archive_entries_files)
  have opened: "bd_Open E' s sha p fs' =
      (case ReadFile E' (abs_path ((ds @ [sha]) @ ys)) fs' of Inl e \<Rightarrow> Inl (OsErr e) | Inr b \<Rightarrow> Inr b)"
    using bd_Open_normal [OF assms(1) sha_seg(1)] ok assms(4) ys by simp
  have held: "fs' (abs_path ((ds @ [sha]) @ ys)) = Some (FFile m b) \<longleftrightarrow>
      archive_entries (os_umask E) hdrs rel = Some (m, b)" for m b
    using r(3) ys unfolding holds_files_def by blast
  have "bd_Open E' s sha p fs' =
      (case archive_files hdrs rel of
         None \<Rightarrow> Inl (OsErr (OsError ''open''))
       | Some content \<Rightarrow>
           if may_read E' (fst (the (archive_entries (os_umask E) hdrs rel)))
           then Inr content else Inl (OsErr (OsError ''open'')))"
  proof (cases "archive_entries (os_umask E) hdrs rel")
    case None
    then have "fs' (abs_path ((ds @ [sha]) @ ys)) \<noteq> Some (FFile m b)" for m b using held by simp
    then show ?thesis
      using None by (auto simp: opened files ReadFile_def split: option.splits fnode.splits)
  next
    case (Some e)
    then have "fs' (abs_path ((ds @ [sha]) @ ys)) = Some (FFile (fst e) (snd e))" using held by simp
    then show ?thesis using Some assms(5) by (simp add: opened files ReadFile_def)
  qed
  then show ?thesis using ok r by blast
qed

text \<open>One archive with a member of mode 644, and one with a member of mode 0.\<close>

definition sample_hdr :: "int \<Rightarrow> tar_item" where
  "sample_hdr mode =
     \<lparr>hdr_Name = ''index.html'', hdr_Typeflag = TypeReg, hdr_Mode = mode, it_body = ''hi'', it_short = False\<rparr>"

theorem unpack_open_roundtrip_witness:
  "bd_Open reliable_os sample_bundles npk_sha ''/index.html''
     (fst (Unpack sample_ext reliable_os sample_archive sample_bundles npk_sha ''abcdef'' sample_fs)) = Inr ''hi''"
proof -
  obtain fs' bd where u: "Unpack sample_ext reliable_os sample_archive sample_bundles npk_sha
      ''abcdef'' sample_fs = (fs', Inr bd)"
    using sample_unpack by (auto split: prod.splits sum.splits)
  have rel: "bundleRel ''/index.html'' = Some ''index.html''" by code_simp
  have "\<forall>q. \<not> os_read reliable_os q fs'" by (simp add: reliable_os_def)
  from unpack_open_roundtrip [OF sample_store(1,2) u rel this]
  obtain reader hdrs where r: "tar_read sample_archive reader = (hdrs, TarEOF)"
    and "bd_Open reliable_os sample_bundles npk_sha ''/index.html'' fs' =
      (case archive_files hdrs ''index.html'' of
         None \<Rightarrow> Inl (OsErr (OsError ''open''))
       | Some content \<Rightarrow>
           if may_read reliable_os (fst (the (archive_entries (os_umask reliable_os) hdrs ''index.html'')))
           then Inr content else Inl (OsErr (OsError ''open'')))" by blast
  moreover have "hdrs = [sample_hdr 420]" using r by (simp add: sample_archive_def sample_hdr_def)
  moreover have "archive_files [sample_hdr 420] ''index.html'' = Some ''hi''" by code_simp
  moreover have "may_read reliable_os
      (fst (the (archive_entries (os_umask reliable_os) [sample_hdr 420] ''index.html'')))" by code_simp
  ultimately show ?thesis using u by simp
qed

text \<open>C18: No archive writes outside its bundle. Whatever the archive holds and whichever file
  operation fails, \<^verbatim>\<open>Unpack\<close> changes nothing but the scratch directory and the bundle's own
  directory with what is below them, and a call that fails adds nothing to the bundle.\<close>

theorem unpack_contained:
  assumes "store_at ds s" and "dirs_ok ds fs" and "isSHA256 sha"
    and "Unpack X E A s sha body fs = (fs', r)"
  shows "fs' q = fs q \<or> under (bd_path s (sha @ ''.unpacking'')) q \<or>
    (under (bd_path s sha) q \<and> ((\<exists>bd. r = Inr bd) \<or> fs' q = None))"
proof (cases r)
  case (Inl e)
  then show ?thesis
    using Unpack_frame [OF assms, of q] Unpack_failed [OF assms(1-3), of X E A body fs' e q] assms(4)
    by auto
next
  case (Inr bd)
  then show ?thesis using Unpack_frame [OF assms, of q] by auto
qed

theorem unpack_contained_witness:
  "fst (Unpack sample_ext reliable_os sample_archive sample_bundles npk_sha ''abcdef'' sample_fs)
     ''/etc/passwd'' = sample_fs ''/etc/passwd''"
proof -
  have "\<not> under (bd_path sample_bundles npk_sha) ''/etc/passwd''"
    "\<not> under (bd_path sample_bundles (npk_sha @ ''.unpacking'')) ''/etc/passwd''"
    by code_simp+
  then show ?thesis
    using unpack_contained [OF sample_store(1,2) npk_sha prod.collapse [symmetric],
        of sample_ext reliable_os sample_archive "''abcdef''" "''/etc/passwd''"] by blast
qed

text \<open>The relative path a site path maps to has only normal segments (no empty one, no \<open>.\<close>,
  no \<open>..\<close>), and the first one is not the metadata directory \<open>.npack\<close>; it is the cleaned
  site path without its slash.\<close>

lemma bundle_rel_safe:
  "(case bundleRel p of
      None \<Rightarrow> True
    | Some rel \<Rightarrow>
        \<exists>ys. ys \<noteq> [] \<and> normal ys \<and> rel = Join ys slash \<and> hd ys \<noteq> ''.npack'' \<and>
          Clean p = slash @ rel)"
  using bundleRel_normal [of p] by (auto simp: abs_path_def split: option.splits)

text \<open>Reading never reaches the metadata of a bundle or another bundle: a successful
  \<^verbatim>\<open>BundleStore.Open\<close> read a file below the directory of its own digest and not below that
  directory's \<open>.npack\<close>.\<close>

lemma bundle_open_confined:
  assumes "store_at ds s" and "isSHA256 sha" and "bd_Open E s sha p fs = Inr b"
  shows "\<exists>q m. fs q = Some (FFile m b) \<and> under (bd_path s sha) q \<and>
    \<not> under (bd_path s sha @ ''/.npack'') q"
proof -
  note seg = sha_seg(1) [OF assms(2)]
  obtain ys m where ys: "ys \<noteq> []" "normal ys" "hd ys \<noteq> ''.npack''"
    "fs (abs_path ((ds @ [sha]) @ ys)) = Some (FFile m b)"
    using bd_Open_cases [OF assms(1) seg assms(3)] by metis
  have n: "normal ((ds @ [sha]) @ ys)" "normal (ds @ [sha])" "normal ((ds @ [sha]) @ [''.npack''])"
    using assms(1) seg ys(2) by (auto simp: store_at_def normal_seg_def)
  have D: "bd_path s sha = abs_path (ds @ [sha])" using bd_path_abs [OF assms(1) seg] .
  moreover have "abs_path (ds @ [sha]) @ ''/.npack'' = abs_path ((ds @ [sha]) @ [''.npack''])"
    by (simp add: abs_path_def Join_append [of "ds @ [sha]" "[''.npack'']", simplified])
  moreover have "\<not> under (abs_path ((ds @ [sha]) @ [''.npack''])) (abs_path ((ds @ [sha]) @ ys))"
    using under_abs_path [OF n(3) _ n(1)] ys(1,3) by auto
  moreover have "under (abs_path (ds @ [sha])) (abs_path ((ds @ [sha]) @ ys))"
    using under_abs_path [OF n(2) _ n(1)] by auto
  ultimately show ?thesis using ys(4) by metis
qed

lemma bundle_open_confined_witness:
  "\<exists>q m. fold (bd_step sample_ext sample_archive sample_bundles)
       [(reliable_os, npk_sha, ''abcdef'')] sample_fs q = Some (FFile m ''hi'') \<and>
     under (bd_path sample_bundles npk_sha) q \<and> \<not> under (bd_path sample_bundles npk_sha @ ''/.npack'') q"
  by (rule bundle_open_confined [OF sample_store(1) npk_sha sample_bundle_read])

subsection \<open>A member nobody may read\<close>

text \<open>The mode of a member is taken from the archive. One without the owner's read bit is unpacked, and
  the bundle is there, but the service cannot open the file it has just made; only a later
  removal of the bundle's directory would make it try again.\<close>

lemma unreadable_member:
  defines "A \<equiv> sample_archive\<lparr>tar_read := \<lambda>_. ([sample_hdr 0], TarEOF)\<rparr>"
  defines "fs' \<equiv> fst (Unpack sample_ext reliable_os A sample_bundles npk_sha ''abcdef'' sample_fs)"
  shows "bd_Has sample_bundles npk_sha fs'"
    and "bd_Open reliable_os sample_bundles npk_sha ''/index.html'' fs' = Inl (OsErr (OsError ''open''))"
  unfolding A_def fs'_def by code_simp+

subsection \<open>Two unpackings of one archive at the same time\<close>

text \<open>Nothing serialises two \<open>Unpack\<close> calls for the same digest, and they share one scratch
  directory. Here the second call clears it while the first is between two members; the
  first one then publishes a bundle without its first member.\<close>

definition two_members :: "tar_item list" where
  "two_members = map (\<lambda>n. \<lparr>hdr_Name = n, hdr_Typeflag = TypeReg, hdr_Mode = 420, it_body = n, it_short = False\<rparr>)
     [''a.html'', ''b.html'']"

definition interleaved_unpack :: "string \<Rightarrow> fsys \<Rightarrow> fsys" where
  "interleaved_unpack sha fs =
     (let tmp = bd_path sample_bundles (sha @ ''.unpacking'');
          dest = bd_path sample_bundles sha;
          fs1 = fst (MkdirAll reliable_os tmp (fst (RemoveAll reliable_os tmp fs)));
          fs2 = fst (extract_item reliable_os tmp (two_members ! 0) fs1);
          fs3 = fst (MkdirAll reliable_os tmp (fst (RemoveAll reliable_os tmp fs2)));
          fs4 = fst (extract_item reliable_os tmp (two_members ! 1) fs3)
      in fst (Rename reliable_os tmp dest (fst (RemoveAll reliable_os dest fs4))))"

lemma interleaved_unpack_incomplete:
  "bd_Has sample_bundles ''ab'' (interleaved_unpack ''ab'' sample_fs)"
  "bd_read sample_bundles (interleaved_unpack ''ab'' sample_fs) (''ab'', ''/b.html'') = Some ''b.html''"
  "bd_read sample_bundles (interleaved_unpack ''ab'' sample_fs) (''ab'', ''/a.html'') = None"
  by code_simp+

end
