(* ===== verification/Resolve.thy ===== *)
theory Resolve
  imports Manifest Cache Releases
begin

section \<open>The resolver (\<^verbatim>\<open>resolve.go\<close>)\<close>

text \<open>
  \<open>rs_Manifest\<close>, \<open>rs_Release\<close> and \<open>BlossomServers\<close> are the methods of \<^verbatim>\<open>Resolver\<close>. The cache
  is threaded through the calls; the relays' answers are the pool argument, and \<open>clk i\<close> is
  the i-th reading of the clock within a call (\<open>Get\<close>, \<open>Negative\<close>, then \<open>Put\<close> or
  \<open>PutNegative\<close>). The cache holds values of Go's type \<open>any\<close>, here \<open>cached\<close>.
\<close>

datatype cached = CEvent event | CRelease release

datatype resolve_error = NeedsD | NeedsID | UnknownSiteType | NpkErr npk_error

type_synonym clock = "nat \<Rightarrow> int"

record resolver =
  rs_relays :: "string list"
  rs_mcache :: "cached manifest_cache"
  rs_forbidden :: "string set"
  rs_maxPaths :: int
  rs_catalogue :: "catalogue option"

text \<open>\<open>New\<close> takes a variadic catalogue argument and keeps the first one.\<close>

definition rs_New ::
  "string list \<Rightarrow> cached manifest_cache \<Rightarrow> string set \<Rightarrow> int \<Rightarrow> catalogue option list \<Rightarrow> resolver" where
  "rs_New relays mcache forbidden maxPaths cats =
     \<lparr>rs_relays = relays, rs_mcache = mcache, rs_forbidden = forbidden, rs_maxPaths = maxPaths,
      rs_catalogue = (case cats of [] \<Rightarrow> None | c # _ \<Rightarrow> c)\<rparr>"

definition Relays :: "resolver \<Rightarrow> string list" where
  "Relays r = rs_relays r"

definition keyAndFilter ::
  "site_type \<Rightarrow> string \<Rightarrow> string \<Rightarrow> string \<Rightarrow> resolve_error + string \<times> nfilter" where
  "keyAndFilter siteType pubkey d eid =
     (case siteType of
        SiteRoot \<Rightarrow>
          Inr (''root:'' @ pubkey, empty_filter\<lparr>f_kinds := [KindRoot], f_authors := [pubkey]\<rparr>)
      | SiteNamed \<Rightarrow>
          if d = [] then Inl NeedsD
          else Inr (''named:'' @ pubkey @ '':'' @ d,
            empty_filter\<lparr>f_kinds := [KindNamed], f_authors := [pubkey], f_tags := [(''d'', [d])]\<rparr>)
      | SiteSnapshot \<Rightarrow>
          if eid = [] then Inl NeedsID
          else Inr (''snap:'' @ eid, empty_filter\<lparr>f_kinds := [KindSnapshot], f_ids := [eid]\<rparr>)
      | SiteNone \<Rightarrow> Inl UnknownSiteType)"

text \<open>The loop of \<open>newestEvent\<close>; its state is the set of seen ids and the best event.\<close>

definition newest_hit ::
  "bool \<Rightarrow> event option \<Rightarrow> string set \<times> event option \<Rightarrow> string set \<times> event option" where
  "newest_hit dedupeByID hit st =
     (case hit of
        None \<Rightarrow> st
      | Some ev \<Rightarrow>
          if dedupeByID \<and> ev_id ev \<in> fst st then st
          else (if dedupeByID then insert (ev_id ev) (fst st) else fst st, newer ev (snd st)))"

definition newestEvent :: "pool \<Rightarrow> string list \<Rightarrow> nfilter \<Rightarrow> bool \<Rightarrow> event option" where
  "newestEvent P relays f dedupeByID = snd (fold (newest_hit dedupeByID) (P relays f) ({}, None))"

definition rs_Manifest ::
  "ext \<Rightarrow> pool \<Rightarrow> clock \<Rightarrow> site_type \<Rightarrow> string \<Rightarrow> string \<Rightarrow> string \<Rightarrow> resolver \<Rightarrow>
     (resolve_error + event option) \<times> resolver" where
  "rs_Manifest X P clk siteType pubkey d eid r =
     (case keyAndFilter siteType pubkey d eid of
        Inl err \<Rightarrow> (Inl err, r)
      | Inr (key, f) \<Rightarrow>
          (case mc_Get (clk 0) key (rs_mcache r) of
             (Some v, mc1) \<Rightarrow>
               (Inr (case v of CEvent ev \<Rightarrow> Some ev | _ \<Rightarrow> None), r\<lparr>rs_mcache := mc1\<rparr>)
           | (None, mc1) \<Rightarrow>
               if mc_Negative (clk 1) key mc1 then (Inr None, r\<lparr>rs_mcache := mc1\<rparr>)
               else
                 (case newestEvent P (rs_relays r) f True of
                    None \<Rightarrow> (Inr None, r\<lparr>rs_mcache := mc_PutNegative (clk 2) key mc1\<rparr>)
                  | Some best \<Rightarrow>
                      if \<not> v_valid (Validate X best
                          \<lparr>ForbiddenPubkeys = rs_forbidden r, MaxPaths = rs_maxPaths r\<rparr>)
                      then (Inr None, r\<lparr>rs_mcache := mc_PutNegative (clk 2) key mc1\<rparr>)
                      else (Inr (Some best), r\<lparr>rs_mcache := mc_Put (clk 2) key (CEvent best) mc1\<rparr>))))"

definition server_tags :: "string list list \<Rightarrow> string list" where
  "server_tags tags = map (\<lambda>t. t ! 1) (filter (\<lambda>t. length t \<ge> 2 \<and> t ! 0 = ''server'') tags)"

definition BlossomServers :: "pool \<Rightarrow> resolver \<Rightarrow> string \<Rightarrow> string list" where
  "BlossomServers P r pubkey =
     (case newestEvent P (rs_relays r) (empty_filter\<lparr>f_kinds := [10063], f_authors := [pubkey]\<rparr>) False of
        None \<Rightarrow> []
      | Some best \<Rightarrow> server_tags (ev_tags best))"

definition release_key :: "string \<Rightarrow> string \<Rightarrow> string" where
  "release_key publisher name = ''release:'' @ publisher @ '':'' @ name"

definition rs_Release ::
  "ext \<Rightarrow> pool \<Rightarrow> clock \<Rightarrow> string \<Rightarrow> string \<Rightarrow> resolver \<Rightarrow>
     (resolve_error + release option) \<times> resolver" where
  "rs_Release X P clk publisher name r =
     (let key = release_key publisher name
      in case mc_Get (clk 0) key (rs_mcache r) of
           (Some v, mc1) \<Rightarrow>
             (Inr (case v of CRelease rel \<Rightarrow> Some rel | _ \<Rightarrow> None), r\<lparr>rs_mcache := mc1\<rparr>)
         | (None, mc1) \<Rightarrow>
             if mc_Negative (clk 1) key mc1 then (Inr None, r\<lparr>rs_mcache := mc1\<rparr>)
             else
               (case (case rs_catalogue r of None \<Rightarrow> None | Some c \<Rightarrow> cat_Newest X (Some c) publisher name) of
                  Some rel \<Rightarrow> (Inr (Some rel), r\<lparr>rs_mcache := mc_Put (clk 2) key (CRelease rel) mc1\<rparr>)
                | None \<Rightarrow>
                    (case NewestRelease X P (rs_relays r) publisher name of
                       Inl err \<Rightarrow> (Inl (NpkErr err), r\<lparr>rs_mcache := mc1\<rparr>)
                     | Inr None \<Rightarrow> (Inr None, r\<lparr>rs_mcache := mc_PutNegative (clk 2) key mc1\<rparr>)
                     | Inr (Some rel) \<Rightarrow>
                         (Inr (Some rel), r\<lparr>rs_mcache := mc_Put (clk 2) key (CRelease rel) mc1\<rparr>))))"

subsection \<open>The newest event\<close>

fun first_ids :: "string set \<Rightarrow> event list \<Rightarrow> event list" where
  "first_ids seen [] = []"
| "first_ids seen (e # es) =
     (if ev_id e \<in> seen then first_ids seen es else e # first_ids (insert (ev_id e) seen) es)"

lemma fold_newest_hit_plain:
  "snd (fold (newest_hit False) hs (seen, b)) = fold newer (hit_events hs) b"
proof (induction hs arbitrary: seen b)
  case (Cons h hs)
  then show ?case by (cases h) (auto simp: newest_hit_def)
qed simp

lemma fold_newest_hit_dedupe:
  "snd (fold (newest_hit True) hs (seen, b)) = fold newer (first_ids seen (hit_events hs)) b"
proof (induction hs arbitrary: seen b)
  case (Cons h hs)
  then show ?case by (cases h) (auto simp: newest_hit_def)
qed simp

lemma set_first_ids: "set (first_ids seen es) \<subseteq> set es"
  by (induction seen es rule: first_ids.induct) auto

lemma newestEvent_member: "newestEvent P relays f b = Some ev \<Longrightarrow> Some ev \<in> set (P relays f)"
proof -
  assume n: "newestEvent P relays f b = Some ev"
  have "ev \<in> set (hit_events (P relays f))"
  proof (cases b)
    case True
    then have "fold newer (first_ids {} (hit_events (P relays f))) None = Some ev"
      using n by (simp add: newestEvent_def fold_newest_hit_dedupe)
    then show ?thesis
      using newest_first first_newest_member set_first_ids by blast
  next
    case False
    then have "fold newer (hit_events (P relays f)) None = Some ev"
      using n by (simp add: newestEvent_def fold_newest_hit_plain)
    then show ?thesis using newest_first first_newest_member by blast
  qed
  then show ?thesis by (simp add: set_hit_events)
qed

lemma newestEvent_matches: "pool_ok P \<Longrightarrow> newestEvent P relays f b = Some ev \<Longrightarrow> matches f ev"
  using newestEvent_member unfolding pool_ok_def by metis

text \<open>Delivering an event again changes nothing: a repeated event is not newer than itself.\<close>

lemma newer_dup:
  assumes "\<exists>b. best = Some b \<and> ev_created_at ev \<le> ev_created_at b"
  shows "newer ev best = best"
  using assms by (auto simp: newer_simps)

lemma newer_keeps_max:
  "(\<exists>b. best = Some b \<and> t \<le> ev_created_at b) \<Longrightarrow> \<exists>b. newer e best = Some b \<and> t \<le> ev_created_at b"
  by (auto simp: newer_simps)

lemma newer_reaches: "\<exists>b. newer e best = Some b \<and> ev_created_at e \<le> ev_created_at b"
  by (cases best) (auto simp: newer_simps)

lemma dedupe_redundant:
  assumes "\<forall>x y. x \<in> set es \<and> y \<in> S \<union> set es \<and> ev_id x = ev_id y \<longrightarrow> x = y"
    and "\<forall>y \<in> S. \<exists>b. best = Some b \<and> ev_created_at y \<le> ev_created_at b"
  shows "fold newer (first_ids (ev_id ` S) es) best = fold newer es best"
  using assms
proof (induction es arbitrary: S best)
  case (Cons e es)
  show ?case
  proof (cases "ev_id e \<in> ev_id ` S")
    case True
    then have "e \<in> S" using Cons.prems(1) by auto
    then have "newer e best = best" using Cons.prems(2) newer_dup [of best e] by metis
    moreover have "fold newer (first_ids (ev_id ` S) es) best = fold newer es best"
      using Cons.prems by (intro Cons.IH) auto
    ultimately show ?thesis using True by simp
  next
    case False
    have "fold newer (first_ids (ev_id ` insert e S) es) (newer e best) = fold newer es (newer e best)"
    proof (rule Cons.IH)
      show "\<forall>y \<in> insert e S. \<exists>b. newer e best = Some b \<and> ev_created_at y \<le> ev_created_at b"
      proof
        fix y assume "y \<in> insert e S"
        then show "\<exists>b. newer e best = Some b \<and> ev_created_at y \<le> ev_created_at b"
          using newer_reaches [of e best] newer_keeps_max [OF bspec [OF Cons.prems(2), of y], of e]
          by (cases "y = e") auto
      qed
    qed (use Cons.prems(1) in auto)
    then show ?thesis using False by simp
  qed
qed simp

subsection \<open>What the cache holds\<close>

text \<open>Keys are built from 64-character public keys, so a key determines the question.\<close>

lemma split_at_same_length:
  "length a = length b \<Longrightarrow> a @ c = b @ d \<longleftrightarrow> a = b \<and> c = d"
  by simp

lemma key_filter_unique:
  assumes "keyAndFilter st pk d i = Inr (k, f)" and "keyAndFilter st' pk' d' i' = Inr (k, f')"
    and "length pk = 64" and "length pk' = 64"
  shows "f = f' \<and> st = st'"
  using assms by (auto simp: keyAndFilter_def split: site_type.splits if_splits)

lemma key_not_release:
  "keyAndFilter st pk d i = Inr (k, f) \<Longrightarrow> k \<noteq> release_key p n"
  by (auto simp: keyAndFilter_def release_key_def split: site_type.splits if_splits)

lemma release_key_inj:
  "length p = 64 \<Longrightarrow> length p' = 64 \<Longrightarrow> release_key p n = release_key p' n' \<longleftrightarrow> p = p' \<and> n = n'"
  by (auto simp: release_key_def)

text \<open>An answer to a manifest question: a valid manifest that matches the question's filter.\<close>

definition good_manifest :: "ext \<Rightarrow> resolver \<Rightarrow> nfilter \<Rightarrow> event \<Rightarrow> bool" where
  "good_manifest X r f ev \<longleftrightarrow>
     v_valid (Validate X ev \<lparr>ForbiddenPubkeys = rs_forbidden r, MaxPaths = rs_maxPaths r\<rparr>) \<and>
     matches f ev"

definition good_release :: "ext \<Rightarrow> string \<Rightarrow> string \<Rightarrow> release \<Rightarrow> bool" where
  "good_release X publisher name rel \<longleftrightarrow>
     release_ok rel \<and> Publisher rel = publisher \<and> release_from X publisher name rel"

definition good_cached :: "ext \<Rightarrow> resolver \<Rightarrow> string \<Rightarrow> cached \<Rightarrow> bool" where
  "good_cached X r k v =
     (case v of
        CEvent ev \<Rightarrow> \<exists>st pk d i f. length pk = 64 \<and> keyAndFilter st pk d i = Inr (k, f) \<and>
          good_manifest X r f ev
      | CRelease rel \<Rightarrow> \<exists>p n. length p = 64 \<and> k = release_key p n \<and> good_release X p n rel)"

definition rs_inv :: "ext \<Rightarrow> resolver \<Rightarrow> bool" where
  "rs_inv X r \<longleftrightarrow> (\<forall>k v t. mc_items (rs_mcache r) k = Some (v, t) \<longrightarrow> good_cached X r k v)"

lemma mc_Get_cases:
  obtains "fst (mc_Get t k m) = None" "\<And>k' v. mc_items (snd (mc_Get t k m)) k' = Some v \<Longrightarrow> mc_items m k' = Some v"
    | v e where "fst (mc_Get t k m) = Some v" "mc_items m k = Some (v, e)" "snd (mc_Get t k m) = m"
proof (cases "mc_items m k")
  case None
  then show thesis by (intro that(1)) (auto simp: mc_Get_def split: if_splits)
next
  case (Some ve)
  obtain v e where ve: "mc_items m k = Some (v, e)" using Some by (cases ve) auto
  show thesis
  proof (cases "t > e")
    case True
    then show thesis using ve by (intro that(1)) (auto simp: mc_Get_def split: if_splits)
  next
    case False
    then show thesis using ve by (intro that(2)) (auto simp: mc_Get_def)
  qed
qed

lemma good_cached_update [simp]:
  "good_cached X (r\<lparr>rs_mcache := m\<rparr>) k v = good_cached X r k v"
  by (cases v) (simp_all add: good_cached_def good_manifest_def)

lemma rs_inv_get:
  "rs_inv X r \<Longrightarrow> rs_inv X (r\<lparr>rs_mcache := snd (mc_Get t k (rs_mcache r))\<rparr>)"
  by (rule mc_Get_cases [of t k "rs_mcache r"]) (auto simp: rs_inv_def)

lemma rs_inv_put:
  "rs_inv X (r\<lparr>rs_mcache := m\<rparr>) \<Longrightarrow> good_cached X r k v \<Longrightarrow> rs_inv X (r\<lparr>rs_mcache := mc_Put t k v m\<rparr>)"
  by (auto simp: rs_inv_def mc_Put_def)

lemma rs_inv_neg:
  "rs_inv X (r\<lparr>rs_mcache := m\<rparr>) \<Longrightarrow> rs_inv X (r\<lparr>rs_mcache := mc_PutNegative t k m\<rparr>)"
  by (auto simp: rs_inv_def mc_PutNegative_def)

lemma rs_Manifest_cases:
  assumes "keyAndFilter st pk d i = Inr (key, f)" and "rs_Manifest X P clk st pk d i r = (ans, r')"
  obtains (hit) v e where "mc_items (rs_mcache r) key = Some (v, e)" "r' = r"
        "ans = Inr (case v of CEvent ev \<Rightarrow> Some ev | _ \<Rightarrow> None)"
    | (neg) "ans = Inr None" "r' = r\<lparr>rs_mcache := snd (mc_Get (clk 0) key (rs_mcache r))\<rparr>"
    | (none) "ans = Inr None"
        "r' = r\<lparr>rs_mcache := mc_PutNegative (clk 2) key (snd (mc_Get (clk 0) key (rs_mcache r)))\<rparr>"
    | (found) ev where "newestEvent P (rs_relays r) f True = Some ev" "ans = Inr (Some ev)"
        "v_valid (Validate X ev \<lparr>ForbiddenPubkeys = rs_forbidden r, MaxPaths = rs_maxPaths r\<rparr>)"
        "r' = r\<lparr>rs_mcache := mc_Put (clk 2) key (CEvent ev) (snd (mc_Get (clk 0) key (rs_mcache r)))\<rparr>"
proof (cases rule: mc_Get_cases [of "clk 0" key "rs_mcache r"])
  case 1
  then obtain mc1 where g: "mc_Get (clk 0) key (rs_mcache r) = (None, mc1)"
    by (metis prod.collapse)
  note eqs = assms [unfolded rs_Manifest_def] g
  show thesis
  proof (cases "mc_Negative (clk 1) key mc1")
    case True
    show thesis by (rule neg) (use eqs True in auto)
  next
    case fresh: False
    show thesis
    proof (cases "newestEvent P (rs_relays r) f True")
      case None
      show thesis by (rule none) (use eqs fresh None in auto)
    next
      case (Some ev)
      show thesis
      proof (cases "v_valid (Validate X ev \<lparr>ForbiddenPubkeys = rs_forbidden r, MaxPaths = rs_maxPaths r\<rparr>)")
        case True
        show thesis by (rule found [OF Some]) (use eqs fresh Some True in auto)
      next
        case False
        show thesis by (rule none) (use eqs fresh Some False in auto)
      qed
    qed
  qed
next
  case (2 v e)
  then have g: "mc_Get (clk 0) key (rs_mcache r) = (Some v, rs_mcache r)"
    by (metis prod.collapse)
  show thesis
    by (rule hit [OF 2(2)]) (use assms g in \<open>auto simp: rs_Manifest_def\<close>)
qed

lemma rs_Release_cases:
  assumes "rs_Release X P clk p n r = (ans, r')"
  obtains (hit) v e where "mc_items (rs_mcache r) (release_key p n) = Some (v, e)" "r' = r"
        "ans = Inr (case v of CRelease rel \<Rightarrow> Some rel | _ \<Rightarrow> None)"
    | (none) "\<And>rel. ans \<noteq> Inr (Some rel)"
        "r' = r\<lparr>rs_mcache := snd (mc_Get (clk 0) (release_key p n) (rs_mcache r))\<rparr>"
    | (neg) "ans = Inr None" "r' = r\<lparr>rs_mcache := mc_PutNegative (clk 2) (release_key p n)
        (snd (mc_Get (clk 0) (release_key p n) (rs_mcache r)))\<rparr>"
    | (found) rel where "ans = Inr (Some rel)"
        "cat_Newest X (rs_catalogue r) p n = Some rel \<or>
         NewestRelease X P (rs_relays r) p n = Inr (Some rel)"
        "r' = r\<lparr>rs_mcache := mc_Put (clk 2) (release_key p n) (CRelease rel)
          (snd (mc_Get (clk 0) (release_key p n) (rs_mcache r)))\<rparr>"
proof (cases rule: mc_Get_cases [of "clk 0" "release_key p n" "rs_mcache r"])
  case 1
  then obtain mc1 where g: "mc_Get (clk 0) (release_key p n) (rs_mcache r) = (None, mc1)"
    by (metis prod.collapse)
  note eqs = assms [unfolded rs_Release_def Let_def] g
  show thesis
  proof (cases "mc_Negative (clk 1) (release_key p n) mc1")
    case True
    show thesis by (rule none) (use eqs True in auto)
  next
    case fresh: False
    have cat: "(case rs_catalogue r of None \<Rightarrow> None | Some c \<Rightarrow> cat_Newest X (Some c) p n) =
        cat_Newest X (rs_catalogue r) p n"
      by (simp add: cat_Newest_def split: option.splits)
    show thesis
    proof (cases "cat_Newest X (rs_catalogue r) p n")
      case (Some rel)
      show thesis by (rule found [of rel]) (use eqs fresh Some cat in auto)
    next
      case miss: None
      consider e where "NewestRelease X P (rs_relays r) p n = Inl e"
        | "NewestRelease X P (rs_relays r) p n = Inr None"
        | rel where "NewestRelease X P (rs_relays r) p n = Inr (Some rel)"
        by (cases "NewestRelease X P (rs_relays r) p n"; cases "projr (NewestRelease X P (rs_relays r) p n)")
          auto
      then show thesis
      proof cases
        case (1 e)
        show thesis by (rule none) (use eqs fresh miss cat 1 in auto)
      next
        case 2
        show thesis by (rule neg) (use eqs fresh miss cat 2 in auto)
      next
        case (3 rel)
        show thesis by (rule found [of rel]) (use eqs fresh miss cat 3 in auto)
      qed
    qed
  qed
next
  case (2 v e)
  then have g: "mc_Get (clk 0) (release_key p n) (rs_mcache r) = (Some v, rs_mcache r)"
    by (metis prod.collapse)
  show thesis
    by (rule hit [OF 2(2)]) (use assms g in \<open>auto simp: rs_Release_def\<close>)
qed

lemma rs_Manifest_inv:
  assumes "rs_inv X r" and "pool_ok P" and "length pk = 64"
  shows "rs_inv X (snd (rs_Manifest X P clk st pk d i r))"
proof (cases "keyAndFilter st pk d i")
  case (Inl e)
  then show ?thesis using assms(1) by (simp add: rs_Manifest_def)
next
  case (Inr kf)
  obtain key f where k: "keyAndFilter st pk d i = Inr (key, f)" using Inr by (cases kf) auto
  obtain ans r' where m: "rs_Manifest X P clk st pk d i r = (ans, r')" by force
  have g: "rs_inv X (r\<lparr>rs_mcache := snd (mc_Get (clk 0) key (rs_mcache r))\<rparr>)"
    using rs_inv_get [OF assms(1)] .
  show ?thesis
    using k m
  proof (cases rule: rs_Manifest_cases)
    case (found ev)
    have "good_cached X r key (CEvent ev)"
      using found(3) newestEvent_matches [OF assms(2) found(1)] k assms(3)
      unfolding good_cached_def good_manifest_def cached.case by blast
    then show ?thesis using rs_inv_put [OF g] found(4) m by simp
  qed (use assms(1) g m rs_inv_neg in auto)
qed

lemma rs_Release_inv:
  assumes "rs_inv X r" and "pool_ok P" and "length p = 64"
  shows "rs_inv X (snd (rs_Release X P clk p n r))"
proof -
  obtain ans r' where m: "rs_Release X P clk p n r = (ans, r')" by force
  have g: "rs_inv X (r\<lparr>rs_mcache := snd (mc_Get (clk 0) (release_key p n) (rs_mcache r))\<rparr>)"
    using rs_inv_get [OF assms(1)] .
  show ?thesis
    using m
  proof (cases rule: rs_Release_cases)
    case (found rel)
    have "good_release X p n rel"
      using found(2) cat_newest_ok cat_newest_from newest_release_ok [OF assms(2)] newest_release_from [OF assms(2)]
      unfolding good_release_def by blast
    then have "good_cached X r (release_key p n) (CRelease rel)"
      using assms(3) unfolding good_cached_def by auto
    then show ?thesis using rs_inv_put [OF g] found(3) m by simp
  qed (use assms(1) g m rs_inv_neg in auto)
qed

lemma rs_Manifest_good:
  assumes "rs_inv X r" and "pool_ok P" and "length pk = 64"
    and "fst (rs_Manifest X P clk st pk d i r) = Inr (Some ev)"
  shows "\<exists>key f. keyAndFilter st pk d i = Inr (key, f) \<and> good_manifest X r f ev"
proof (cases "keyAndFilter st pk d i")
  case (Inl e)
  then show ?thesis using assms(4) by (simp add: rs_Manifest_def)
next
  case (Inr kf)
  obtain key f where k: "keyAndFilter st pk d i = Inr (key, f)" using Inr by (cases kf) auto
  obtain ans r' where m: "rs_Manifest X P clk st pk d i r = (ans, r')" by force
  have ans: "ans = Inr (Some ev)" using assms(4) m by simp
  show ?thesis
    using k m
  proof (cases rule: rs_Manifest_cases)
    case (hit v e)
    then have "v = CEvent ev" using ans by (cases v) auto
    then have "good_cached X r key (CEvent ev)" using hit(1) assms(1) by (auto simp: rs_inv_def)
    then obtain st' pk' d' i' f' where "length pk' = 64" "keyAndFilter st' pk' d' i' = Inr (key, f')"
        "good_manifest X r f' ev" by (auto simp: good_cached_def)
    then show ?thesis using key_filter_unique [OF k _ assms(3)] k by blast
  next
    case (found ev')
    then show ?thesis
      using ans k newestEvent_matches [OF assms(2) found(1)] by (auto simp: good_manifest_def)
  qed (use ans in auto)
qed

lemma rs_Release_good:
  assumes "rs_inv X r" and "pool_ok P" and "length p = 64"
    and "fst (rs_Release X P clk p n r) = Inr (Some rel)"
  shows "good_release X p n rel"
proof -
  obtain ans r' where m: "rs_Release X P clk p n r = (ans, r')" by force
  have ans: "ans = Inr (Some rel)" using assms(4) m by simp
  show ?thesis
    using m
  proof (cases rule: rs_Release_cases)
    case (hit v e)
    then have "v = CRelease rel" using ans by (cases v) auto
    then have "good_cached X r (release_key p n) (CRelease rel)" using hit(1) assms(1) by (auto simp: rs_inv_def)
    then show ?thesis using release_key_inj [OF assms(3)] by (auto simp: good_cached_def)
  next
    case (found rel')
    then show ?thesis
      using ans cat_newest_ok cat_newest_from newest_release_ok [OF assms(2)] newest_release_from [OF assms(2)]
      unfolding good_release_def by blast
  qed (use ans in auto)
qed

subsection \<open>The resolver as a checked service\<close>

datatype question =
  QManifest pool clock site_type string string string
| QRelease pool clock string string

fun rs_ask :: "ext \<Rightarrow> question \<Rightarrow> resolver \<Rightarrow> cached option \<times> resolver" where
  "rs_ask X (QManifest P clk st pk d i) r =
     (case rs_Manifest X P clk st pk d i r of
        (Inr (Some ev), r') \<Rightarrow> (Some (CEvent ev), r') | (_, r') \<Rightarrow> (None, r'))"
| "rs_ask X (QRelease P clk p n) r =
     (case rs_Release X P clk p n r of
        (Inr (Some rel), r') \<Rightarrow> (Some (CRelease rel), r') | (_, r') \<Rightarrow> (None, r'))"

fun question_ok :: "question \<Rightarrow> bool" where
  "question_ok (QManifest P clk st pk d i) \<longleftrightarrow> pool_ok P \<and> length pk = 64"
| "question_ok (QRelease P clk p n) \<longleftrightarrow> pool_ok P \<and> length p = 64"

fun answer_ok :: "ext \<Rightarrow> options \<Rightarrow> question \<Rightarrow> cached \<Rightarrow> bool" where
  "answer_ok X opts (QManifest P clk st pk d i) (CEvent ev) \<longleftrightarrow>
     v_valid (Validate X ev opts) \<and> (\<exists>k f. keyAndFilter st pk d i = Inr (k, f) \<and> matches f ev)"
| "answer_ok X opts (QRelease P clk p n) (CRelease rel) \<longleftrightarrow> good_release X p n rel"
| "answer_ok X opts _ _ \<longleftrightarrow> False"

definition rs_options :: "resolver \<Rightarrow> options" where
  "rs_options r = \<lparr>ForbiddenPubkeys = rs_forbidden r, MaxPaths = rs_maxPaths r\<rparr>"

lemma rs_ask_snd:
  "snd (rs_ask X (QManifest P clk st pk d i) r) = snd (rs_Manifest X P clk st pk d i r)"
  "snd (rs_ask X (QRelease P clk p n) r) = snd (rs_Release X P clk p n r)"
  by (auto split: prod.splits sum.splits option.splits)

lemma rs_ask_fst:
  "fst (rs_ask X (QManifest P clk st pk d i) r) = Some a \<longleftrightarrow>
     (\<exists>ev. a = CEvent ev \<and> fst (rs_Manifest X P clk st pk d i r) = Inr (Some ev))"
  "fst (rs_ask X (QRelease P clk p n) r) = Some a \<longleftrightarrow>
     (\<exists>rel. a = CRelease rel \<and> fst (rs_Release X P clk p n r) = Inr (Some rel))"
  by (auto split: prod.splits sum.splits option.splits)

lemma rs_options_Manifest: "rs_options (snd (rs_Manifest X P clk st pk d i r)) = rs_options r"
proof (cases "keyAndFilter st pk d i")
  case (Inr kf)
  obtain key f where k: "keyAndFilter st pk d i = Inr (key, f)" using Inr by (cases kf) auto
  obtain ans r' where m: "rs_Manifest X P clk st pk d i r = (ans, r')" by force
  show ?thesis using k m by (cases rule: rs_Manifest_cases) (simp_all add: m rs_options_def)
qed (simp add: rs_Manifest_def)

lemma rs_options_Release: "rs_options (snd (rs_Release X P clk p n r)) = rs_options r"
proof -
  obtain ans r' where m: "rs_Release X P clk p n r = (ans, r')" by force
  then show ?thesis by (cases rule: rs_Release_cases) (simp_all add: m rs_options_def)
qed

interpretation rsv: checked_service
  "\<lambda>r. rs_inv X r \<and> rs_options r = opts" "rs_ask X" question_ok "answer_ok X opts" for X opts
proof unfold_locales
  fix r q assume inv: "rs_inv X r \<and> rs_options r = opts" and ok: "question_ok q"
  show "rs_inv X (snd (rs_ask X q r)) \<and> rs_options (snd (rs_ask X q r)) = opts"
    using inv ok rs_Manifest_inv rs_Release_inv rs_options_Manifest rs_options_Release
    by (cases q) (simp_all only: rs_ask_snd question_ok.simps)
  fix a assume a: "fst (rs_ask X q r) = Some a"
  show "answer_ok X opts q a"
  proof (cases q)
    case (QManifest P clk st pk d i)
    then obtain ev where "a = CEvent ev" "fst (rs_Manifest X P clk st pk d i r) = Inr (Some ev)"
      using a by (auto simp only: rs_ask_fst)
    then show ?thesis
      using rs_Manifest_good [of X r P pk clk st d i ev] inv ok QManifest
      by (auto simp: good_manifest_def rs_options_def)
  next
    case (QRelease P clk p n)
    then obtain rel where "a = CRelease rel" "fst (rs_Release X P clk p n r) = Inr (Some rel)"
      using a by (auto simp only: rs_ask_fst)
    then show ?thesis using rs_Release_good [of X r P p clk n rel] inv ok QRelease by simp
  qed
qed

definition rs_run :: "ext \<Rightarrow> question list \<Rightarrow> resolver \<Rightarrow> resolver" where
  "rs_run X qs r = fold (\<lambda>q r. snd (rs_ask X q r)) qs r"

lemma rs_New_inv: "rs_inv X (rs_New relays (NewManifestCache t nt) F N cats)"
  by (simp add: rs_inv_def rs_New_def NewManifestCache_def)

lemma manifest_site:
  assumes "sha256_ok X" and "v_valid (Validate X ev opts)" and "keyAndFilter st pk d i = Inr (k, f)"
    and "matches f ev"
  shows "site_type_of (ev_kind ev) = st \<and>
    (if st = SiteSnapshot then ev_id ev = i else ev_pubkey ev = pk)"
  using assms(3,4)
  by (auto simp: keyAndFilter_def matches_def empty_filter_def site_type_of_def kind_defs
      split: site_type.splits if_splits)

text \<open>A valid manifest carries the identifier it was asked for as its only \<open>d\<close> tag.\<close>

lemma manifest_exact:
  assumes "sha256_ok X" and "v_valid (Validate X ev opts)" and "keyAndFilter st pk d i = Inr (k, f)"
    and "matches f ev"
  shows "st = SiteRoot \<longrightarrow> tagValues (ev_tags ev) ''d'' = []"
    and "st = SiteNamed \<longrightarrow> tagValues (ev_tags ev) ''d'' = [d]"
proof -
  have ok: "manifest_ok X opts ev" using assms(1,2) Validate_valid by blast
  have kind: "site_type_of (ev_kind ev) = st" using manifest_site [OF assms] by simp
  show "st = SiteRoot \<longrightarrow> tagValues (ev_tags ev) ''d'' = []"
    using ok kind by (auto simp: manifest_ok_def Let_def site_type_of_def split: if_splits)
  show "st = SiteNamed \<longrightarrow> tagValues (ev_tags ev) ''d'' = [d]"
  proof
    assume named: "st = SiteNamed"
    then have "ev_kind ev = KindNamed" using kind by (auto simp: site_type_of_def split: if_splits)
    then obtain d' where d': "tagValues (ev_tags ev) ''d'' = [d']" using manifest_ok_d [OF ok] by blast
    have "tag_matches ev (''d'', [d])"
      using assms(3,4) named by (auto simp: keyAndFilter_def matches_def split: if_splits)
    then obtain t where "t \<in> set (ev_tags ev)" "length t \<ge> 2" "t ! 0 = ''d''" "t ! 1 = d"
      by (auto simp: tag_matches_def list_ex_iff)
    then have "d \<in> set (tagValues (ev_tags ev) ''d'')"
      by (auto simp: tagValues_def tagName_def intro!: image_eqI [of _ _ t] split: list.splits)
    with d' show "tagValues (ev_tags ev) ''d'' = [d]" by simp
  qed
qed

subsection \<open>Properties\<close>

definition sample_resolver :: resolver where
  "sample_resolver = rs_New [''wss://r''] (NewManifestCache 60 30) {} 0 []"

lemma sample_resolve:
  "rs_Manifest sample_ext (relay_of [sample_manifest]) clk SiteRoot zeros64 [] [] sample_resolver =
     (Inr (Some sample_manifest), sample_resolver\<lparr>rs_mcache :=
        mc_Put (clk 2) (''root:'' @ zeros64) (CEvent sample_manifest)
          (snd (mc_Get (clk 0) (''root:'' @ zeros64) (rs_mcache sample_resolver)))\<rparr>)"
proof -
  let ?f = "empty_filter\<lparr>f_kinds := [KindRoot], f_authors := [zeros64]\<rparr>"
  have "matches ?f sample_manifest"
    by (simp add: matches_def empty_filter_def sample_manifest_def)
  then have n: "newestEvent (relay_of [sample_manifest]) [''wss://r''] ?f True = Some sample_manifest"
    by (simp add: newestEvent_def relay_of_def newest_hit_def newer_simps)
  have v: "v_valid (Validate sample_ext sample_manifest \<lparr>ForbiddenPubkeys = {}, MaxPaths = 0\<rparr>)"
    using sample_manifest_valid by (simp add: sample_options_def)
  show ?thesis
    by (simp add: rs_Manifest_def keyAndFilter_def sample_resolver_def rs_New_def NewManifestCache_def
        mc_Get_def mc_Negative_def n v)
qed

text \<open>Two named sites of one author.\<close>

definition named_manifest :: "string \<Rightarrow> event" where
  "named_manifest d = sample_manifest\<lparr>ev_kind := KindNamed, ev_tags := [''d'', d] # ev_tags sample_manifest\<rparr>"

lemma named_manifest_valid:
  assumes "IsValidD d"
  shows "v_valid (Validate sample_ext (named_manifest d) \<lparr>ForbiddenPubkeys = {}, MaxPaths = 0\<rparr>)"
proof -
  have "manifest_ok sample_ext \<lparr>ForbiddenPubkeys = {}, MaxPaths = 0\<rparr> (named_manifest d)"
    using sample_path_ok zeros64_hex64 assms
    by (simp add: manifest_ok_def named_manifest_def sample_manifest_def sample_ext_def kind_defs
        tagValues_def tagName_def pathTags_of_def filterTags_def path_tag_ok_def max_paths_of_def Let_def)
  then show ?thesis using Validate_valid [OF sample_ext_ok(1)] by blast
qed

lemma sample_ids: "IsValidD ''blog''" "IsValidD ''news''"
  by code_simp+

lemma named_newest:
  fixes d :: string
  defines "f \<equiv> empty_filter\<lparr>f_kinds := [KindNamed], f_authors := [zeros64], f_tags := [(''d'', [d])]\<rparr>"
  shows "d = ''blog'' \<or> d = ''news'' \<Longrightarrow>
    newestEvent (relay_of [named_manifest ''blog'', named_manifest ''news'']) [''wss://r''] f True =
      Some (named_manifest d)"
proof -
  have m: "matches f (named_manifest e) \<longleftrightarrow> e = d" for e
    by (auto simp: f_def matches_def empty_filter_def named_manifest_def sample_manifest_def tag_matches_def)
  show "d = ''blog'' \<or> d = ''news'' \<Longrightarrow> ?thesis"
    by (auto simp: newestEvent_def relay_of_def m newest_hit_def newer_simps)
qed

lemma named_resolve:
  assumes "d = ''blog'' \<or> d = ''news''" and "mc_items (rs_mcache r) (''named:'' @ zeros64 @ '':'' @ d) = None"
    and "mc_negated (rs_mcache r) (''named:'' @ zeros64 @ '':'' @ d) = None"
    and "rs_relays r = [''wss://r'']" and "rs_options r = \<lparr>ForbiddenPubkeys = {}, MaxPaths = 0\<rparr>"
  shows "fst (rs_Manifest sample_ext (relay_of [named_manifest ''blog'', named_manifest ''news'']) clk SiteNamed zeros64
      d [] r) = Inr (Some (named_manifest d))"
  using assms named_newest [OF assms(1)] named_manifest_valid sample_ids
  by (auto simp: rs_Manifest_def keyAndFilter_def mc_Get_def mc_Negative_def rs_options_def)

text \<open>C16: Only valid manifests of the asked site are ever returned. From a consistent resolver
  (a new one is), after any sequence of manifest and release questions and with relays that
  deliver anything matching the filters, what \<^verbatim>\<open>Resolver.Manifest\<close> returns passes
  validation and has the asked kind, and identifies the asked site: the author and no \<open>d\<close> tag
  for a root site, the author and the identifier as the only \<open>d\<close> tag for a named site, the
  event id for a snapshot; in particular no cached entry of another site, of another
  identifier of the same author or of another type is ever confused with it.\<close>

theorem resolver_manifest_checked:
  assumes "sha256_ok X" and "rs_inv X r" and "list_all question_ok qs"
    and "pool_ok P" and "length pk = 64"
    and "fst (rs_Manifest X P clk st pk d i (rs_run X qs r)) = Inr (Some ev)"
  shows "v_valid (Validate X ev (rs_options r)) \<and> site_type_of (ev_kind ev) = st \<and>
    (case st of
       SiteRoot \<Rightarrow> ev_pubkey ev = pk \<and> tagValues (ev_tags ev) ''d'' = []
     | SiteNamed \<Rightarrow> ev_pubkey ev = pk \<and> tagValues (ev_tags ev) ''d'' = [d]
     | SiteSnapshot \<Rightarrow> ev_id ev = i
     | SiteNone \<Rightarrow> False)"
proof -
  have "answer_ok X (rs_options r) (QManifest P clk st pk d i) (CEvent ev)"
    using assms(2-6) unfolding rs_run_def
    by (intro rsv.asked_good [of X r "rs_options r" qs]) (simp_all add: rs_ask_fst del: rs_ask.simps)
  then obtain k f where valid: "v_valid (Validate X ev (rs_options r))"
    and kf: "keyAndFilter st pk d i = Inr (k, f)" "matches f ev" by auto
  have "st \<noteq> SiteNone" using kf(1) by (auto simp: keyAndFilter_def)
  then show ?thesis
    using valid manifest_site [OF assms(1) valid kf] manifest_exact [OF assms(1) valid kf]
    by (cases st) auto
qed

theorem resolver_manifest_checked_witness:
  "tagValues (ev_tags (named_manifest ''blog'')) ''d'' = [''blog''] \<and>
   ev_pubkey (named_manifest ''blog'') = zeros64"
proof -
  let ?P = "relay_of [named_manifest ''blog'', named_manifest ''news'']"
  let ?ask = "QManifest ?P (\<lambda>_. 0) SiteNamed zeros64 ''news'' []"
  let ?r = "rs_run sample_ext [?ask] sample_resolver"
  have fresh: "rs_relays sample_resolver = [''wss://r'']"
    "rs_options sample_resolver = \<lparr>ForbiddenPubkeys = {}, MaxPaths = 0\<rparr>"
    "rs_mcache sample_resolver = NewManifestCache 60 30"
    by (simp_all add: sample_resolver_def rs_New_def rs_options_def)
  have "?r = snd (rs_Manifest sample_ext ?P (\<lambda>_. 0) SiteNamed zeros64 ''news'' [] sample_resolver)"
    by (simp add: rs_run_def rs_ask_snd del: rs_ask.simps)
  also have "\<dots> = sample_resolver\<lparr>rs_mcache := mc_Put 0 (''named:'' @ zeros64 @ '':news'')
      (CEvent (named_manifest ''news'')) (NewManifestCache 60 30)\<rparr>"
    using named_newest [of "''news''"] named_manifest_valid [OF sample_ids(2)] fresh
    by (simp add: rs_Manifest_def keyAndFilter_def mc_Get_def mc_Negative_def rs_options_def NewManifestCache_def)
  finally have r: "?r = \<dots>" .
  have "fst (rs_Manifest sample_ext ?P (\<lambda>_. 1) SiteNamed zeros64 ''blog'' [] ?r) =
      Inr (Some (named_manifest ''blog''))"
    unfolding r by (rule named_resolve)
      (use fresh in \<open>simp_all add: mc_Put_def NewManifestCache_def rs_options_def\<close>)
  moreover have "rs_inv sample_ext sample_resolver" unfolding sample_resolver_def by (rule rs_New_inv)
  moreover have "list_all question_ok [?ask]" using relay_of_ok zeros64_hex64 by (simp add: hex64_def)
  ultimately show ?thesis
    using resolver_manifest_checked [OF sample_ext_ok(1), of sample_resolver "[?ask]" ?P zeros64 "\<lambda>_. 1" SiteNamed
        "''blog''" "[]" "named_manifest ''blog''"] relay_of_ok zeros64_hex64
    by (simp add: hex64_def del: rs_ask.simps)
qed

text \<open>C5: Only releases of the asked package are ever returned. From a consistent resolver, after any
  sequence of manifest and release questions and with relays that deliver anything matching
  the filters, what \<^verbatim>\<open>Resolver.Release\<close> returns, whether from the cache, the catalogue or the
  relays, was parsed from a kind-9900 event of the asked publisher that is selected by the asked
  name, and has that publisher, a name, a version and a digest of 64 lowercase hexadecimal
  characters; no cached manifest and no cached release of another package is confused with it.\<close>

theorem resolver_release_checked:
  assumes "rs_inv X r" and "list_all question_ok qs" and "pool_ok P" and "length p = 64"
    and "fst (rs_Release X P clk p n (rs_run X qs r)) = Inr (Some rel)"
  shows "(\<exists>ev. ev_kind ev = KindRelease \<and> ev_pubkey ev = p \<and> releaseName ev = n \<and>
      parseRelease X (Some ev) = Some rel) \<and>
    Publisher rel = p \<and> Name rel \<noteq> [] \<and> Version rel \<noteq> [] \<and> hex64 (SHA256 rel)"
proof -
  have "answer_ok X (rs_options r) (QRelease P clk p n) (CRelease rel)"
    using assms unfolding rs_run_def
    by (intro rsv.asked_good [of X r "rs_options r" qs]) (simp_all add: rs_ask_fst del: rs_ask.simps)
  then show ?thesis by (simp add: good_release_def release_from_def release_ok_def)
qed

text \<open>The sample resolver has cached the answer to a question about another package before.\<close>

theorem resolver_release_checked_witness:
  "(\<exists>ev. ev_pubkey ev = sample_pk \<and> releaseName ev = ''root'' \<and>
      parseRelease sample_ext (Some ev) = Some sample_release) \<and> hex64 (SHA256 sample_release)"
proof -
  let ?P = "relay_of [sample_release_event]"
  let ?qs = "[QRelease ?P (\<lambda>_. 0) sample_pk ''other'']"
  have other: "NewestRelease sample_ext ?P [''wss://r''] sample_pk ''other'' = Inr None"
    by (simp add: NewestRelease_def relay_of_def release_hit_def sample_release_event_def releaseName_def
        matches_def empty_filter_def)
  have "fst (rs_Release sample_ext ?P (\<lambda>_. 0) sample_pk ''root'' (rs_run sample_ext ?qs sample_resolver)) =
      Inr (Some sample_release)"
    by (simp add: rs_Release_def rs_run_def sample_resolver_def rs_New_def NewManifestCache_def
        mc_Get_def mc_Negative_def mc_PutNegative_def release_key_def Let_def sample_newest other)
  moreover have "rs_inv sample_ext sample_resolver"
    unfolding sample_resolver_def by (rule rs_New_inv)
  moreover have len: "length sample_pk = 64" unfolding sample_pk_def length_replicate by (rule refl)
  moreover have "list_all question_ok ?qs" using len relay_of_ok by simp
  ultimately show ?thesis
    using resolver_release_checked [of sample_ext sample_resolver ?qs ?P
        sample_pk "\<lambda>_. 0" "''root''" sample_release] relay_of_ok by blast
qed

text \<open>Answers are memoised. When a question has no fresh cached answer, the answer given then
  is given again until it expires (the positive or the negative lifetime), whatever the
  relays would say by then.\<close>

lemma manifest_memoised:
  assumes "keyAndFilter st pk d i = Inr (key, f)"
    and "fst (mc_Get (clk 0) key (rs_mcache r)) = None" and "\<not> mc_Negative (clk 1) key (rs_mcache r)"
    and "rs_Manifest X P clk st pk d i r = (ans, r')"
    and "clk' 0 \<le> clk 2 + mc_ttl (rs_mcache r)" and "clk' 1 \<le> clk 2 + mc_neg_ttl (rs_mcache r)"
  shows "fst (rs_Manifest X P' clk' st pk d i r') = ans"
proof -
  obtain mc1 where g: "mc_Get (clk 0) key (rs_mcache r) = (None, mc1)"
    using assms(2) by (metis prod.collapse)
  have ttl: "mc_ttl mc1 = mc_ttl (rs_mcache r)" "mc_neg_ttl mc1 = mc_neg_ttl (rs_mcache r)"
    using mc.ttl_get [of "clk 0" key "rs_mcache r"] g by auto
  have "\<not> mc_Negative (clk 1) key mc1"
    using assms(3) mc.neg_get [of "clk 1" key "clk 0" key "rs_mcache r"] g by simp
  then consider "ans = Inr None" "r' = r\<lparr>rs_mcache := mc_PutNegative (clk 2) key mc1\<rparr>"
    | ev where "ans = Inr (Some ev)" "r' = r\<lparr>rs_mcache := mc_Put (clk 2) key (CEvent ev) mc1\<rparr>"
    using assms(1,4) g by (auto simp: rs_Manifest_def split: option.splits if_splits)
  then show ?thesis
  proof cases
    case 1
    have "fst (mc_Get (clk' 0) key (rs_mcache r')) = None"
      by (simp add: 1 mc.put_neg_excludes)
    then obtain mc2 where g2: "mc_Get (clk' 0) key (rs_mcache r') = (None, mc2)"
      by (metis prod.collapse)
    have "mc_Negative (clk' 1) key mc2"
      using mc.neg_get [of "clk' 1" key "clk' 0" key "rs_mcache r'"] g2 assms(6) ttl
      by (simp add: 1 mc.neg_put_neg)
    then show ?thesis using assms(1) g2 1 by (simp add: rs_Manifest_def)
  next
    case (2 ev)
    have "fst (mc_Get (clk' 0) key (rs_mcache r')) = Some (CEvent ev)"
      using assms(5) ttl by (simp add: 2 mc.get_put)
    then obtain mc2 where "mc_Get (clk' 0) key (rs_mcache r') = (Some (CEvent ev), mc2)"
      by (metis prod.collapse)
    then show ?thesis using assms(1) 2 by (simp add: rs_Manifest_def)
  qed
qed

lemma manifest_memoised_witness:
  "fst (rs_Manifest sample_ext (relay_of []) (\<lambda>_. 9) SiteRoot zeros64 [] []
     (snd (rs_Manifest sample_ext (relay_of [sample_manifest]) (\<lambda>_. 0) SiteRoot zeros64 [] []
       sample_resolver))) = Inr (Some sample_manifest)"
  using manifest_memoised [OF _ _ _ sample_resolve [of "\<lambda>_. 0"],
      of "''root:'' @ zeros64" _ "\<lambda>_. 9" "relay_of []"]
  by (simp add: sample_resolve keyAndFilter_def)
    (simp add: sample_resolver_def rs_New_def NewManifestCache_def mc_Get_def mc_Negative_def)

text \<open>Skipping repeated deliveries does not matter: when events with the same id are the same
  event, the newest event is the same with and without it, and it is the first of the
  newest events that were delivered.\<close>

lemma newest_event_dedupe:
  assumes "\<forall>x y. Some x \<in> set (P relays f) \<and> Some y \<in> set (P relays f) \<and> ev_id x = ev_id y \<longrightarrow> x = y"
  shows "newestEvent P relays f True = newestEvent P relays f False \<and>
    (newestEvent P relays f True = Some ev \<longleftrightarrow> first_newest (hit_events (P relays f)) ev)"
proof -
  have "fold newer (first_ids (ev_id ` {}) (hit_events (P relays f))) None =
      fold newer (hit_events (P relays f)) None"
    using dedupe_redundant [of "hit_events (P relays f)" "{}" None] assms
    by (simp add: set_hit_events)
  then show ?thesis
    by (simp add: newestEvent_def fold_newest_hit_dedupe fold_newest_hit_plain newest_Some)
qed

lemma newest_event_dedupe_witness:
  "newestEvent (\<lambda>_ _. [Some sample_manifest, None, Some sample_manifest]) [] empty_filter True =
     Some sample_manifest"
proof -
  let ?P = "\<lambda>_ _. [Some sample_manifest, None, Some sample_manifest]"
  have "newestEvent ?P [] empty_filter True = newestEvent ?P [] empty_filter False"
    using newest_event_dedupe [of ?P "[]" empty_filter sample_manifest] by auto
  then show ?thesis
    by (simp add: newestEvent_def newest_hit_def newer_simps)
qed

subsection \<open>Newest first, then valid\<close>

text \<open>A newer manifest that is not valid hides an older one that is: the newest event is chosen
  before it is validated, and the miss is cached.\<close>

definition newer_invalid :: event where
  "newer_invalid = sample_manifest\<lparr>ev_id := ''x'', ev_created_at := 2, ev_tags := []\<rparr>"

lemma newer_invalid_hides:
  "fst (rs_Manifest sample_ext (relay_of [sample_manifest, newer_invalid]) clk SiteRoot zeros64 [] []
     sample_resolver) = Inr None"
proof -
  let ?f = "empty_filter\<lparr>f_kinds := [KindRoot], f_authors := [zeros64]\<rparr>"
  have "matches ?f sample_manifest" "matches ?f newer_invalid"
    by (simp_all add: matches_def empty_filter_def sample_manifest_def newer_invalid_def)
  moreover have "ev_created_at newer_invalid = 2" "ev_created_at sample_manifest = 1"
    "ev_id newer_invalid = ''x''" "ev_id sample_manifest = zeros64"
    by (simp_all add: newer_invalid_def sample_manifest_def)
  moreover have "length zeros64 \<noteq> length ''x''" using zeros64_hex64 by (simp add: hex64_def)
  then have "zeros64 \<noteq> ''x''" by metis
  ultimately have n: "newestEvent (relay_of [sample_manifest, newer_invalid]) [''wss://r''] ?f True =
      Some newer_invalid"
    by (simp add: newestEvent_def relay_of_def newest_hit_def newer_simps)
  have "\<not> manifest_ok sample_ext \<lparr>ForbiddenPubkeys = {}, MaxPaths = 0\<rparr> newer_invalid"
    by (simp add: manifest_ok_def newer_invalid_def pathTags_of_def tagName_def)
  then have v: "\<not> v_valid (Validate sample_ext newer_invalid \<lparr>ForbiddenPubkeys = {}, MaxPaths = 0\<rparr>)"
    using Validate_valid [OF sample_ext_ok(1)] by blast
  show ?thesis
    by (simp add: rs_Manifest_def keyAndFilter_def sample_resolver_def rs_New_def NewManifestCache_def
        mc_Get_def mc_Negative_def n v)
qed

end
