(* ===== verification/GoNet.thy ===== *)
theory GoNet
  imports Prelude Codec "HOL-Library.Word"
begin

section \<open>Addresses: the part of \<^verbatim>\<open>net\<close> and \<^verbatim>\<open>net/netip\<close> the program uses\<close>

text \<open>
  \<open>SplitHostPort\<close>, \<open>ParseIP\<close> and the predicates of \<^verbatim>\<open>net.IP\<close>. \<open>ParseIP\<close> gives 16 bytes for an
  IPv6 address and for an IPv4 one (as \<open>::ffff:a.b.c.d\<close>), and nil for anything else, an
  address with a zone included. A dotted quad is split at its dots; the IPv6 loop is the
  library's, with the bytes parsed so far and the position of the ellipsis as its state.
\<close>

unbundle bit_operations_syntax

type_synonym ip = "8 word list"

subsection \<open>\<open>SplitHostPort\<close>\<close>

datatype addr_error = MissingPort | TooManyColons | MissingBracket | UnexpectedBracket

definition SplitHostPort :: "string \<Rightarrow> addr_error + string \<times> string" where
  "SplitHostPort hostport =
     (case LastIndexByte hostport (CHR '':'') of
        None \<Rightarrow> Inl MissingPort
      | Some i \<Rightarrow>
          if hd hostport = CHR ''['' then
            (case IndexByte hostport (CHR '']'') of
               None \<Rightarrow> Inl MissingBracket
             | Some e \<Rightarrow>
                 if Suc e = length hostport then Inl MissingPort
                 else if Suc e \<noteq> i then
                   (if hostport ! Suc e = CHR '':'' then Inl TooManyColons else Inl MissingPort)
                 else if CHR ''['' \<in> set (drop 1 hostport) then Inl UnexpectedBracket
                 else if CHR '']'' \<in> set (drop (Suc e) hostport) then Inl UnexpectedBracket
                 else Inr (take (e - 1) (drop 1 hostport), drop (Suc i) hostport))
          else if CHR '':'' \<in> set (take i hostport) then Inl TooManyColons
          else if CHR ''['' \<in> set hostport then Inl UnexpectedBracket
          else if CHR '']'' \<in> set hostport then Inl UnexpectedBracket
          else Inr (take i hostport, drop (Suc i) hostport))"

subsection \<open>\<open>ParseIP\<close>\<close>

text \<open>One field of a dotted quad: decimal digits, no leading zero, at most 255.\<close>

definition dec_val :: "string \<Rightarrow> nat" where
  "dec_val s = foldl (\<lambda>v c. 10 * v + (byte c - 48)) 0 s"

definition parse_octet :: "string \<Rightarrow> 8 word option" where
  "parse_octet s =
     (if s \<noteq> [] \<and> list_all is_digit s \<and> (length s = 1 \<or> hd s \<noteq> CHR ''0'') \<and>
         length s \<le> 3 \<and> dec_val s \<le> 255
      then Some (of_nat (dec_val s)) else None)"

definition parseIPv4 :: "string \<Rightarrow> ip option" where
  "parseIPv4 s =
     (case map parse_octet (Split s ''.'') of
        [Some a, Some b, Some c, Some d] \<Rightarrow> Some [a, b, c, d]
      | _ \<Rightarrow> None)"

text \<open>The leading hexadecimal digits of a group.\<close>

definition hex_run :: "string \<Rightarrow> string" where
  "hex_run s = takeWhile (\<lambda>c. hex_val c \<noteq> None) s"

definition group_val :: "string \<Rightarrow> nat" where
  "group_val s = foldl (\<lambda>v c. 16 * v + the (hex_val c)) 0 s"

text \<open>The loop over the groups: the bytes so far, where the ellipsis is, and the rest of the
  address. It returns the final bytes and ellipsis once the rest is used up.\<close>

function v6_groups :: "ip \<Rightarrow> nat option \<Rightarrow> string \<Rightarrow> (ip \<times> nat option) option" where
  "v6_groups bs ell s =
     (if length bs \<ge> 16 then (if s = [] then Some (bs, ell) else None)
      else
        (let off = length (hex_run s)
         in if off = 0 \<or> off > 4 then None
            else if off < length s \<and> s ! off = CHR ''.'' then
              (if ell = None \<and> length bs \<noteq> 12 then None
               else if length bs + 4 > 16 then None
               else map_option (\<lambda>v4. (bs @ v4, ell)) (parseIPv4 s))
            else
              (let v = group_val (hex_run s);
                   bs' = bs @ [of_nat (v div 256), of_nat (v mod 256)];
                   s1 = drop off s
               in if s1 = [] then Some (bs', ell)
                  else if hd s1 \<noteq> CHR '':'' then None
                  else if length s1 = 1 then None
                  else
                    (let s2 = tl s1
                     in if hd s2 = CHR '':'' then
                          (if ell \<noteq> None then None
                           else if tl s2 = [] then Some (bs', Some (length bs'))
                           else v6_groups bs' (Some (length bs')) (tl s2))
                        else v6_groups bs' ell s2))))"
  by pat_completeness auto
termination
  by (relation "measure (\<lambda>(bs, ell, s). length s)") auto

declare v6_groups.simps [simp del]

definition parseIPv6 :: "string \<Rightarrow> ip option" where
  "parseIPv6 s =
     (if s = ''::'' then Some (replicate 16 0)
      else
        (case (if HasPrefix s ''::'' then v6_groups [] (Some 0) (drop 2 s) else v6_groups [] None s) of
           None \<Rightarrow> None
         | Some (bs, ell) \<Rightarrow>
             if length bs < 16 then
               (case ell of
                  None \<Rightarrow> None
                | Some e \<Rightarrow> Some (take e bs @ replicate (16 - length bs) 0 @ drop e bs))
             else if ell \<noteq> None then None
             else Some bs))"

definition v4_mapped :: "ip \<Rightarrow> ip" where
  "v4_mapped v4 = replicate 10 0 @ [0xFF, 0xFF] @ v4"

text \<open>The first of \<open>.\<close>, \<open>:\<close> and \<open>%\<close> decides; an address with a zone is not an \<open>IP\<close>.\<close>

definition ParseIP :: "string \<Rightarrow> ip option" where
  "ParseIP s =
     (case find (\<lambda>c. c \<in> set ''.:%'') s of
        None \<Rightarrow> None
      | Some c \<Rightarrow>
          if c = CHR ''.'' then map_option v4_mapped (parseIPv4 s)
          else if c = CHR '':'' then (if CHR ''%'' \<in> set s then None else parseIPv6 s)
          else None)"

subsection \<open>The predicates of \<open>IP\<close>\<close>

definition To4 :: "ip \<Rightarrow> ip option" where
  "To4 a =
     (if length a = 4 then Some a
      else if length a = 16 \<and> take 10 a = replicate 10 0 \<and> a ! 10 = 0xFF \<and> a ! 11 = 0xFF
      then Some (drop 12 a) else None)"

definition IsLoopback :: "ip \<Rightarrow> bool" where
  "IsLoopback a =
     (case To4 a of Some v \<Rightarrow> v ! 0 = 127 | None \<Rightarrow> a = replicate 15 0 @ [1])"

definition IsUnspecified :: "ip \<Rightarrow> bool" where
  "IsUnspecified a =
     (case To4 a of Some v \<Rightarrow> v = replicate 4 0 | None \<Rightarrow> a = replicate 16 0)"

definition IsPrivate :: "ip \<Rightarrow> bool" where
  "IsPrivate a =
     (case To4 a of
        Some v \<Rightarrow> v ! 0 = 10 \<or> (v ! 0 = 172 \<and> v ! 1 AND 0xF0 = 16) \<or> (v ! 0 = 192 \<and> v ! 1 = 168)
      | None \<Rightarrow> length a = 16 \<and> a ! 0 AND 0xFE = 0xFC)"

definition IsMulticast :: "ip \<Rightarrow> bool" where
  "IsMulticast a =
     (case To4 a of Some v \<Rightarrow> v ! 0 AND 0xF0 = 0xE0 | None \<Rightarrow> length a = 16 \<and> a ! 0 = 0xFF)"

definition IsLinkLocalMulticast :: "ip \<Rightarrow> bool" where
  "IsLinkLocalMulticast a =
     (case To4 a of
        Some v \<Rightarrow> v ! 0 = 224 \<and> v ! 1 = 0 \<and> v ! 2 = 0
      | None \<Rightarrow> length a = 16 \<and> a ! 0 = 0xFF \<and> a ! 1 AND 0x0F = 2)"

definition IsLinkLocalUnicast :: "ip \<Rightarrow> bool" where
  "IsLinkLocalUnicast a =
     (case To4 a of
        Some v \<Rightarrow> v ! 0 = 169 \<and> v ! 1 = 254
      | None \<Rightarrow> length a = 16 \<and> a ! 0 = 0xFE \<and> a ! 1 AND 0xC0 = 0x80)"

lemmas ip_predicates = IsLoopback_def IsUnspecified_def IsPrivate_def IsMulticast_def
  IsLinkLocalMulticast_def IsLinkLocalUnicast_def

subsection \<open>Lemmas\<close>

lemma To4_mapped [simp]: "length v = 4 \<Longrightarrow> To4 (v4_mapped v) = Some v"
  by (simp add: To4_def v4_mapped_def numeral_eq_Suc)

lemma parseIPv4_length: "parseIPv4 s = Some v \<Longrightarrow> length v = 4"
  by (auto simp: parseIPv4_def split: list.splits option.splits)

text \<open>A number below 256 written in decimal, as \<^verbatim>\<open>IP.String\<close> writes it.\<close>

definition show_dec :: "nat \<Rightarrow> string" where
  "show_dec n = (if n = 0 then ''0'' else map digit_char (digits 10 n))"

definition dotted :: "nat \<Rightarrow> nat \<Rightarrow> nat \<Rightarrow> nat \<Rightarrow> string" where
  "dotted a b c d = Join [show_dec a, show_dec b, show_dec c, show_dec d] ''.''"

lemma digits_hd: "0 < n \<Longrightarrow> 1 < b \<Longrightarrow> digits b n \<noteq> [] \<and> hd (digits b n) \<noteq> 0"
proof (induction b n rule: digits.induct)
  case (1 b n)
  have eq: "digits b n = digits b (n div b) @ [n mod b]"
    using "1.prems" by (simp add: digits.simps [of b n])
  show ?case
  proof (cases "n div b = 0")
    case True
    then have "n < b" using "1.prems" by (simp add: div_eq_0_iff)
    then show ?thesis using eq True "1.prems" by simp
  next
    case False
    then show ?thesis using eq "1.IH" "1.prems" by simp
  qed
qed

lemma is_digit_char: "d < 10 \<Longrightarrow> is_digit (digit_char d) \<and> byte (digit_char d) = 48 + d"
  by (simp add: digit_char_def is_digit_def)

lemma dec_val_digits: "\<forall>d \<in> set ds. d < 10 \<Longrightarrow> dec_val (map digit_char ds) = undigits 10 ds"
proof (induction ds rule: rev_induct)
  case (snoc d ds)
  then show ?case by (simp add: dec_val_def is_digit_char)
qed (simp add: dec_val_def)

lemma show_dec_digits: "list_all is_digit (show_dec n)" "show_dec n \<noteq> []"
proof -
  have "\<forall>d \<in> set (digits 10 n). is_digit (digit_char d)"
    using digits_less is_digit_char by blast
  moreover have "is_digit (CHR ''0'')" by (simp add: is_digit_def)
  ultimately show "list_all is_digit (show_dec n)" by (auto simp: show_dec_def list_all_iff)
  show "show_dec n \<noteq> []" using digits_hd [of n 10] by (auto simp: show_dec_def)
qed

lemma octet:
  assumes "n < 256"
  shows "parse_octet (show_dec n) = Some (of_nat n)"
proof (cases "n = 0")
  case True
  then show ?thesis by (simp add: parse_octet_def show_dec_def is_digit_def dec_val_def)
next
  case False
  have "dec_val (show_dec n) = n"
    using False dec_val_digits digits_less by (simp add: show_dec_def)
  moreover have "length (show_dec n) \<le> 3"
    using length_digits [of 10 n 3] assms False by (simp add: show_dec_def)
  moreover have "hd (show_dec n) \<noteq> CHR ''0''"
  proof -
    have h: "digits 10 n \<noteq> []" "hd (digits 10 n) \<noteq> 0" using False digits_hd by auto
    then have "hd (digits 10 n) < 10" using digits_less hd_in_set by blast
    then have "byte (digit_char (hd (digits 10 n))) = 48 + hd (digits 10 n)"
      using is_digit_char by blast
    then have "digit_char (hd (digits 10 n)) \<noteq> CHR ''0''" using h(2) by auto
    then show ?thesis using False h(1) by (simp add: show_dec_def hd_map)
  qed
  ultimately show ?thesis
    using assms show_dec_digits [of n] by (simp add: parse_octet_def)
qed

lemma digit_not_sep: "is_digit c \<Longrightarrow> c \<noteq> CHR ''.'' \<and> c \<noteq> CHR '':'' \<and> c \<noteq> CHR ''%'' \<and> c \<noteq> CHR ''[''
  \<and> c \<noteq> CHR '']''"
  by (auto simp: is_digit_def)

lemma parseIPv4_dotted:
  assumes "a < 256" and "b < 256" and "c < 256" and "d < 256"
  shows "parseIPv4 (dotted a b c d) = Some [of_nat a, of_nat b, of_nat c, of_nat d]"
proof -
  have nd: "CHR ''.'' \<notin> set (show_dec n)" if "n < 256" for n
    using show_dec_digits(1) digit_not_sep by (auto simp: list_all_iff)
  have "Split (dotted a b c d) ''.'' = [show_dec a, show_dec b, show_dec c, show_dec d]"
    using assms nd by (simp add: dotted_def Split_byte_append Split_byte_id)
  then show ?thesis using assms by (simp add: parseIPv4_def octet)
qed

lemma ParseIP_dotted:
  assumes "a < 256" and "b < 256" and "c < 256" and "d < 256"
  shows "ParseIP (dotted a b c d) = Some (v4_mapped [of_nat a, of_nat b, of_nat c, of_nat d])"
proof -
  have f: "find (\<lambda>c. c \<in> set ''.:%'') (xs @ CHR ''.'' # ys) = Some (CHR ''.'')"
    if "list_all is_digit xs" for xs ys
    using that digit_not_sep by (induction xs) auto
  have "dotted a b c d = show_dec a @ CHR ''.'' # Join [show_dec b, show_dec c, show_dec d] ''.''"
    by (simp add: dotted_def)
  then have "find (\<lambda>c. c \<in> set ''.:%'') (dotted a b c d) = Some (CHR ''.'')"
    using f show_dec_digits(1) by simp
  then show ?thesis using parseIPv4_dotted [OF assms] by (simp add: ParseIP_def)
qed

lemma SplitHostPort_plain:
  assumes "CHR '':'' \<notin> set h" and "CHR ''['' \<notin> set h" and "CHR '']'' \<notin> set h"
    and "CHR '':'' \<notin> set p" and "CHR ''['' \<notin> set p" and "CHR '']'' \<notin> set p"
  shows "SplitHostPort (h @ CHR '':'' # p) = Inr (h, p)"
proof -
  have "LastIndexByte (h @ CHR '':'' # p) (CHR '':'') = Some (length h)"
    by (rule LastIndexByte_append [OF assms(4)])
  moreover have "hd (h @ CHR '':'' # p) \<noteq> CHR ''[''"
    using assms(2) by (cases h) auto
  ultimately show ?thesis using assms by (simp add: SplitHostPort_def)
qed

lemma SplitHostPort_bracket:
  assumes "CHR ''['' \<notin> set h" and "CHR '']'' \<notin> set h"
    and "CHR '':'' \<notin> set p" and "CHR ''['' \<notin> set p" and "CHR '']'' \<notin> set p"
  shows "SplitHostPort (CHR ''['' # h @ CHR '']'' # CHR '':'' # p) = Inr (h, p)"
proof -
  let ?s = "CHR ''['' # h @ CHR '']'' # CHR '':'' # p"
  have "?s = (CHR ''['' # h @ '']'') @ CHR '':'' # p" by simp
  then have l: "LastIndexByte ?s (CHR '':'') = Some (Suc (Suc (length h)))"
    using LastIndexByte_append [OF assms(3), of "CHR ''['' # h @ '']''"] by simp
  have "?s = (CHR ''['' # h) @ CHR '']'' # (CHR '':'' # p)" by simp
  then have e: "IndexByte ?s (CHR '']'') = Some (Suc (length h))"
    using IndexByte_append [of "CHR '']''" "CHR ''['' # h" "CHR '':'' # p"] assms(2) by simp
  show ?thesis
    unfolding SplitHostPort_def l e using assms by simp
qed

subsection \<open>Internal IPv4 addresses\<close>

lemma masks_all:
  "list_all (\<lambda>n. ((of_nat n :: 8 word) AND 0xF0 = 16) = (16 \<le> n \<and> n \<le> 31) \<and>
     ((of_nat n :: 8 word) AND 0xF0 = 0xE0) = (224 \<le> n \<and> n \<le> 239)) [0..<256]"
  by code_simp

lemma masks:
  assumes "n < 256"
  shows "(of_nat n :: 8 word) AND 0xF0 = 16 \<longleftrightarrow> 16 \<le> n \<and> n \<le> 31"
    and "(of_nat n :: 8 word) AND 0xF0 = 0xE0 \<longleftrightarrow> 224 \<le> n \<and> n \<le> 239"
  using masks_all assms by (auto simp: list_all_iff)

lemma of_nat_byte: "n < 256 \<Longrightarrow> m < 256 \<Longrightarrow> (of_nat n :: 8 word) = of_nat m \<longleftrightarrow> n = m"
  by (simp add: word_unat_eq_iff unat_of_nat)

lemma byte_num:
  assumes "n < 256"
  shows "(of_nat n :: 8 word) = 0 \<longleftrightarrow> n = 0" "(of_nat n :: 8 word) = 10 \<longleftrightarrow> n = 10"
    "(of_nat n :: 8 word) = 127 \<longleftrightarrow> n = 127" "(of_nat n :: 8 word) = 172 \<longleftrightarrow> n = 172"
    "(of_nat n :: 8 word) = 192 \<longleftrightarrow> n = 192" "(of_nat n :: 8 word) = 168 \<longleftrightarrow> n = 168"
    "(of_nat n :: 8 word) = 169 \<longleftrightarrow> n = 169" "(of_nat n :: 8 word) = 254 \<longleftrightarrow> n = 254"
    "(of_nat n :: 8 word) = 224 \<longleftrightarrow> n = 224"
  using of_nat_byte [OF assms, of 0] of_nat_byte [OF assms, of 10] of_nat_byte [OF assms, of 127]
    of_nat_byte [OF assms, of 172] of_nat_byte [OF assms, of 192] of_nat_byte [OF assms, of 168]
    of_nat_byte [OF assms, of 169] of_nat_byte [OF assms, of 254] of_nat_byte [OF assms, of 224]
  by simp_all

definition internal_ipv4 :: "nat \<Rightarrow> nat \<Rightarrow> nat \<Rightarrow> nat \<Rightarrow> bool" where
  "internal_ipv4 a b c d \<longleftrightarrow>
     a = 127 \<or> a = 10 \<or> (a = 172 \<and> 16 \<le> b \<and> b \<le> 31) \<or> (a = 192 \<and> b = 168) \<or>
     (a = 169 \<and> b = 254) \<or> (224 \<le> a \<and> a \<le> 239) \<or> (a = 0 \<and> b = 0 \<and> c = 0 \<and> d = 0)"

lemma v4_mapped_not_ula: "v4_mapped v ! 0 AND 0xFE \<noteq> (0xFC :: 8 word)"
proof -
  have "v4_mapped v ! 0 = 0" by (simp add: v4_mapped_def nth_append)
  then show ?thesis by simp
qed

lemma internal_ip_ipv4:
  assumes "a < 256" and "b < 256" and "c < 256" and "d < 256"
  defines "ip \<equiv> v4_mapped [of_nat a, of_nat b, of_nat c, of_nat d]"
  shows "IsLoopback ip \<or> IsPrivate ip \<or> IsLinkLocalUnicast ip \<or> IsLinkLocalMulticast ip \<or>
    IsMulticast ip \<or> IsUnspecified ip \<longleftrightarrow> internal_ipv4 a b c d"
proof -
  have four: "replicate 4 x = [x, x, x, x]" for x :: "8 word"
    by (simp add: numeral_eq_Suc)
  show ?thesis
    using assms(1-4) unfolding ip_def
    by (simp add: ip_predicates internal_ipv4_def masks byte_num four) auto
qed

subsection \<open>Internal addresses of both families\<close>

text \<open>The internal ranges of an address of 16 bytes: those of IPv4 for a mapped one, else \<open>::\<close>,
  \<open>::1\<close>, \<open>fc00::/7\<close>, \<open>fe80::/10\<close> and \<open>ff00::/8\<close>, as numbers.\<close>

definition internal_ip :: "ip \<Rightarrow> bool" where
  "internal_ip a \<longleftrightarrow>
     (case To4 a of
        Some v \<Rightarrow> internal_ipv4 (unat (v ! 0)) (unat (v ! 1)) (unat (v ! 2)) (unat (v ! 3))
      | None \<Rightarrow>
          a = replicate 16 0 \<or> a = replicate 15 0 @ [1] \<or> unat (a ! 0) \<in> {0xFC..0xFD} \<or>
          unat (a ! 0) = 0xFE \<and> unat (a ! 1) \<in> {0x80..0xBF} \<or> unat (a ! 0) = 0xFF)"

lemma masks6_all:
  "list_all (\<lambda>n. ((of_nat n :: 8 word) AND 0xFE = 0xFC) = (252 \<le> n \<and> n \<le> 253) \<and>
     ((of_nat n :: 8 word) AND 0xC0 = 0x80) = (128 \<le> n \<and> n \<le> 191)) [0..<256]"
  by code_simp

lemma masks6:
  fixes w :: "8 word"
  shows "w AND 0xFE = 0xFC \<longleftrightarrow> 252 \<le> unat w \<and> unat w \<le> 253"
    and "w AND 0xC0 = 0x80 \<longleftrightarrow> 128 \<le> unat w \<and> unat w \<le> 191"
proof -
  have "unat w \<in> set [0..<256]" using unsigned_less [of w, where 'a = nat] by simp
  then have "((of_nat (unat w) :: 8 word) AND 0xFE = 0xFC) = (252 \<le> unat w \<and> unat w \<le> 253) \<and>
      ((of_nat (unat w) :: 8 word) AND 0xC0 = 0x80) = (128 \<le> unat w \<and> unat w \<le> 191)"
    using masks6_all unfolding list_all_iff by blast
  then show "w AND 0xFE = 0xFC \<longleftrightarrow> 252 \<le> unat w \<and> unat w \<le> 253"
    and "w AND 0xC0 = 0x80 \<longleftrightarrow> 128 \<le> unat w \<and> unat w \<le> 191" by simp_all
qed

lemma To4_Some: "length a = 16 \<Longrightarrow> To4 a = Some v \<Longrightarrow> length v = 4 \<and> a = v4_mapped v"
proof -
  assume len: "length a = 16" and to4: "To4 a = Some v"
  then have a: "take 10 a = replicate 10 0" "a ! 10 = 0xFF" "a ! 11 = 0xFF" "v = drop 12 a"
    by (auto simp: To4_def split: if_splits)
  have "drop 10 a = a ! 10 # a ! 11 # drop 12 a"
    using len Cons_nth_drop_Suc [of 10 a] Cons_nth_drop_Suc [of 11 a] by simp
  then have "a = take 10 a @ a ! 10 # a ! 11 # drop 12 a"
    using append_take_drop_id [of 10 a] by metis
  with a len show ?thesis by (simp add: v4_mapped_def)
qed

lemma internal_ip_mapped:
  assumes "a < 256" and "b < 256" and "c < 256" and "d < 256"
  shows "internal_ip (v4_mapped [of_nat a, of_nat b, of_nat c, of_nat d]) \<longleftrightarrow> internal_ipv4 a b c d"
  using assms by (simp add: internal_ip_def unat_of_nat)

lemma internal_ip_iff:
  assumes "length a = 16"
  shows "IsLoopback a \<or> IsPrivate a \<or> IsLinkLocalUnicast a \<or> IsLinkLocalMulticast a \<or> IsMulticast a \<or>
    IsUnspecified a \<or> a ! 0 AND 0xFE = 0xFC \<longleftrightarrow> internal_ip a"
proof (cases "To4 a")
  case None
  have "a ! 0 = 0xFE \<longleftrightarrow> unat (a ! 0) = 0xFE" "a ! 0 = 0xFF \<longleftrightarrow> unat (a ! 0) = 0xFF"
    by (simp_all add: word_unat_eq_iff)
  then show ?thesis
    using None assms by (auto simp: ip_predicates internal_ip_def masks6)
next
  case (Some v)
  then obtain p q r s where v: "v = [p, q, r, s]"
    using To4_Some [OF assms] by (auto simp: numeral_eq_Suc length_Suc_conv)
  have a: "a = v4_mapped [of_nat (unat p), of_nat (unat q), of_nat (unat r), of_nat (unat s)]"
    using To4_Some [OF assms Some] v by simp
  have bounds: "unat p < 256" "unat q < 256" "unat r < 256" "unat s < 256"
    using unsigned_less [where 'b = 8 and 'a = nat] by simp_all
  show ?thesis
    unfolding a using internal_ip_ipv4 [OF bounds] internal_ip_mapped [OF bounds] v4_mapped_not_ula by metis
qed

lemma v6_groups_length:
  "v6_groups bs ell s = Some (bs', ell') \<Longrightarrow> even (length bs) \<Longrightarrow> length bs \<le> 16 \<Longrightarrow> length bs' \<le> 16"
proof (induction "length s" arbitrary: bs ell s rule: less_induct)
  case less
  show ?case
  proof (cases "length bs \<ge> 16")
    case True
    then show ?thesis using less.prems by (simp add: v6_groups.simps [of bs] split: if_splits)
  next
    case False
    with less.prems(2) have room: "length bs + 2 \<le> 16" by presburger
    define off where "off = length (hex_run s)"
    define bs2 where "bs2 = bs @ [of_nat (group_val (hex_run s) div 256), of_nat (group_val (hex_run s) mod 256)]"
    have bs2: "even (length bs2)" "length bs2 \<le> 16" using less.prems(2) room by (simp_all add: bs2_def)
    have IH: "length bs' \<le> 16" if "v6_groups bs2 e t = Some (bs', ell')" "length t < length s" for e t
      using less.hyps [OF that(2,1)] bs2 by blast
    have shorter: "length (tl (drop off s)) < length s" "length (tl (tl (drop off s))) < length s"
      if "drop off s \<noteq> []" using that by auto
    have step: "v6_groups bs ell s =
      (if off = 0 \<or> off > 4 then None
       else if off < length s \<and> s ! off = CHR ''.'' then
         (if ell = None \<and> length bs \<noteq> 12 then None
          else if length bs + 4 > 16 then None
          else map_option (\<lambda>v4. (bs @ v4, ell)) (parseIPv4 s))
       else if drop off s = [] then Some (bs2, ell)
       else if hd (drop off s) \<noteq> CHR '':'' then None
       else if length (drop off s) = 1 then None
       else if hd (tl (drop off s)) = CHR '':'' then
         (if ell \<noteq> None then None
          else if tl (tl (drop off s)) = [] then Some (bs2, Some (length bs2))
          else v6_groups bs2 (Some (length bs2)) (tl (tl (drop off s))))
       else v6_groups bs2 ell (tl (drop off s)))"
      using False unfolding v6_groups.simps [of bs ell s] off_def bs2_def Let_def by (simp only: if_False)
    show ?thesis
      using less.prems(1) bs2(2) unfolding step
      by (auto simp: parseIPv4_length split: if_splits intro: IH shorter)
  qed
qed

lemma ParseIP_length: "ParseIP s = Some a \<Longrightarrow> length a = 16"
proof -
  assume parsed: "ParseIP s = Some a"
  have "length b = 16" if v6: "parseIPv6 s = Some b" for b
  proof (cases "s = ''::''")
    case False
    obtain bs ell where groups: "v6_groups [] (if HasPrefix s ''::'' then Some 0 else None)
        (if HasPrefix s ''::'' then drop 2 s else s) = Some (bs, ell)"
      using v6 False by (auto simp: parseIPv6_def split: if_splits option.splits)
    then have "length bs \<le> 16" using v6_groups_length by fastforce
    then show ?thesis
      using v6 False groups by (auto simp: parseIPv6_def split: if_splits option.splits)
  qed (use v6 in \<open>auto simp: parseIPv6_def\<close>)
  then show ?thesis
    using parsed by (auto simp: ParseIP_def v4_mapped_def parseIPv4_length split: option.splits if_splits)
qed

end
