(* ===== verification/GoUrl.thy ===== *)
theory GoUrl
  imports External
begin

section \<open>The part of \<^verbatim>\<open>net/url\<close> the program uses\<close>

text \<open>
  \<open>Parse\<close>, \<open>Hostname\<close>, \<open>PathUnescape\<close> and the lookup of a query parameter, as in the Go
  version the module names (1.24). A URL keeps the components the program reads. An error
  is \<open>None\<close>: no caller looks at which one it is.
\<close>

record url =
  u_scheme :: string
  u_opaque :: string
  u_host :: string
  u_path :: string
  u_rawquery :: string

definition empty_url :: url where
  "empty_url = \<lparr>u_scheme = [], u_opaque = [], u_host = [], u_path = [], u_rawquery = []\<rparr>"

subsection \<open>Percent-decoding\<close>

datatype enc_mode = EncPath | EncPathSegment | EncHost | EncZone | EncUserPassword
  | EncQueryComponent | EncFragment

definition is_alnum :: "char \<Rightarrow> bool" where
  "is_alnum c \<longleftrightarrow> is_lower c \<or> is_upper c \<or> is_digit c"

text \<open>\<open>shouldEscape\<close> for the host modes, the only ones \<open>unescape\<close> asks about.\<close>

definition host_escape :: "char \<Rightarrow> bool" where
  "host_escape c \<longleftrightarrow>
     \<not> is_alnum c \<and> c \<notin> set ''!$&()*+,;=:[]<>'' \<and> c \<noteq> CHR 0x27 \<and> c \<noteq> CHR 0x22 \<and>
     c \<notin> set ''-_.~''"

fun unescape :: "enc_mode \<Rightarrow> string \<Rightarrow> string option" where
  "unescape mode [] = Some []"
| "unescape mode (c # s) =
     (if c = CHR ''%'' then
        (case s of
           a # b # s' \<Rightarrow>
             (case (hex_val a, hex_val b) of
                (Some x, Some y) \<Rightarrow>
                  (let v = char_of (16 * x + y)
                   in if mode = EncHost \<and> x < 8 \<and> [a, b] \<noteq> ''25'' then None
                      else if mode = EncZone \<and> [a, b] \<noteq> ''25'' \<and> v \<noteq> CHR '' '' \<and> host_escape v
                      then None
                      else map_option ((#) v) (unescape mode s'))
              | _ \<Rightarrow> None)
         | _ \<Rightarrow> None)
      else if c = CHR ''+'' \<and> mode = EncQueryComponent then map_option ((#) (CHR '' '')) (unescape mode s)
      else if (mode = EncHost \<or> mode = EncZone) \<and> is_ascii c \<and> host_escape c then None
      else map_option ((#) c) (unescape mode s))"

definition PathUnescape :: "string \<Rightarrow> string option" where
  "PathUnescape s = unescape EncPathSegment s"

subsection \<open>Cutting strings\<close>

text \<open>\<open>strings.Cut\<close> at a byte: the part before, the part after, and whether it was found.\<close>

fun Cut :: "string \<Rightarrow> char \<Rightarrow> string \<times> string \<times> bool" where
  "Cut [] c = ([], [], False)"
| "Cut (x # s) c = (if x = c then ([], s, True) else (case Cut s c of (a, b, f) \<Rightarrow> (x # a, b, f)))"

text \<open>\<open>Index\<close> of a substring.\<close>

fun Index :: "string \<Rightarrow> string \<Rightarrow> nat option" where
  "Index [] t = (if t = [] then Some 0 else None)"
| "Index (x # s) t = (if prefix t (x # s) then Some 0 else map_option Suc (Index s t))"

subsection \<open>\<open>Parse\<close>\<close>

text \<open>\<open>getScheme\<close>; the argument \<open>acc\<close> is the prefix read so far, in reverse.\<close>

fun get_scheme :: "string \<Rightarrow> string \<Rightarrow> (string \<times> string) option" where
  "get_scheme acc [] = Some ([], rev acc)"
| "get_scheme acc (c # s) =
     (if is_lower c \<or> is_upper c then get_scheme (c # acc) s
      else if is_digit c \<or> c \<in> set ''+-.'' then
        (if acc = [] then Some ([], c # s) else get_scheme (c # acc) s)
      else if c = CHR '':'' then (if acc = [] then None else Some (rev acc, s))
      else Some ([], rev acc @ c # s))"

definition validOptionalPort :: "string \<Rightarrow> bool" where
  "validOptionalPort port \<longleftrightarrow>
     port = [] \<or> (hd port = CHR '':'' \<and> list_all is_digit (tl port))"

definition validUserinfo :: "string \<Rightarrow> bool" where
  "validUserinfo s \<longleftrightarrow>
     list_all (\<lambda>c. is_alnum c \<or> c \<in> set ''-._:~!$&()*+,;=%@'' \<or> c = CHR 0x27) s"

definition url_parseHost :: "string \<Rightarrow> string option" where
  "url_parseHost host =
     (if HasPrefix host ''['' then
        (case LastIndexByte host (CHR '']'') of
           None \<Rightarrow> None
         | Some i \<Rightarrow>
             if \<not> validOptionalPort (drop (Suc i) host) then None
             else
               (case Index (take i host) ''%25'' of
                  Some zone \<Rightarrow>
                    (case (unescape EncHost (take zone host),
                           unescape EncZone (drop zone (take i host)),
                           unescape EncHost (drop i host)) of
                       (Some h1, Some h2, Some h3) \<Rightarrow> Some (h1 @ h2 @ h3)
                     | _ \<Rightarrow> None)
                | None \<Rightarrow> unescape EncHost host))
      else
        (case LastIndexByte host (CHR '':'') of
           Some i \<Rightarrow> if validOptionalPort (drop i host) then unescape EncHost host else None
         | None \<Rightarrow> unescape EncHost host))"

definition parseAuthority :: "string \<Rightarrow> string option" where
  "parseAuthority authority =
     (case LastIndexByte authority (CHR ''@'') of
        None \<Rightarrow> url_parseHost authority
      | Some i \<Rightarrow>
          (case url_parseHost (drop (Suc i) authority) of
             None \<Rightarrow> None
           | Some host \<Rightarrow>
               (let userinfo = take i authority
                in if \<not> validUserinfo userinfo then None
                   else
                     (case Cut userinfo (CHR '':'') of
                        (a, b, _) \<Rightarrow>
                          if unescape EncUserPassword a = None \<or> unescape EncUserPassword b = None
                          then None else Some host))))"

text \<open>The path, once the scheme, the query and the authority are off.\<close>

definition with_path :: "url \<Rightarrow> string \<Rightarrow> url option" where
  "with_path u rest = map_option (\<lambda>p. u\<lparr>u_path := p\<rparr>) (unescape EncPath rest)"

text \<open>A trailing lone question mark only sets a flag the program does not read.\<close>

definition cut_query :: "string \<Rightarrow> string \<times> string" where
  "cut_query rest =
     (if HasSuffix rest ''?'' \<and> count_list rest (CHR ''?'') = 1 then (butlast rest, [])
      else (case Cut rest (CHR ''?'') of (a, b, _) \<Rightarrow> (a, b)))"

definition parse_ref :: "ext \<Rightarrow> string \<Rightarrow> url option" where
  "parse_ref X raw =
     (if list_ex is_control raw then None
      else if raw = ''*'' then Some (empty_url\<lparr>u_path := ''*''\<rparr>)
      else
        (case get_scheme [] raw of
           None \<Rightarrow> None
         | Some (sch, rest0) \<Rightarrow>
             (case cut_query rest0 of
                (rest, q) \<Rightarrow>
                  (let u = empty_url\<lparr>u_scheme := ToLower X sch, u_rawquery := q\<rparr>
                   in if \<not> HasPrefix rest ''/'' \<and> sch \<noteq> [] then Some (u\<lparr>u_opaque := rest\<rparr>)
                      else if \<not> HasPrefix rest ''/'' \<and>
                        CHR '':'' \<in> set (case Cut rest (CHR ''/'') of (a, _, _) \<Rightarrow> a) then None
                      else if (sch \<noteq> [] \<or> \<not> HasPrefix rest ''///'') \<and> HasPrefix rest ''//'' then
                        (case Cut (drop 2 rest) (CHR ''/'') of
                           (authority, after, found) \<Rightarrow>
                             (case parseAuthority authority of
                                None \<Rightarrow> None
                              | Some host \<Rightarrow>
                                  with_path (u\<lparr>u_host := host\<rparr>)
                                    (if found then CHR ''/'' # after else [])))
                      else with_path u rest))))"

definition url_Parse :: "ext \<Rightarrow> string \<Rightarrow> url option" where
  "url_Parse X raw =
     (case Cut raw (CHR ''#'') of
        (r, frag, _) \<Rightarrow>
          (case parse_ref X r of
             None \<Rightarrow> None
           | Some u \<Rightarrow> if frag \<noteq> [] \<and> unescape EncFragment frag = None then None else Some u))"

definition Hostname :: "url \<Rightarrow> string" where
  "Hostname u =
     (let h = (case LastIndexByte (u_host u) (CHR '':'') of
          Some i \<Rightarrow> if validOptionalPort (drop i (u_host u)) then take i (u_host u) else u_host u
        | None \<Rightarrow> u_host u)
      in if HasPrefix h ''['' \<and> HasSuffix h '']'' \<and> 2 \<le> length h then butlast (tl h) else h)"

subsection \<open>Query parameters\<close>

text \<open>\<open>Query().Get(key)\<close>: pairs that do not decode, and those with a semicolon, are dropped;
  the first value of the key counts.\<close>

definition query_pair :: "string \<Rightarrow> (string \<times> string) option" where
  "query_pair part =
     (if CHR '';'' \<in> set part \<or> part = [] then None
      else
        (case Cut part (CHR ''='') of
           (k, v, _) \<Rightarrow>
             (case (unescape EncQueryComponent k, unescape EncQueryComponent v) of
                (Some k', Some v') \<Rightarrow> Some (k', v')
              | _ \<Rightarrow> None)))"

definition QueryGet :: "string \<Rightarrow> string \<Rightarrow> string" where
  "QueryGet rawquery key =
     (case map_of (List.map_filter query_pair (Split rawquery ''&'')) key of
        Some v \<Rightarrow> v | None \<Rightarrow> [])"

subsection \<open>Case folding\<close>

text \<open>\<open>strings.EqualFold(s, t)\<close> for a lowercase ASCII word \<open>t\<close>: besides the two cases of a
  letter, the long s (\<open>C5 BF\<close>) folds to \<open>s\<close> and the Kelvin sign (\<open>E2 84 AA\<close>) to \<open>k\<close>.\<close>

fun EqualFold :: "string \<Rightarrow> string \<Rightarrow> bool" where
  "EqualFold s [] \<longleftrightarrow> s = []"
| "EqualFold s (t # ts) \<longleftrightarrow>
     (case s of
        [] \<Rightarrow> False
      | c # s' \<Rightarrow>
          (lower_byte c = t \<and> EqualFold s' ts) \<or>
          (t = CHR ''s'' \<and> prefix [CHR 0xC5, CHR 0xBF] s \<and> EqualFold (drop 2 s) ts) \<or>
          (t = CHR ''k'' \<and> prefix [CHR 0xE2, CHR 0x84, CHR 0xAA] s \<and> EqualFold (drop 3 s) ts))"

subsection \<open>Lemmas\<close>

lemma unescape_id: "list_all (\<lambda>c. c \<noteq> CHR ''%'') s \<Longrightarrow> PathUnescape s = Some s"
  unfolding PathUnescape_def by (induction s) auto

lemma unescape_no_escape:
  "mode = EncPath \<or> mode = EncPathSegment \<or> mode = EncFragment \<Longrightarrow> CHR ''%'' \<notin> set s \<Longrightarrow>
     unescape mode s = Some s"
  by (induction s) auto

lemma unescape_set: "unescape mode s = Some t \<Longrightarrow> length t \<le> length s"
proof (induction mode s arbitrary: t rule: unescape.induct)
  case (2 mode c s)
  then show ?case
    by (fastforce simp: Let_def split: if_splits list.splits option.splits)
qed simp

end
