(* ===== verification/Blossom.thy ===== *)
theory Blossom
  imports GoNet GoUrl Contracts
begin

section \<open>The fetch boundary (\<^verbatim>\<open>blob.go\<close>)\<close>

text \<open>
  \<open>Fetch\<close> gets a blob from a server under a policy: which schemes, which dialled addresses,
  how many redirects, how many bytes, and which digest.

  What is outside is a record \<open>network\<close>: the addresses the dialer tries for a URL (name
  resolution), whether one accepts a connection, what it replies, and the text of a
  \<^verbatim>\<open>url.Error\<close>. The redirect loop is that of \<^verbatim>\<open>http.Client\<close>: a reply with a redirect
  status and a location is followed after \<open>CheckRedirect\<close>; the next URL is the reply's
  choice. \<open>Fetch\<close> also returns its trace, the URLs requested with the addresses connected
  to.
\<close>

datatype sentinel = ErrForbidden | DeadlineExceeded | Canceled | OtherError

record fetch_error =
  fe_is :: sentinel
  fe_msg :: string

abbreviation plain_error :: "string \<Rightarrow> fetch_error" where
  "plain_error msg \<equiv> \<lparr>fe_is = OtherError, fe_msg = msg\<rparr>"

record fetch_options =
  AllowHTTP :: bool
  AllowLoopback :: bool
  AllowLoopbackAddrs :: "string list"
  MaxBytes :: int
  Timeout :: int
  MaxRedirects :: int

text \<open>The redirect cap is captured by the client's \<open>CheckRedirect\<close> closure.\<close>

record fetcher =
  f_allowHTTP :: bool
  f_allowLoopback :: bool
  f_allowAddrs :: "string set"
  f_maxBytes :: int
  f_timeout :: int
  f_maxRedirects :: int

definition forbiddenIP :: "ip option \<Rightarrow> bool" where
  "forbiddenIP ip =
     (case ip of
        None \<Rightarrow> True
      | Some a \<Rightarrow>
          IsLoopback a \<or> IsPrivate a \<or> IsLinkLocalUnicast a \<or> IsLinkLocalMulticast a \<or>
          IsMulticast a \<or> IsUnspecified a \<or> (length a = 16 \<and> a ! 0 AND 0xFE = 0xFC))"

definition checkDialAddr :: "string \<Rightarrow> bool \<Rightarrow> string set \<Rightarrow> fetch_error + unit" where
  "checkDialAddr addr allowLoopback allowAddrs =
     (case SplitHostPort addr of
        Inl e \<Rightarrow> Inl (plain_error ''address'')
      | Inr (host, _) \<Rightarrow>
          (case ParseIP host of
             None \<Rightarrow> Inr ()
           | Some a \<Rightarrow>
               if allowLoopback \<and> IsLoopback a then Inr ()
               else if addr \<in> allowAddrs \<and> IsLoopback a then Inr ()
               else if forbiddenIP (Some a) then Inl \<lparr>fe_is = ErrForbidden, fe_msg = ''forbidden address''\<rparr>
               else Inr ()))"

definition fetch_New :: "fetch_options \<Rightarrow> fetcher" where
  "fetch_New opts =
     \<lparr>f_allowHTTP = AllowHTTP opts, f_allowLoopback = AllowLoopback opts,
      f_allowAddrs = set (AllowLoopbackAddrs opts),
      f_maxBytes = (if MaxBytes opts \<le> 0 then 32 * 2 ^ 20 else MaxBytes opts),
      f_timeout = (if Timeout opts \<le> 0 then 20 * 10 ^ 9 else Timeout opts),
      f_maxRedirects = (if MaxRedirects opts \<le> 0 then 3 else MaxRedirects opts)\<rparr>"

definition validateScheme :: "url \<Rightarrow> bool \<Rightarrow> fetch_error + unit" where
  "validateScheme u allowHTTP =
     (if u_scheme u = ''https'' then Inr ()
      else if u_scheme u = ''http'' then
        (if allowHTTP then Inr () else Inl (plain_error ''http disallowed''))
      else Inl (plain_error (''scheme '' @ [CHR 0x22] @ u_scheme u @ [CHR 0x22] @ '' disallowed'')))"

definition mustURL :: "ext \<Rightarrow> string \<Rightarrow> url" where
  "mustURL X s = (case url_Parse X s of None \<Rightarrow> empty_url | Some u \<Rightarrow> u)"

subsection \<open>The client\<close>

datatype location = NoLocation | BadLocation | Location url

datatype reply =
  ReplyError fetch_error
| Reply (status: nat) (loc: location) (body: bytes) (body_err: "fetch_error option")

record network =
  net_addrs :: "url \<Rightarrow> string list"
  net_connect :: "url \<Rightarrow> string \<Rightarrow> bool"
  net_reply :: "url \<Rightarrow> string \<Rightarrow> reply"
  net_wrap :: "url \<Rightarrow> string \<Rightarrow> string"

definition wrap_error :: "network \<Rightarrow> url \<Rightarrow> fetch_error \<Rightarrow> fetch_error" where
  "wrap_error N u e = e\<lparr>fe_msg := net_wrap N u (fe_msg e)\<rparr>"

text \<open>The dialer tries the addresses in order; each is checked before it is connected to.\<close>

fun dial :: "fetcher \<Rightarrow> network \<Rightarrow> url \<Rightarrow> string list \<Rightarrow> fetch_error \<Rightarrow> fetch_error + string" where
  "dial F N u [] e = Inl e"
| "dial F N u (a # as) e =
     (case checkDialAddr a (f_allowLoopback F) (f_allowAddrs F) of
        Inl e' \<Rightarrow> dial F N u as e'
      | Inr _ \<Rightarrow> if net_connect N u a then Inr a else dial F N u as (plain_error ''connect''))"

definition is_redirect :: "nat \<Rightarrow> bool" where
  "is_redirect st \<longleftrightarrow> st \<in> {301, 302, 303, 307, 308}"

definition CheckRedirect :: "fetcher \<Rightarrow> url \<Rightarrow> nat \<Rightarrow> fetch_error + unit" where
  "CheckRedirect F u via =
     (if int via \<ge> f_maxRedirects F then Inl (plain_error ''too many redirects'')
      else validateScheme u (f_allowHTTP F))"

text \<open>\<open>via\<close> is the number of requests made so far.\<close>

function do_requests ::
  "fetcher \<Rightarrow> network \<Rightarrow> url \<Rightarrow> nat \<Rightarrow> (url \<times> string) list \<times> (fetch_error + reply)" where
  "do_requests F N u via =
     (case (if u_host u = [] then Inl (plain_error ''no host'')
            else dial F N u (net_addrs N u) (plain_error ''no address'')) of
        Inl e \<Rightarrow> ([], Inl (wrap_error N u e))
      | Inr a \<Rightarrow>
          (case net_reply N u a of
             ReplyError e \<Rightarrow> ([(u, a)], Inl (wrap_error N u e))
           | Reply st l b be \<Rightarrow>
               if is_redirect st \<and> l \<noteq> NoLocation then
                 (case l of
                    Location u' \<Rightarrow>
                      (case CheckRedirect F u' (Suc via) of
                         Inl e \<Rightarrow> ([(u, a)], Inl (wrap_error N u' e))
                       | Inr _ \<Rightarrow>
                           (case do_requests F N u' (Suc via) of (tr, r) \<Rightarrow> ((u, a) # tr, r)))
                  | _ \<Rightarrow> ([(u, a)], Inl (wrap_error N u (plain_error ''bad location''))))
               else ([(u, a)], Inr (Reply st l b be))))"
  by pat_completeness auto
termination
  by (relation "measure (\<lambda>(F, N, u, via). nat (f_maxRedirects F) - via)")
    (auto simp: CheckRedirect_def split: if_splits)

declare do_requests.simps [simp del]

text \<open>The checks on a reply: its status, its size and its digest.\<close>

definition check_reply :: "ext \<Rightarrow> fetcher \<Rightarrow> string \<Rightarrow> string \<Rightarrow> reply \<Rightarrow> fetch_error + bytes" where
  "check_reply X F serverURL sha resp =
     (if status resp \<noteq> 200
      then Inl (plain_error (''blossom '' @ serverURL @ '': status '' @ show_dec (status resp)))
      else
        (let buf = take (nat (f_maxBytes F + 1)) (body resp)
         in if length (body resp) \<le> nat (f_maxBytes F) \<and> body_err resp \<noteq> None
            then Inl (the (body_err resp))
            else if int (length buf) > f_maxBytes F
            then Inl (plain_error (''blob exceeds '' @ show_dec (nat (f_maxBytes F)) @ '' bytes''))
            else if hash_hex X buf \<noteq> sha
            then Inl (plain_error (''blob hash mismatch: expected '' @ sha @ '' got '' @ hash_hex X buf))
            else Inr buf))"

definition Fetch ::
  "ext \<Rightarrow> fetcher \<Rightarrow> network \<Rightarrow> string \<Rightarrow> string \<Rightarrow> (url \<times> string) list \<times> (fetch_error + bytes)" where
  "Fetch X F N serverURL sha =
     (case validateScheme (mustURL X serverURL) (f_allowHTTP F) of
        Inl e \<Rightarrow> ([], Inl e)
      | Inr _ \<Rightarrow>
          (case url_Parse X (TrimSuffix serverURL ''/'' @ ''/'' @ sha) of
             None \<Rightarrow> ([], Inl (plain_error ''parse''))
           | Some u \<Rightarrow>
               (case do_requests F N u 0 of
                  (tr, Inl e) \<Rightarrow> (tr, Inl e)
                | (tr, Inr resp) \<Rightarrow> (tr, check_reply X F serverURL sha resp))))"

definition ClassifyFetchError :: "fetch_error option \<Rightarrow> string" where
  "ClassifyFetchError err =
     (case err of
        None \<Rightarrow> ''''
      | Some e \<Rightarrow>
          if fe_is e = ErrForbidden then ''forbidden''
          else if fe_is e = DeadlineExceeded then ''timeout''
          else if fe_is e = Canceled then ''canceled''
          else if Contains (fe_msg e) ''hash mismatch'' then ''hash''
          else if Contains (fe_msg e) ''exceeds'' then ''oversize''
          else if Contains (fe_msg e) ''too many redirects'' then ''redirect''
          else if Contains (fe_msg e) ''status'' then ''status''
          else ''network'')"

subsection \<open>The policy along a trace\<close>

definition scheme_ok :: "fetcher \<Rightarrow> url \<Rightarrow> bool" where
  "scheme_ok F u \<longleftrightarrow> u_scheme u = ''https'' \<or> (f_allowHTTP F \<and> u_scheme u = ''http'')"

definition addr_ok :: "fetcher \<Rightarrow> string \<Rightarrow> bool" where
  "addr_ok F a \<longleftrightarrow> checkDialAddr a (f_allowLoopback F) (f_allowAddrs F) = Inr ()"

definition hop_ok :: "fetcher \<Rightarrow> url \<times> string \<Rightarrow> bool" where
  "hop_ok F h \<longleftrightarrow> scheme_ok F (fst h) \<and> addr_ok F (snd h)"

lemma validateScheme_ok: "validateScheme u (f_allowHTTP F) = Inr x \<longleftrightarrow> scheme_ok F u"
  by (auto simp: validateScheme_def scheme_ok_def)

lemma dial_ok: "dial F N u as e = Inr a \<Longrightarrow> addr_ok F a \<and> a \<in> set as"
  by (induction as arbitrary: e) (auto simp: addr_ok_def split: sum.splits if_splits)

lemma dial_forbidden:
  "list_all (\<lambda>a. \<not> addr_ok F a) as \<Longrightarrow> \<exists>e'. dial F N u as e = Inl e'"
  by (induction as arbitrary: e) (auto simp: addr_ok_def split: sum.splits)

lemma CheckRedirect_ok:
  "CheckRedirect F u via = Inr x \<longleftrightarrow> int via < f_maxRedirects F \<and> scheme_ok F u"
  by (auto simp: CheckRedirect_def validateScheme_ok)

text \<open>A run of the client: every hop keeps the policy, and with \<open>via\<close> requests made before
  there are at most as many more as the cap leaves (one at least).\<close>

lemma do_requests_trace:
  "scheme_ok F u \<Longrightarrow> do_requests F N u via = (tr, r) \<Longrightarrow>
     list_all (hop_ok F) tr \<and> length tr \<le> max 1 (nat (f_maxRedirects F) - via)"
proof (induction F N u via arbitrary: tr r rule: do_requests.induct)
  case (1 F N u via)
  let ?d = "if u_host u = [] then Inl (plain_error ''no host'')
    else dial F N u (net_addrs N u) (plain_error ''no address'')"
  show ?case
  proof (cases ?d)
    case (Inl e)
    then have "tr = []" using "1.prems"(2) by (subst (asm) do_requests.simps) auto
    then show ?thesis by simp
  next
    case (Inr a)
    then have ok: "hop_ok F (u, a)"
      using dial_ok "1.prems"(1) by (auto simp: hop_ok_def split: if_splits)
    have eq: "(case net_reply N u a of
        ReplyError e \<Rightarrow> ([(u, a)], Inl (wrap_error N u e))
      | Reply st l b be \<Rightarrow>
          if is_redirect st \<and> l \<noteq> NoLocation then
            (case l of
               Location u' \<Rightarrow>
                 (case CheckRedirect F u' (Suc via) of
                    Inl e \<Rightarrow> ([(u, a)], Inl (wrap_error N u' e))
                  | Inr _ \<Rightarrow>
                      (case do_requests F N u' (Suc via) of (tr, r) \<Rightarrow> ((u, a) # tr, r)))
             | _ \<Rightarrow> ([(u, a)], Inl (wrap_error N u (plain_error ''bad location''))))
          else ([(u, a)], Inr (Reply st l b be))) = (tr, r)"
      using "1.prems"(2) unfolding do_requests.simps [of F N u via] Inr by (simp only: sum.case)
    consider (follow) st b be u' where "net_reply N u a = Reply st (Location u') b be" "is_redirect st"
        "CheckRedirect F u' (Suc via) = Inr ()" | (stop) "tr = [(u, a)]"
    proof (cases "net_reply N u a")
      case (ReplyError e)
      then show thesis using eq by (intro that(2)) simp
    next
      case (Reply st l b be)
      show thesis
      proof (cases l)
        case (Location u')
        show thesis
        proof (cases "is_redirect st")
          case True
          show thesis
          proof (cases "CheckRedirect F u' (Suc via)")
            case (Inl e)
            then show thesis using eq Reply Location True by (intro that(2)) simp
          next
            case (Inr v)
            then show thesis using Reply Location True by (intro that(1)) auto
          qed
        next
          case False
          then show thesis using eq Reply by (intro that(2)) simp
        qed
      next
        case NoLocation
        then show thesis using eq Reply by (intro that(2)) simp
      next
        case BadLocation
        then show thesis using eq Reply by (intro that(2)) (simp split: if_splits)
      qed
    qed
    then show ?thesis
    proof cases
      case follow
      obtain tr' r' where rec: "do_requests F N u' (Suc via) = (tr', r')" by force
      have tr: "tr = (u, a) # tr'"
        using eq follow rec by simp
      have lt: "int (Suc via) < f_maxRedirects F" "scheme_ok F u'"
        using follow(3) CheckRedirect_ok by auto
      have "list_all (hop_ok F) tr' \<and> length tr' \<le> max 1 (nat (f_maxRedirects F) - Suc via)"
        using "1.IH" [OF Inr follow(1) _ _ follow(3) lt(2) rec] follow(2) by simp
      then show ?thesis using tr ok lt(1) by auto
    next
      case stop
      then show ?thesis using ok by simp
    qed
  qed
qed

text \<open>The scheme of the requested URL is the scheme that was validated.\<close>

lemma get_scheme_split:
  "get_scheme acc s = Some (sch, rest) \<Longrightarrow> sch \<noteq> [] \<Longrightarrow>
     \<exists>p. s = p @ CHR '':'' # rest \<and> sch = rev acc @ p \<and> CHR ''#'' \<notin> set p \<and>
       (\<forall>x. get_scheme acc (p @ CHR '':'' # x) = Some (sch, x))"
proof (induction s arbitrary: acc)
  case (Cons c s)
  consider (keep) "is_lower c \<or> is_upper c \<or> (is_digit c \<or> c \<in> set ''+-.'') \<and> acc \<noteq> []"
    | (colon) "c = CHR '':''" "acc \<noteq> []" | (no) "\<exists>x. get_scheme acc (c # s) = Some ([], x)"
    | (bad) "get_scheme acc (c # s) = None"
    by (cases "is_lower c \<or> is_upper c"; cases "is_digit c \<or> c \<in> set ''+-.''"; cases "acc = []";
        cases "c = CHR '':''") auto
  then show ?case
  proof cases
    case keep
    have step: "get_scheme acc (c # x) = get_scheme (c # acc) x" for x
      using keep by auto
    obtain p where p: "s = p @ CHR '':'' # rest" "sch = rev (c # acc) @ p" "CHR ''#'' \<notin> set p"
      "\<forall>x. get_scheme (c # acc) (p @ CHR '':'' # x) = Some (sch, x)"
      using Cons.IH [of "c # acc"] Cons.prems step by auto
    have "c \<noteq> CHR ''#''" using keep by (auto simp: ascii_defs)
    then show ?thesis using p step by (intro exI [of _ "c # p"]) auto
  next
    case colon
    then have "sch = rev acc" "rest = s"
      using Cons.prems by (auto simp: ascii_defs)
    then show ?thesis using colon by (intro exI [of _ "[]"]) (auto simp: ascii_defs)
  qed (use Cons.prems in auto)
qed simp

lemma Cut_not_in: "c \<notin> set a \<Longrightarrow> \<exists>x b f. Cut (a @ s) c = (a @ x, b, f) \<and> (\<exists>y. s = x @ y)"
proof (induction a)
  case Nil
  have "\<exists>y. s = fst (Cut s c) @ y"
    by (induction s) (auto split: prod.splits)
  then show ?case by (cases "Cut s c") auto
next
  case (Cons d a)
  then show ?case by auto
qed

lemma Cut_prefix: "Cut s c = (a, b, f) \<Longrightarrow> \<exists>y. s = a @ y"
  using Cut_not_in [of c "[]" s] by auto

lemma url_Parse_scheme:
  assumes "url_Parse X raw = Some u" and "u_scheme u \<noteq> []"
  obtains sch rest where "raw = sch @ CHR '':'' # rest" "u_scheme u = ToLower X sch"
    "CHR ''#'' \<notin> set sch" "\<And>x. get_scheme [] (sch @ CHR '':'' # x) = Some (sch, x)"
proof -
  obtain r frag f where c: "Cut raw (CHR ''#'') = (r, frag, f)" by (cases "Cut raw (CHR ''#'')")
  have p: "parse_ref X r = Some u"
    using assms(1) c by (auto simp: url_Parse_def split: option.splits if_splits)
  obtain sch rest0 where g: "get_scheme [] r = Some (sch, rest0)" "u_scheme u = ToLower X sch"
    using p assms(2)
    by (auto simp: parse_ref_def with_path_def Let_def empty_url_def
        split: if_splits option.splits prod.splits)
  have "sch \<noteq> []" using g(2) assms(2) by (auto simp: ToLower_def)
  then obtain q where "r = q @ CHR '':'' # rest0" "sch = q" "CHR ''#'' \<notin> set q"
    "\<forall>x. get_scheme [] (q @ CHR '':'' # x) = Some (sch, x)"
    using get_scheme_split [OF g(1)] by auto
  moreover obtain y where "raw = r @ y" using Cut_prefix [OF c] by blast
  ultimately show thesis using that [of sch "rest0 @ y"] g(2) by auto
qed

lemma url_Parse_same_scheme:
  assumes "url_Parse X (sch @ CHR '':'' # rest) = Some u" and "CHR ''#'' \<notin> set sch"
    and "\<And>x. get_scheme [] (sch @ CHR '':'' # x) = Some (sch, x)"
  shows "u_scheme u = ToLower X sch"
proof -
  have "CHR ''#'' \<notin> set (sch @ '':'')" using assms(2) by simp
  then obtain x b f where c: "Cut (sch @ CHR '':'' # rest) (CHR ''#'') = (sch @ CHR '':'' # x, b, f)"
    using Cut_not_in [of "CHR ''#''" "sch @ '':''" rest] by auto
  have p: "parse_ref X (sch @ CHR '':'' # x) = Some u"
    using assms(1) c by (auto simp: url_Parse_def split: option.splits if_splits)
  have "sch @ CHR '':'' # x \<noteq> ''*''" by (cases sch) auto
  then show ?thesis
    using p assms(3) [of x]
    by (auto simp: parse_ref_def with_path_def Let_def empty_url_def
        split: if_splits option.splits prod.splits)
qed

lemma target_scheme:
  assumes "url_Parse X raw = Some u0" and "u_scheme u0 \<noteq> []"
    and "url_Parse X (TrimSuffix raw ''/'' @ ''/'' @ sha) = Some u"
  shows "u_scheme u = u_scheme u0"
proof -
  obtain sch rest where r: "raw = sch @ CHR '':'' # rest" "u_scheme u0 = ToLower X sch"
    "CHR ''#'' \<notin> set sch" "\<And>x. get_scheme [] (sch @ CHR '':'' # x) = Some (sch, x)"
    using url_Parse_scheme [OF assms(1,2)] by metis
  have "\<exists>z. TrimSuffix raw ''/'' = sch @ CHR '':'' # z"
  proof (cases rest rule: rev_cases)
    case Nil
    then have "TrimSuffix raw ''/'' = raw" by (simp add: TrimSuffix_def suffix_single r(1))
    then show ?thesis using r(1) by simp
  next
    case (snoc rs c)
    show ?thesis
    proof (cases "c = CHR ''/''")
      case True
      then have "raw = (sch @ CHR '':'' # rs) @ ''/''" using r(1) snoc by simp
      then show ?thesis by (metis TrimSuffix_append)
    next
      case False
      then have "TrimSuffix raw ''/'' = raw" by (simp add: TrimSuffix_def suffix_single r(1) snoc)
      then show ?thesis using r(1) by simp
    qed
  qed
  then obtain z where "TrimSuffix raw ''/'' = sch @ CHR '':'' # z" by blast
  then show ?thesis
    using url_Parse_same_scheme [OF _ r(3,4), of X "z @ ''/'' @ sha" u] assms(3) r(2) by simp
qed

lemma Fetch_trace:
  assumes "Fetch X F N serverURL sha = (tr, r)"
  shows "list_all (hop_ok F) tr \<and> length tr \<le> max 1 (nat (f_maxRedirects F))"
proof (cases "validateScheme (mustURL X serverURL) (f_allowHTTP F)")
  case (Inl e)
  then show ?thesis using assms by (simp add: Fetch_def)
next
  case (Inr v)
  then have ok: "scheme_ok F (mustURL X serverURL)" using validateScheme_ok by blast
  show ?thesis
  proof (cases "url_Parse X (TrimSuffix serverURL ''/'' @ ''/'' @ sha)")
    case None
    then show ?thesis using assms Inr by (simp add: Fetch_def)
  next
    case (Some u)
    obtain tr' r' where d: "do_requests F N u 0 = (tr', r')" by force
    have "tr = tr'"
      using assms Inr Some d by (simp add: Fetch_def split: sum.splits)
    obtain u0 where u0: "url_Parse X serverURL = Some u0"
      using ok by (auto simp: mustURL_def scheme_ok_def empty_url_def split: option.splits)
    have "u_scheme u0 \<noteq> []" using ok u0 by (auto simp: mustURL_def scheme_ok_def)
    then have "u_scheme u = u_scheme u0" using target_scheme [OF u0 _ Some] by simp
    then have "scheme_ok F u" using ok u0 by (simp add: mustURL_def scheme_ok_def)
    then show ?thesis using do_requests_trace [OF _ d] \<open>tr = tr'\<close> by simp
  qed
qed

lemma check_reply_ok:
  assumes "check_reply X F server sha resp = Inr b"
  shows "status resp = 200 \<and> hash_hex X b = sha \<and> int (length b) \<le> f_maxBytes F"
proof -
  define buf where "buf = take (nat (f_maxBytes F + 1)) (body resp)"
  show ?thesis
    using assms unfolding check_reply_def buf_def [symmetric] Let_def by (auto split: if_splits)
qed

lemma Fetch_cases:
  assumes "Fetch X F N server sha = (tr, Inr b)"
  obtains u resp where "scheme_ok F (mustURL X server)"
    "url_Parse X (TrimSuffix server ''/'' @ ''/'' @ sha) = Some u"
    "do_requests F N u 0 = (tr, Inr resp)" "check_reply X F server sha resp = Inr b"
proof (cases "validateScheme (mustURL X server) (f_allowHTTP F)")
  case (Inl e)
  then show thesis using assms by (simp add: Fetch_def)
next
  case (Inr v)
  show thesis
  proof (cases "url_Parse X (TrimSuffix server ''/'' @ ''/'' @ sha)")
    case None
    then show thesis using assms Inr by (simp add: Fetch_def)
  next
    case (Some u)
    then show thesis
      using assms Inr that validateScheme_ok
      by (cases "do_requests F N u 0"; cases "snd (do_requests F N u 0)") (auto simp: Fetch_def)
  qed
qed

lemma Fetch_verified:
  assumes "Fetch X F N server sha = (tr, Inr b)"
  shows "hash_hex X b = sha \<and> int (length b) \<le> f_maxBytes F"
  using Fetch_cases [OF assms] check_reply_ok by metis

interpretation fetches: verified_source
  "\<lambda>(F, N, server) sha. snd (Fetch X F N server sha)" "\<lambda>sha b. hash_hex X b = sha" for X
proof unfold_locales
  fix s sha b
  assume "(case s of (F, N, server) \<Rightarrow> \<lambda>sha. snd (Fetch X F N server sha)) sha = Inr b"
  then obtain F N server where "snd (Fetch X F N server sha) = Inr b" by (cases s) auto
  then have "Fetch X F N server sha = (fst (Fetch X F N server sha), Inr b)"
    by (simp add: prod_eq_iff)
  then show "hash_hex X b = sha" using Fetch_verified by blast
qed

subsection \<open>The addresses the policy refuses\<close>

lemma forbiddenIP_ipv4:
  assumes "a < 256" and "b < 256" and "c < 256" and "d < 256"
  shows "forbiddenIP (Some (v4_mapped [of_nat a, of_nat b, of_nat c, of_nat d])) \<longleftrightarrow> internal_ipv4 a b c d"
  using internal_ip_ipv4 [OF assms] v4_mapped_not_ula by (auto simp: forbiddenIP_def)

subsection \<open>Properties\<close>

definition sample_fetcher :: fetcher where
  "sample_fetcher =
     fetch_New \<lparr>AllowHTTP = False, AllowLoopback = False, AllowLoopbackAddrs = [], MaxBytes = 10,
       Timeout = 0, MaxRedirects = 0\<rparr>"

definition sample_network :: network where
  "sample_network =
     \<lparr>net_addrs = (\<lambda>_. [''10.0.0.1:443'', ''8.8.8.8:443'']), net_connect = (\<lambda>_ _. True),
      net_reply = (\<lambda>_ _. Reply 200 NoLocation ''abcdef'' None), net_wrap = (\<lambda>_ m. m)\<rparr>"

definition blob_sha :: string where
  "blob_sha = hash_hex sample_ext ''abcdef''"

lemma sample_fetch:
  "snd (Fetch sample_ext sample_fetcher sample_network ''https://b.example/'' blob_sha) = Inr ''abcdef''"
  by code_simp

text \<open>C7: Verify before serve: the bytes \<^verbatim>\<open>Fetch\<close> returns hash to the asked digest and are no more
  than the byte cap, whatever the network does.\<close>

theorem fetch_verified:
  assumes "snd (Fetch X F N server sha) = Inr b"
  shows "hash_hex X b = sha \<and> int (length b) \<le> f_maxBytes F"
proof -
  have "Fetch X F N server sha = (fst (Fetch X F N server sha), Inr b)"
    using assms by (simp add: prod_eq_iff)
  then show ?thesis by (rule Fetch_verified)
qed

theorem fetch_verified_witness:
  "hash_hex sample_ext ''abcdef'' = blob_sha \<and> int (length ''abcdef'') \<le> f_maxBytes sample_fetcher"
  by (rule fetch_verified [OF sample_fetch])

text \<open>C21: The fetch boundary holds on every hop. Whatever the names resolve to and wherever the
  replies redirect, each request \<^verbatim>\<open>Fetch\<close> makes has an allowed scheme and goes to an address
  that passes the dial policy, and there are at most as many requests as the redirect cap
  of the fetcher.\<close>

theorem fetch_boundary:
  "(case Fetch X (fetch_New opts) N server sha of
      (tr, _) \<Rightarrow> list_all (hop_ok (fetch_New opts)) tr \<and> length tr \<le> nat (f_maxRedirects (fetch_New opts)))"
proof -
  obtain tr r where f: "Fetch X (fetch_New opts) N server sha = (tr, r)" by force
  have "1 \<le> f_maxRedirects (fetch_New opts)" by (simp add: fetch_New_def)
  then have "max 1 (nat (f_maxRedirects (fetch_New opts))) = nat (f_maxRedirects (fetch_New opts))"
    by linarith
  then show ?thesis using Fetch_trace [OF f] f by simp
qed

text \<open>C23: The dial policy refuses exactly the internal IPv4 addresses: with no allowance, dialling
  a dotted quad is an error iff it is loopback, private, link-local (the cloud metadata
  address included), multicast or unspecified.\<close>

theorem dial_policy_ipv4:
  assumes "a < 256" and "b < 256" and "c < 256" and "d < 256" and "list_all is_digit port"
  shows "checkDialAddr (dotted a b c d @ '':'' @ port) False {} = Inr () \<longleftrightarrow> \<not> internal_ipv4 a b c d"
proof -
  have dig: "x \<in> set port \<Longrightarrow> is_digit x" for x using assms(5) by (simp add: list_all_iff)
  have "x \<in> set (dotted a b c d) \<Longrightarrow> is_digit x \<or> x = CHR ''.''" for x
    using show_dec_digits(1) by (auto simp: dotted_def list_all_iff)
  then have sep: "CHR '':'' \<notin> set (dotted a b c d)" "CHR ''['' \<notin> set (dotted a b c d)"
    "CHR '']'' \<notin> set (dotted a b c d)"
    using digit_not_sep by fastforce+
  have "CHR '':'' \<notin> set port" "CHR ''['' \<notin> set port" "CHR '']'' \<notin> set port"
    using dig digit_not_sep by blast+
  then have "SplitHostPort (dotted a b c d @ '':'' @ port) = Inr (dotted a b c d, port)"
    using SplitHostPort_plain [OF sep] by simp
  then show ?thesis
    using forbiddenIP_ipv4 [OF assms(1-4)] ParseIP_dotted [OF assms(1-4)]
    by (simp add: checkDialAddr_def)
qed

theorem dial_policy_ipv4_witness:
  "checkDialAddr (dotted 169 254 169 254 @ '':'' @ ''80'') False {} \<noteq> Inr () \<and>
   checkDialAddr (dotted 8 8 8 8 @ '':'' @ ''443'') False {} = Inr ()"
  using dial_policy_ipv4 [of 169 254 169 254 "''80''"] dial_policy_ipv4 [of 8 8 8 8 "''443''"]
  by (simp add: internal_ipv4_def is_digit_def)

text \<open>What the allowances add: beyond what the strict policy accepts, an address is accepted
  only when its host is a loopback literal and either loopback is allowed altogether or
  that exact address is in the allowance.\<close>

lemma dial_allowance_exact:
  "checkDialAddr addr allowLoopback A = Inr () \<longleftrightarrow>
     checkDialAddr addr False {} = Inr () \<or>
     ((allowLoopback \<or> addr \<in> A) \<and>
      (\<exists>host port ip. SplitHostPort addr = Inr (host, port) \<and> ParseIP host = Some ip \<and> IsLoopback ip))"
  by (cases "SplitHostPort addr")
    (auto simp: checkDialAddr_def forbiddenIP_def split: option.splits prod.splits)

text \<open>A direct answer is delivered: when the first address that passes the policy accepts the
  connection and replies with status 200 and bytes of the asked digest within the cap,
  \<^verbatim>\<open>Fetch\<close> returns them.\<close>

lemma fetch_direct:
  assumes "scheme_ok F (mustURL X server)"
    and "url_Parse X (TrimSuffix server ''/'' @ ''/'' @ sha) = Some u" and "u_host u \<noteq> []"
    and "dial F N u (net_addrs N u) (plain_error ''no address'') = Inr a"
    and "net_reply N u a = Reply 200 l b None"
    and "hash_hex X b = sha" and "int (length b) \<le> f_maxBytes F"
  shows "Fetch X F N server sha = ([(u, a)], Inr b)"
proof -
  have "do_requests F N u 0 = ([(u, a)], Inr (Reply 200 l b None))"
    using assms(3-5) by (subst do_requests.simps) (simp add: is_redirect_def)
  moreover have "validateScheme (mustURL X server) (f_allowHTTP F) = Inr ()"
    using assms(1) by (auto simp: validateScheme_def scheme_ok_def)
  moreover have "take (nat (f_maxBytes F + 1)) b = b" using assms(7) by simp
  ultimately show ?thesis
    using assms(2,6,7) by (simp add: Fetch_def check_reply_def Let_def)
qed

lemma fetch_direct_witness:
  "snd (Fetch sample_ext sample_fetcher sample_network ''https://b.example/'' blob_sha) = Inr ''abcdef''"
proof -
  obtain u where u: "url_Parse sample_ext (TrimSuffix ''https://b.example/'' ''/'' @ ''/'' @ blob_sha) = Some u"
    and h: "u_host u = ''b.example''"
  proof -
    have "map_option u_host (url_Parse sample_ext
        (TrimSuffix ''https://b.example/'' ''/'' @ ''/'' @ blob_sha)) = Some ''b.example''"
      by code_simp
    then show thesis using that by auto
  qed
  have "scheme_ok sample_fetcher (mustURL sample_ext ''https://b.example/'')" by code_simp
  moreover have "checkDialAddr ''10.0.0.1:443'' False {} \<noteq> Inr ()"
    "checkDialAddr ''8.8.8.8:443'' False {} = Inr ()" by code_simp+
  then have "dial sample_fetcher sample_network u (net_addrs sample_network u) (plain_error ''no address'') =
      Inr ''8.8.8.8:443''"
    by (auto simp: sample_network_def sample_fetcher_def fetch_New_def split: sum.splits)
  moreover have "hash_hex sample_ext ''abcdef'' = blob_sha" by (simp add: blob_sha_def)
  ultimately show ?thesis
    using fetch_direct [OF _ u, of sample_fetcher sample_network "''8.8.8.8:443''" NoLocation "''abcdef''"] h
    by (simp add: sample_network_def sample_fetcher_def fetch_New_def)
qed

text \<open>The error class is one of nine fixed labels, so the label set of the failure metric is
  bounded; no error gives the empty label.\<close>

lemma classify_bounded:
  "ClassifyFetchError err \<in> {[], ''forbidden'', ''timeout'', ''canceled'', ''hash'', ''oversize'',
     ''redirect'', ''status'', ''network''} \<and>
   (ClassifyFetchError err = [] \<longleftrightarrow> err = None)"
  by (simp add: ClassifyFetchError_def split: option.splits)

subsection \<open>Where the code departs from its comments\<close>

text \<open>A literal with a zone is not parsed as an IP, so the link-local address is not refused.\<close>

lemma fe80_parsed: "ParseIP ''fe80::1'' = Some ([254, 128] @ replicate 12 0 @ [0, 1])"
proof -
  have hv: "hex_val (CHR ''f'') = Some 15" "hex_val (CHR ''e'') = Some 14" "hex_val (CHR ''8'') = Some 8"
    "hex_val (CHR ''0'') = Some 0" "hex_val (CHR '':'') = None" "hex_val (CHR ''1'') = Some 1"
    by (simp_all add: hex_val_def digit_val_def ascii_defs)
  have r: "hex_run ''1'' = ''1''" "group_val ''1'' = 1" "hex_run ''fe80::1'' = ''fe80''"
    "group_val ''fe80'' = 65152"
    by (simp_all add: hex_run_def group_val_def hv)
  have s1: "v6_groups [254, 128] (Some 2) ''1'' = Some ([254, 128, 0, 1], Some 2)"
    by (subst v6_groups.simps) (simp add: r Let_def)
  have "v6_groups [] None ''fe80::1'' = Some ([254, 128, 0, 1], Some 2)"
    by (subst v6_groups.simps) (simp add: r Let_def s1 numeral_2_eq_2 [symmetric])
  then show ?thesis by (simp add: ParseIP_def parseIPv6_def)
qed

lemma zone_bypasses_policy:
  "checkDialAddr ''[fe80::1]:80'' False {} \<noteq> Inr ()"
  "checkDialAddr ''[fe80::1%eth0]:80'' False {} = Inr ()"
proof -
  have rep: "replicate 10 x = x # replicate 9 x" for x :: "8 word" by (simp add: numeral_eq_Suc)
  have ll: "IsLinkLocalUnicast ([254, 128] @ replicate 12 0 @ [0, 1])"
    by (simp add: IsLinkLocalUnicast_def To4_def rep)
  have split: "SplitHostPort (CHR ''['' # ''fe80::1'' @ CHR '']'' # CHR '':'' # ''80'') = Inr (''fe80::1'', ''80'')"
    by (rule SplitHostPort_bracket) simp_all
  then show "checkDialAddr ''[fe80::1]:80'' False {} \<noteq> Inr ()"
    using ll by (simp add: checkDialAddr_def fe80_parsed forbiddenIP_def)
  show "checkDialAddr ''[fe80::1%eth0]:80'' False {} = Inr ()" by code_simp
qed

text \<open>The cap counts requests, so a cap of one follows no redirect at all.\<close>

lemma cap_one_follows_none:
  "f_maxRedirects F = 1 \<Longrightarrow> CheckRedirect F u (Suc 0) = Inl (plain_error ''too many redirects'')"
  by (simp add: CheckRedirect_def)

text \<open>The class of a status error can be chosen by the server's URL, which its text includes.\<close>

lemma class_from_url:
  "ClassifyFetchError (Some (plain_error (''blossom '' @ ''https://h/exceeds'' @ '': status '' @ show_dec 404))) =
     ''oversize''"
  by code_simp

end
