(* ===== verification/Config.thy ===== *)
theory Config
  imports GoNet GoUrl
begin

section \<open>Configuration (\<^verbatim>\<open>config.go\<close>)\<close>

text \<open>
  The configuration records, their defaults and \<open>Validate\<close> with its helpers. \<open>cfg_Load\<close> takes
  the outcome of reading the file and the TOML decoder (which overlays the defaults) as
  arguments; the environment variable of the test bed is the argument \<open>loopback\<close>. An error
  is a value of \<open>config_error\<close>, one constructor for each message.
\<close>

record relays_config =
  Lookup :: "string list"
  Extra :: "string list"
  ManifestTTLSeconds :: int
  NegativeTTLSeconds :: int

record local_config =
  bl_Enabled :: bool
  bl_Listen :: string
  bl_DataDir :: string
  bl_QuotaBytes :: int
  bl_MaxBlobBytes :: int
  bl_RetentionDays :: int
  bl_AllowPubkeys :: "string list"

record blossom_config =
  FallbackServers :: "string list"
  bc_AllowHTTP :: bool
  bc_Local :: local_config

record npk_config =
  np_Enabled :: bool
  np_CachePath :: string
  np_ReleaseTTL :: int
  np_CataloguePath :: string

record limits_config =
  li_MaxBlobBytes :: int
  li_FetchTimeoutSeconds :: int
  li_FetchConcurrency :: int
  li_MaxRedirects :: int
  li_CacheQuotaBytes :: int
  li_MaxPathsPerManifest :: int
  li_RequestsPerSecond :: int
  li_RequestsBurst :: int

record site_entry =
  st_Pubkey :: string
  st_Kind :: int
  st_D :: string

record custom_domain =
  cd_FQDN :: string
  cd_Pubkey :: string
  cd_D :: string

record config =
  Domain :: string
  Mode :: string
  PublicListen :: string
  InternalListen :: string
  CachePath :: string
  cf_Relays :: relays_config
  cf_Blossom :: blossom_config
  cf_Npk :: npk_config
  cf_Limits :: limits_config
  cf_Sites :: "site_entry list"
  cf_CustomDomains :: "custom_domain list"

definition DefaultMaxBlobBytes :: int where "DefaultMaxBlobBytes = 33554432"
definition MaxAllowedBlobBytes :: int where "MaxAllowedBlobBytes = 128 * 1024 * 1024"

definition DefaultFetchTimeoutSec :: int where "DefaultFetchTimeoutSec = 20"
definition DefaultFetchConcurrency :: int where "DefaultFetchConcurrency = 8"
definition DefaultMaxRedirects :: int where "DefaultMaxRedirects = 3"
definition DefaultCacheQuotaBytes :: int where "DefaultCacheQuotaBytes = 2147483648"
definition DefaultMaxPaths :: int where "DefaultMaxPaths = 5000"
definition DefaultBlossomListen :: string where "DefaultBlossomListen = ''127.0.0.1:8197''"
definition DefaultBlossomQuota :: int where "DefaultBlossomQuota = push_bit 30 1"
definition DefaultBlossomRetention :: int where "DefaultBlossomRetention = 30"


definition cfg_Defaults :: config where
  "cfg_Defaults =
     \<lparr>Domain = ''sites.example.org'', Mode = ''hosted'', PublicListen = ''127.0.0.1:8195'',
      InternalListen = ''127.0.0.1:8196'', CachePath = ''/var/cache/nostrhost-nsite'',
      cf_Relays = \<lparr>Lookup = [''wss://purplepag.es'', ''wss://user.kindpag.es''], Extra = [],
        ManifestTTLSeconds = 300, NegativeTTLSeconds = 60\<rparr>,
      cf_Blossom = \<lparr>FallbackServers = [], bc_AllowHTTP = False,
        bc_Local = \<lparr>bl_Enabled = False, bl_Listen = DefaultBlossomListen,
          bl_DataDir = ''/var/lib/nostrhost-nsite/blossom'', bl_QuotaBytes = DefaultBlossomQuota,
          bl_MaxBlobBytes = DefaultMaxBlobBytes, bl_RetentionDays = DefaultBlossomRetention, bl_AllowPubkeys = []\<rparr>\<rparr>,
      cf_Npk = \<lparr>np_Enabled = False, np_CachePath = ''/var/cache/nostrhost-nsite/npk'',
        np_ReleaseTTL = 300, np_CataloguePath = []\<rparr>,
      cf_Limits = \<lparr>li_MaxBlobBytes = DefaultMaxBlobBytes, li_FetchTimeoutSeconds = DefaultFetchTimeoutSec,
        li_FetchConcurrency = DefaultFetchConcurrency, li_MaxRedirects = DefaultMaxRedirects,
        li_CacheQuotaBytes = DefaultCacheQuotaBytes,
        li_MaxPathsPerManifest = DefaultMaxPaths, li_RequestsPerSecond = 50, li_RequestsBurst = 200\<rparr>,
      cf_Sites = [], cf_CustomDomains = []\<rparr>"

datatype url_error = UrlParse | UrlScheme string | UrlHost | UrlLoopback

datatype config_error =
  DomainRequired | DomainInvalid | BadMode | BadPublicListen | BadInternalListen | NoRelays
| BadRelay string url_error | BadServer string url_error | BadLocalListen | LocalNotLoopback
| LocalNoDir | LocalBlobTooBig | LocalBadPubkey string | NpkNoCache | NpkBadTTL
| CatalogueNotJson | CatalogueNotAbsolute | BlobTooBig | BlobNotPositive | QuotaNotPositive
| PathsNotPositive | NoCachePath | BadSitePubkey string | NoFQDN | BadFQDN string
| OverlapsDomain string | ParentOfDomain string | DuplicateFQDN string | BadCustomPubkey string
| ReadFailed | TomlFailed

subsection \<open>Host names\<close>

text \<open>\<open>hostnameRe\<close>. The flag \<^verbatim>\<open>(?i:...)\<close> covers the first label only, and its case folding also
  takes the long s and the Kelvin sign for the letters they fold to.\<close>

fun fold_label :: "string \<Rightarrow> string option" where
  "fold_label [] = Some []"
| "fold_label (c # s) =
     (if is_ascii c then map_option ((#) (lower_byte c)) (fold_label s)
      else if c = CHR 0xC5 \<and> prefix [CHR 0xBF] s then map_option ((#) (CHR ''s'')) (fold_label (drop 1 s))
      else if c = CHR 0xE2 \<and> prefix [CHR 0x84, CHR 0xAA] s
      then map_option ((#) (CHR ''k'')) (fold_label (drop 2 s))
      else None)"

definition label_char :: "char \<Rightarrow> bool" where
  "label_char c \<longleftrightarrow> is_lower c \<or> is_digit c"

definition host_label :: "string \<Rightarrow> bool" where
  "host_label l \<longleftrightarrow>
     l \<noteq> [] \<and> length l \<le> 63 \<and> list_all (\<lambda>c. label_char c \<or> c = CHR ''-'') l \<and>
     label_char (hd l) \<and> label_char (last l)"

definition hostnameRe :: "string \<Rightarrow> bool" where
  "hostnameRe s =
     (case Split s ''.'' of
        [] \<Rightarrow> False
      | l # ls \<Rightarrow> (case fold_label l of None \<Rightarrow> False | Some l' \<Rightarrow> host_label l') \<and> list_all host_label ls)"

definition isULA :: "ip \<Rightarrow> bool" where
  "isULA ip \<longleftrightarrow> length ip = 16 \<and> ip ! 0 AND 0xFE = 0xFC"

definition isLoopbackHost :: "ext \<Rightarrow> string \<Rightarrow> bool" where
  "isLoopbackHost X host =
     (if host = [] then False
      else if EqualFold host ''localhost'' \<or> HasSuffix (ToLower X host) ''.localhost'' then True
      else (case ParseIP host of Some ip \<Rightarrow> IsLoopback ip | None \<Rightarrow> False))"

definition forbiddenHost :: "ext \<Rightarrow> string \<Rightarrow> bool" where
  "forbiddenHost X host =
     (if host = [] then True
      else
        (let lower = ToLower X host
         in if lower = ''localhost'' \<or> HasSuffix lower ''.localhost'' then True
            else
              (case ParseIP host of
                 None \<Rightarrow> False
               | Some ip \<Rightarrow>
                   IsLoopback ip \<or> IsPrivate ip \<or> IsLinkLocalUnicast ip \<or> IsLinkLocalMulticast ip \<or>
                   IsUnspecified ip \<or> IsMulticast ip \<or> isULA ip)))"

subsection \<open>Addresses and URLs\<close>

definition validateListen :: "string \<Rightarrow> bool" where
  "validateListen s \<longleftrightarrow> s \<noteq> [] \<and> (case SplitHostPort s of Inl _ \<Rightarrow> False | Inr _ \<Rightarrow> True)"

definition validateURL :: "ext \<Rightarrow> string \<Rightarrow> string list \<Rightarrow> bool \<Rightarrow> url_error + url" where
  "validateURL X raw allowedSchemes requireHost =
     (case url_Parse X raw of
        None \<Rightarrow> Inl UrlParse
      | Some u \<Rightarrow>
          if \<not> list_ex (\<lambda>scheme. u_scheme u = scheme) allowedSchemes then Inl (UrlScheme (u_scheme u))
          else if requireHost \<and> u_host u = [] then Inl UrlHost
          else Inr u)"

definition validateRelayURL :: "ext \<Rightarrow> string \<Rightarrow> bool \<Rightarrow> url_error option" where
  "validateRelayURL X raw allowLoopback =
     (case validateURL X raw [''ws'', ''wss''] True of
        Inl e \<Rightarrow> Some e
      | Inr u \<Rightarrow> if \<not> allowLoopback \<and> forbiddenHost X (Hostname u) then Some UrlLoopback else None)"

definition validateBlossomURL :: "ext \<Rightarrow> string \<Rightarrow> bool \<Rightarrow> url_error option" where
  "validateBlossomURL X raw allowHTTP =
     (case validateURL X raw ([''https''] @ (if allowHTTP then [''http''] else [])) True of
        Inl e \<Rightarrow> Some e
      | Inr _ \<Rightarrow> None)"

subsection \<open>\<open>Validate\<close>\<close>

text \<open>A sequence of checks returns the first error; the loops return the error of the first bad
  element.\<close>

fun first_error :: "(unit \<Rightarrow> config_error option) list \<Rightarrow> config_error option" where
  "first_error [] = None"
| "first_error (f # fs) = (case f () of Some e \<Rightarrow> Some e | None \<Rightarrow> first_error fs)"

definition check :: "bool \<Rightarrow> config_error \<Rightarrow> unit \<Rightarrow> config_error option" where
  "check ok e = (\<lambda>_. if ok then None else Some e)"

fun each :: "('a \<Rightarrow> config_error option) \<Rightarrow> 'a list \<Rightarrow> unit \<Rightarrow> config_error option" where
  "each f [] = (\<lambda>_. None)"
| "each f (x # xs) = (\<lambda>_. case f x of Some e \<Rightarrow> Some e | None \<Rightarrow> each f xs ())"

definition all_relays :: "config \<Rightarrow> string list" where
  "all_relays c = Lookup (cf_Relays c) @ Extra (cf_Relays c)"

definition local_checks :: "ext \<Rightarrow> local_config \<Rightarrow> config_error option" where
  "local_checks X l =
     first_error
       [check (validateListen (bl_Listen l)) BadLocalListen,
        (\<lambda>_. case SplitHostPort (bl_Listen l) of
           Inl _ \<Rightarrow> Some BadLocalListen
         | Inr (host, _) \<Rightarrow> if isLoopbackHost X host then None else Some LocalNotLoopback),
        check (bl_DataDir l \<noteq> []) LocalNoDir,
        check (bl_MaxBlobBytes l \<le> MaxAllowedBlobBytes) LocalBlobTooBig,
        each (\<lambda>k. if length k \<noteq> 64 then Some (LocalBadPubkey k) else None) (bl_AllowPubkeys l)]"

definition norm_fqdn :: "ext \<Rightarrow> string \<Rightarrow> string" where
  "norm_fqdn X f = ToLower X (TrimSuffix f ''.'')"

text \<open>The loop over the custom domains, with the set of names seen.\<close>

fun custom_checks :: "ext \<Rightarrow> string \<Rightarrow> string set \<Rightarrow> custom_domain list \<Rightarrow> config_error option" where
  "custom_checks X domain seen [] = None"
| "custom_checks X domain seen (cd # cds) =
     (let fqdn = norm_fqdn X (cd_FQDN cd)
      in if cd_FQDN cd = [] then Some NoFQDN
         else if \<not> hostnameRe fqdn then Some (BadFQDN (cd_FQDN cd))
         else if fqdn = domain \<or> HasSuffix fqdn (CHR ''.'' # domain) then Some (OverlapsDomain (cd_FQDN cd))
         else if HasSuffix domain (CHR ''.'' # fqdn) then Some (ParentOfDomain (cd_FQDN cd))
         else if fqdn \<in> seen then Some (DuplicateFQDN (cd_FQDN cd))
         else if length (cd_Pubkey cd) \<noteq> 64 then Some (BadCustomPubkey (cd_FQDN cd))
         else custom_checks X domain (insert fqdn seen) cds)"

definition cfg_Validate :: "ext \<Rightarrow> bool \<Rightarrow> config \<Rightarrow> config_error option" where
  "cfg_Validate X loopback c =
     first_error
       [check (Domain c \<noteq> []) DomainRequired,
        check (hostnameRe (Domain c)) DomainInvalid,
        check (Mode c = ''hosted'' \<or> Mode c = ''open'') BadMode,
        check (validateListen (PublicListen c)) BadPublicListen,
        check (validateListen (InternalListen c)) BadInternalListen,
        check (all_relays c \<noteq> []) NoRelays,
        each (\<lambda>r. map_option (BadRelay r) (validateRelayURL X r loopback)) (all_relays c),
        each (\<lambda>s. map_option (BadServer s) (validateBlossomURL X s (bc_AllowHTTP (cf_Blossom c))))
          (FallbackServers (cf_Blossom c)),
        (\<lambda>_. if bl_Enabled (bc_Local (cf_Blossom c)) then local_checks X (bc_Local (cf_Blossom c))
             else None),
        check (np_Enabled (cf_Npk c) \<longrightarrow> np_CachePath (cf_Npk c) \<noteq> []) NpkNoCache,
        check (np_Enabled (cf_Npk c) \<longrightarrow> np_ReleaseTTL (cf_Npk c) > 0) NpkBadTTL,
        check (np_CataloguePath (cf_Npk c) \<noteq> [] \<longrightarrow> HasSuffix (np_CataloguePath (cf_Npk c)) ''.json'')
          CatalogueNotJson,
        check (np_CataloguePath (cf_Npk c) \<noteq> [] \<longrightarrow> HasPrefix (np_CataloguePath (cf_Npk c)) ''/'')
          CatalogueNotAbsolute,
        check (li_MaxBlobBytes (cf_Limits c) \<le> MaxAllowedBlobBytes) BlobTooBig,
        check (0 < li_MaxBlobBytes (cf_Limits c)) BlobNotPositive,
        check (0 < li_CacheQuotaBytes (cf_Limits c)) QuotaNotPositive,
        check (0 < li_MaxPathsPerManifest (cf_Limits c)) PathsNotPositive,
        check (CachePath c \<noteq> []) NoCachePath,
        each (\<lambda>s. if length (st_Pubkey s) \<noteq> 64 then Some (BadSitePubkey (st_Pubkey s)) else None)
          (cf_Sites c),
        (\<lambda>_. custom_checks X (Domain c) {} (cf_CustomDomains c))]"

definition cfg_Load ::
  "ext \<Rightarrow> bool \<Rightarrow> (config \<Rightarrow> bytes \<Rightarrow> config option) \<Rightarrow> bytes option \<Rightarrow> config_error + config" where
  "cfg_Load X loopback unmarshal raw =
     (case raw of
        None \<Rightarrow> Inl ReadFailed
      | Some b \<Rightarrow>
          (case unmarshal cfg_Defaults b of
             None \<Rightarrow> Inl TomlFailed
           | Some cfg \<Rightarrow>
               (case cfg_Validate X loopback cfg of Some e \<Rightarrow> Inl e | None \<Rightarrow> Inr cfg)))"

subsection \<open>What an accepted configuration satisfies\<close>

lemma first_error_None: "first_error fs = None \<longleftrightarrow> list_all (\<lambda>f. f () = None) fs"
  by (induction fs) (auto split: option.splits)

lemma check_None [simp]: "check ok e () = None \<longleftrightarrow> ok"
  by (simp add: check_def)

lemma each_None [simp]: "each f xs () = None \<longleftrightarrow> list_all (\<lambda>x. f x = None) xs"
  by (induction xs) (auto split: option.splits)

definition custom_ok :: "ext \<Rightarrow> string \<Rightarrow> custom_domain \<Rightarrow> bool" where
  "custom_ok X domain cd \<longleftrightarrow>
     (let fqdn = norm_fqdn X (cd_FQDN cd)
      in cd_FQDN cd \<noteq> [] \<and> hostnameRe fqdn \<and> fqdn \<noteq> domain \<and>
         \<not> HasSuffix fqdn (CHR ''.'' # domain) \<and> \<not> HasSuffix domain (CHR ''.'' # fqdn) \<and>
         length (cd_Pubkey cd) = 64)"

lemma insert_seen: "(\<forall>d \<in> D. n d \<notin> insert k S) \<longleftrightarrow> k \<notin> n ` D \<and> (\<forall>d \<in> D. n d \<notin> S)"
  by blast

lemma custom_checks_None:
  "custom_checks X domain seen cds = None \<longleftrightarrow>
     list_all (custom_ok X domain) cds \<and> distinct (map (\<lambda>cd. norm_fqdn X (cd_FQDN cd)) cds) \<and>
     (\<forall>cd \<in> set cds. norm_fqdn X (cd_FQDN cd) \<notin> seen)"
proof (induction cds arbitrary: seen)
  case (Cons cd cds)
  have "custom_checks X domain seen (cd # cds) = None \<longleftrightarrow> custom_ok X domain cd \<and>
      norm_fqdn X (cd_FQDN cd) \<notin> seen \<and>
      custom_checks X domain (insert (norm_fqdn X (cd_FQDN cd)) seen) cds = None"
    by (auto simp: Let_def custom_ok_def)
  then show ?case
    unfolding Cons.IH insert_seen by simp argo
qed simp

lemmas cfg_Validate_None = cfg_Validate_def first_error_None list.pred_inject check_None each_None
  custom_checks_None option.map_disc_iff

lemma Validate_custom:
  assumes "cfg_Validate X loopback c = None"
  shows "list_all (custom_ok X (Domain c)) (cf_CustomDomains c) \<and>
    distinct (map (\<lambda>cd. norm_fqdn X (cd_FQDN cd)) (cf_CustomDomains c))"
  using assms unfolding cfg_Validate_None by blast

lemma Validate_basic:
  assumes "cfg_Validate X loopback c = None"
  shows "hostnameRe (Domain c) \<and> (Mode c = ''hosted'' \<or> Mode c = ''open'') \<and>
    list_all (\<lambda>r. validateRelayURL X r loopback = None) (all_relays c) \<and> all_relays c \<noteq> [] \<and>
    list_all (\<lambda>s. length (st_Pubkey s) = 64) (cf_Sites c) \<and>
    0 < li_MaxBlobBytes (cf_Limits c) \<and> li_MaxBlobBytes (cf_Limits c) \<le> MaxAllowedBlobBytes \<and>
    0 < li_CacheQuotaBytes (cf_Limits c) \<and> 0 < li_MaxPathsPerManifest (cf_Limits c)"
proof -
  have "list_all (\<lambda>s. (if length (st_Pubkey s) \<noteq> 64 then Some (BadSitePubkey (st_Pubkey s)) else None) =
      None) (cf_Sites c)"
    using assms unfolding cfg_Validate_None by blast
  then have "list_all (\<lambda>s. length (st_Pubkey s) = 64) (cf_Sites c)"
    by (auto simp: list_all_iff split: if_splits)
  then show ?thesis using assms unfolding cfg_Validate_None by blast
qed

lemma Validate_local:
  assumes "cfg_Validate X loopback c = None" and "bl_Enabled (bc_Local (cf_Blossom c))"
  shows "\<exists>host port. SplitHostPort (bl_Listen (bc_Local (cf_Blossom c))) = Inr (host, port) \<and>
    isLoopbackHost X host"
proof -
  have "local_checks X (bc_Local (cf_Blossom c)) = None"
    using assms unfolding cfg_Validate_None by auto
  then show ?thesis
    unfolding local_checks_def first_error_None list.pred_inject
    by (auto split: sum.splits prod.splits if_splits)
qed

lemma validateRelayURL_None:
  "validateRelayURL X r False = None \<longleftrightarrow>
     (\<exists>u. url_Parse X r = Some u \<and> u_scheme u \<in> {''ws'', ''wss''} \<and> u_host u \<noteq> [] \<and>
        \<not> forbiddenHost X (Hostname u))"
  by (auto simp: validateRelayURL_def validateURL_def split: option.splits sum.splits if_splits)

lemma hostnameRe_chars:
  "hostnameRe s \<Longrightarrow> list_all (\<lambda>l. l \<noteq> []) (Split s ''.'')"
proof -
  assume h: "hostnameRe s"
  obtain l ls where sp: "Split s ''.'' = l # ls" by (cases "Split s ''.''") auto
  have "l \<noteq> []" using h by (auto simp: hostnameRe_def sp host_label_def)
  moreover have "list_all host_label ls" using h by (simp add: hostnameRe_def sp)
  ultimately show ?thesis by (auto simp: sp list_all_iff host_label_def)
qed

lemma hostnameRe_not_Nil: "hostnameRe s \<Longrightarrow> s \<noteq> []"
  using hostnameRe_chars by force

subsection \<open>Properties\<close>

lemma Defaults_valid: "cfg_Validate sample_ext False cfg_Defaults = None"
  by code_simp

lemma forbiddenHost_iff:
  "\<not> forbiddenHost X host \<longleftrightarrow>
     host \<noteq> [] \<and> ToLower X host \<noteq> ''localhost'' \<and> \<not> HasSuffix (ToLower X host) ''.localhost'' \<and>
     (\<forall>ip. ParseIP host = Some ip \<longrightarrow> \<not> internal_ip ip)"
proof (cases "ParseIP host")
  case (Some ip)
  then show ?thesis
    using internal_ip_iff [OF ParseIP_length [OF Some]] ParseIP_length [OF Some]
    by (auto simp: forbiddenHost_def isULA_def Let_def)
qed (auto simp: forbiddenHost_def Let_def)

text \<open>C40: The relay boundary (D5), exactly: outside the test bed, a relay URL passes if and only if it
  is a \<open>ws\<close> or \<open>wss\<close> URL whose host is not empty, is neither \<open>localhost\<close> nor a name below
  \<open>.localhost\<close> in any case, and, where it is an IP literal without a zone, is in none of
  the internal ranges of IPv4, IPv6 and mapped IPv4; and every relay of an accepted configuration
  passes. Names are not resolved here, and a literal with a zone, like \<open>fe80::1%eth0\<close>, is not
  an IP literal for the code, so it passes (\<open>zoned_relay_accepted\<close>).\<close>

theorem relays_external:
  assumes "cfg_Validate X False c = None"
  shows "(validateRelayURL X r False = None \<longleftrightarrow>
     (\<exists>u. url_Parse X r = Some u \<and> (u_scheme u = ''ws'' \<or> u_scheme u = ''wss'') \<and> u_host u \<noteq> [] \<and>
        Hostname u \<noteq> [] \<and> ToLower X (Hostname u) \<noteq> ''localhost'' \<and>
        \<not> HasSuffix (ToLower X (Hostname u)) ''.localhost'' \<and>
        (\<forall>ip. ParseIP (Hostname u) = Some ip \<longrightarrow> \<not> internal_ip ip))) \<and>
    (r \<in> set (all_relays c) \<longrightarrow> validateRelayURL X r False = None)"
  using Validate_basic [OF assms]
  by (auto simp: validateRelayURL_None forbiddenHost_iff list_all_iff)

definition literal_relay_config :: config where
  "literal_relay_config = cfg_Defaults\<lparr>cf_Relays := (cf_Relays cfg_Defaults)\<lparr>Lookup := [''ws://9.8.7.6'']\<rparr>\<rparr>"

lemma literal_relay_accepted: "cfg_Validate sample_ext False literal_relay_config = None"
  by code_simp

theorem relays_external_witness:
  "(\<exists>u ip. url_Parse sample_ext ''ws://9.8.7.6'' = Some u \<and> ParseIP (Hostname u) = Some ip \<and> \<not> internal_ip ip) \<and>
   validateRelayURL sample_ext ''ws://10.8.7.6'' False \<noteq> None"
proof -
  have "''ws://9.8.7.6'' \<in> set (all_relays literal_relay_config)" by code_simp
  then obtain u where u: "url_Parse sample_ext ''ws://9.8.7.6'' = Some u"
      "\<And>ip. ParseIP (Hostname u) = Some ip \<Longrightarrow> \<not> internal_ip ip"
    using relays_external [OF literal_relay_accepted, of "''ws://9.8.7.6''"] by fast
  have "map_option (\<lambda>u. ParseIP (Hostname u) \<noteq> None) (url_Parse sample_ext ''ws://9.8.7.6'') = Some True"
    by code_simp
  with u obtain ip where "ParseIP (Hostname u) = Some ip" "\<not> internal_ip ip" by auto
  moreover have "map_option (\<lambda>u. map_option internal_ip (ParseIP (Hostname u)))
      (url_Parse sample_ext ''ws://10.8.7.6'') = Some (Some True)" by code_simp
  ultimately show ?thesis
    using u(1) relays_external [OF literal_relay_accepted, of "''ws://10.8.7.6''"] by auto
qed

text \<open>An accepted configuration is within bounds: a host name as its domain, a known mode, at
  least one relay, positive limits, a blob cap of at most 128 MiB, 64-character site keys,
  and, when the local Blossom server is enabled, a listen address whose host is loopback.\<close>

lemma accepted_config_bounds:
  assumes "cfg_Validate X loopback c = None"
  shows "hostnameRe (Domain c) \<and> (Mode c = ''hosted'' \<or> Mode c = ''open'') \<and> all_relays c \<noteq> [] \<and>
    0 < li_MaxBlobBytes (cf_Limits c) \<and> li_MaxBlobBytes (cf_Limits c) \<le> 134217728 \<and>
    0 < li_CacheQuotaBytes (cf_Limits c) \<and> 0 < li_MaxPathsPerManifest (cf_Limits c) \<and>
    list_all (\<lambda>s. length (st_Pubkey s) = 64) (cf_Sites c) \<and>
    (bl_Enabled (bc_Local (cf_Blossom c)) \<longrightarrow>
       (\<exists>host port. SplitHostPort (bl_Listen (bc_Local (cf_Blossom c))) = Inr (host, port) \<and>
          isLoopbackHost X host))"
  using Validate_basic [OF assms] Validate_local [OF assms] by (auto simp: MaxAllowedBlobBytes_def)

lemma accepted_config_bounds_witness: "hostnameRe (Domain cfg_Defaults)"
  using accepted_config_bounds [OF Defaults_valid] by blast

text \<open>Only validated configurations are loaded: what \<^verbatim>\<open>Load\<close> returns was decoded over the
  defaults and passed \<^verbatim>\<open>Validate\<close>; any read, decode or validation failure is an error.\<close>

lemma load_validates:
  "cfg_Load X loopback unmarshal raw = Inr cfg \<longleftrightarrow>
     (\<exists>b. raw = Some b \<and> unmarshal cfg_Defaults b = Some cfg \<and> cfg_Validate X loopback cfg = None)"
  by (auto simp: cfg_Load_def split: option.splits)

subsection \<open>Where the code departs from its messages\<close>

text \<open>Keys of 64 characters are accepted whatever the characters are.\<close>

lemma site_key_not_hex:
  "cfg_Validate sample_ext False
     (cfg_Defaults\<lparr>cf_Sites := [\<lparr>st_Pubkey = replicate 64 (CHR ''z''), st_Kind = 0, st_D = []\<rparr>]\<rparr>) = None"
  by code_simp

text \<open>A link-local literal is refused as a relay, the same literal with a zone is not.\<close>

lemma zoned_relay_accepted:
  "validateRelayURL sample_ext ''ws://[fe80::1%25e]'' False = None"
  "validateRelayURL sample_ext ''ws://169.254.0.1'' False = Some UrlLoopback"
proof -
  have plain: "unescape EncHost ''[fe80::1'' = Some ''[fe80::1''" "unescape EncHost '']'' = Some '']''"
    "unescape EncZone ''%25e'' = Some ''%e''"
    by (simp_all add: hex_val_def digit_val_def ascii_defs is_alnum_def host_escape_def char_of_def bit_0)
  then have host: "url_parseHost ''[fe80::1%25e]'' = Some ''[fe80::1%e]''"
    by (simp add: url_parseHost_def plain validOptionalPort_def)
  have "get_scheme [] ''ws://[fe80::1%25e]'' = Some (''ws'', ''//[fe80::1%25e]'')" by code_simp
  moreover have "list_ex is_control ''ws://[fe80::1%25e]'' = False" by code_simp
  moreover have "ToLower sample_ext ''ws'' = ''ws''" by code_simp
  ultimately have "url_Parse sample_ext ''ws://[fe80::1%25e]'' =
      Some (empty_url\<lparr>u_scheme := ''ws'', u_host := ''[fe80::1%e]''\<rparr>)"
    using host by (simp add: url_Parse_def parse_ref_def cut_query_def suffix_def parseAuthority_def with_path_def
        empty_url_def)
  moreover have "forbiddenHost sample_ext ''fe80::1%e'' = False" by code_simp
  moreover have "Hostname (empty_url\<lparr>u_scheme := ''ws'', u_host := ''[fe80::1%e]''\<rparr>) = ''fe80::1%e''"
    by code_simp
  ultimately show "validateRelayURL sample_ext ''ws://[fe80::1%25e]'' False = None"
    by (simp add: validateRelayURL_def validateURL_def empty_url_def)
  show "validateRelayURL sample_ext ''ws://169.254.0.1'' False = Some UrlLoopback" by code_simp
qed

text \<open>The management listener is described as loopback-only, but any \<open>host:port\<close> is accepted for it,
  and also the address of the public listener.\<close>

lemma internal_listener_anywhere:
  "cfg_Validate sample_ext False (cfg_Defaults\<lparr>InternalListen := ''0.0.0.0:8196''\<rparr>) = None"
  "cfg_Validate sample_ext False (cfg_Defaults\<lparr>InternalListen := PublicListen cfg_Defaults\<rparr>) = None"
  by code_simp+

end
