(* ===== verification/Http.thy ===== *)
theory Http
  imports GoNet
begin

section \<open>Responses of \<^verbatim>\<open>net/http\<close> handlers\<close>

text \<open>
  What a handler of either HTTP server leaves in its \<^verbatim>\<open>ResponseWriter\<close>: the status, the headers
  it set and the body, with the standard library's \<open>Error\<close> and \<open>NotFound\<close>.
\<close>

record response =
  rp_status :: nat
  rp_headers :: "(string \<times> string) list"
  rp_body :: bytes

abbreviation newline :: char where
  "newline \<equiv> CHR 0x0A"

text \<open>\<open>http.Error\<close> and \<open>http.NotFound\<close> on a response without headers.\<close>

definition http_Error :: "string \<Rightarrow> nat \<Rightarrow> response" where
  "http_Error msg code =
     \<lparr>rp_status = code,
      rp_headers = [(''Content-Type'', ''text/plain; charset=utf-8''), (''X-Content-Type-Options'', ''nosniff'')],
      rp_body = msg @ [newline]\<rparr>"

definition http_NotFound :: response where
  "http_NotFound = http_Error ''404 page not found'' 404"

definition ok_page :: "string \<Rightarrow> bytes \<Rightarrow> response" where
  "ok_page ct b = \<lparr>rp_status = 200, rp_headers = [(''Content-Type'', ct)], rp_body = b\<rparr>"

lemma http_NotFound_simps [simp]: "rp_status http_NotFound = 404"
  "rp_headers http_NotFound = [(''Content-Type'', ''text/plain; charset=utf-8''), (''X-Content-Type-Options'', ''nosniff'')]"
  by (simp_all add: http_NotFound_def http_Error_def)

definition show_int :: "int \<Rightarrow> string" where
  "show_int i = (if i < 0 then CHR ''-'' # show_dec (nat (- i)) else show_dec (nat i))"

end
