(* ===== verification/Metrics.thy ===== *)
theory Metrics
  imports Http
begin

section \<open>Metrics (\<^verbatim>\<open>metrics.go\<close>)\<close>

text \<open>
  The registry with its counter and histogram families. A panic of the Go code is \<open>None\<close>: a
  label set of the wrong arity, adding to a labelled family without \<open>With\<close>, adding a
  negative number, registering one name as two kinds of family, or making a histogram whose
  buckets do not increase.

  The registry holds the families by name with their options (help text, label keys, buckets),
  and for each child (a family's name with one value per key) its value or its observations;
  what \<^verbatim>\<open>client_golang\<close> makes of them, the text exposition, is an argument of the handler. A
  counter or histogram handle is a family or a view scoped to one child.
\<close>

type_synonym child = "string \<times> string list"

record counter_opts =
  co_help :: string
  co_labelKeys :: "string list"

record histogram_opts =
  ho_help :: string
  ho_labelKeys :: "string list"
  ho_buckets :: "int list"

record registry =
  rg_counters :: "string \<rightharpoonup> counter_opts"
  rg_histograms :: "string \<rightharpoonup> histogram_opts"
  rg_counts :: "child \<rightharpoonup> int"
  rg_samples :: "child \<rightharpoonup> int list"

text \<open>The handles: \<open>h_cur\<close> and \<open>hg_cur\<close> are the scoped child, if any.\<close>

record handle =
  h_name :: string
  h_labelKeys :: "string list"
  h_cur :: "string list option"

record histogram =
  hg_name :: string
  hg_labelKeys :: "string list"
  hg_cur :: "string list option"

definition metrics_New :: registry where
  "metrics_New = \<lparr>rg_counters = Map.empty, rg_histograms = Map.empty, rg_counts = Map.empty,
     rg_samples = Map.empty\<rparr>"

text \<open>Creating the child of a label set leaves an existing one alone.\<close>

definition touch :: "child \<Rightarrow> 'v \<Rightarrow> (child \<rightharpoonup> 'v) \<Rightarrow> (child \<rightharpoonup> 'v)" where
  "touch k v m = (case m k of None \<Rightarrow> m(k \<mapsto> v) | Some _ \<Rightarrow> m)"

definition rg_Counter :: "string \<Rightarrow> string \<Rightarrow> string list \<Rightarrow> registry \<Rightarrow> (handle \<times> registry) option" where
  "rg_Counter name help keys r =
     (case rg_counters r name of
        Some c \<Rightarrow> Some (\<lparr>h_name = name, h_labelKeys = co_labelKeys c, h_cur = None\<rparr>, r)
      | None \<Rightarrow>
          if rg_histograms r name \<noteq> None then None
          else Some (\<lparr>h_name = name, h_labelKeys = keys, h_cur = None\<rparr>,
            r\<lparr>rg_counters := (rg_counters r)(name \<mapsto> \<lparr>co_help = help, co_labelKeys = keys\<rparr>),
              rg_counts := (if keys = [] then touch (name, []) 0 (rg_counts r) else rg_counts r)\<rparr>))"

text \<open>The first child of a histogram is made with the buckets of the family, which must increase.\<close>

definition buckets_ok :: "int list \<Rightarrow> bool" where
  "buckets_ok buckets \<longleftrightarrow> sorted_wrt (<) buckets"

definition rg_Histogram ::
  "string \<Rightarrow> string \<Rightarrow> int list \<Rightarrow> string list \<Rightarrow> registry \<Rightarrow> (histogram \<times> registry) option" where
  "rg_Histogram name help buckets keys r =
     (case rg_histograms r name of
        Some h \<Rightarrow> Some (\<lparr>hg_name = name, hg_labelKeys = ho_labelKeys h, hg_cur = None\<rparr>, r)
      | None \<Rightarrow>
          if rg_counters r name \<noteq> None then None
          else if keys = [] \<and> \<not> buckets_ok buckets then None
          else Some (\<lparr>hg_name = name, hg_labelKeys = keys, hg_cur = None\<rparr>,
            r\<lparr>rg_histograms := (rg_histograms r)
                (name \<mapsto> \<lparr>ho_help = help, ho_labelKeys = keys, ho_buckets = buckets\<rparr>),
              rg_samples := (if keys = [] then touch (name, []) [] (rg_samples r) else rg_samples r)\<rparr>))"

definition counter_With :: "string list \<Rightarrow> handle \<Rightarrow> registry \<Rightarrow> (handle \<times> registry) option" where
  "counter_With labelValues c r =
     (if length labelValues \<noteq> length (h_labelKeys c) then None
      else Some (c\<lparr>h_cur := Some labelValues\<rparr>,
        r\<lparr>rg_counts := touch (h_name c, labelValues) 0 (rg_counts r)\<rparr>))"

definition histogram_With :: "string list \<Rightarrow> histogram \<Rightarrow> registry \<Rightarrow> (histogram \<times> registry) option" where
  "histogram_With labelValues h r =
     (if length labelValues \<noteq> length (hg_labelKeys h) then None
      else if (case rg_histograms r (hg_name h) of None \<Rightarrow> False | Some f \<Rightarrow> \<not> buckets_ok (ho_buckets f)) then None
      else Some (h\<lparr>hg_cur := Some labelValues\<rparr>,
        r\<lparr>rg_samples := touch (hg_name h, labelValues) [] (rg_samples r)\<rparr>))"

definition counter_Add :: "int \<Rightarrow> handle \<Rightarrow> registry \<Rightarrow> registry option" where
  "counter_Add n c r =
     (case (case h_cur c of None \<Rightarrow> if h_labelKeys c \<noteq> [] then None else Some [] | Some vs \<Rightarrow> Some vs) of
        None \<Rightarrow> None
      | Some vs \<Rightarrow>
          if n < 0 then None
          else
            (let k = (h_name c, vs); m = touch k 0 (rg_counts r)
             in Some (r\<lparr>rg_counts := m(k \<mapsto> the (m k) + n)\<rparr>)))"

definition counter_Inc :: "handle \<Rightarrow> registry \<Rightarrow> registry option" where
  "counter_Inc c r = counter_Add 1 c r"

definition histogram_Observe :: "int \<Rightarrow> histogram \<Rightarrow> registry \<Rightarrow> registry option" where
  "histogram_Observe v h r =
     (case (case hg_cur h of None \<Rightarrow> if hg_labelKeys h \<noteq> [] then None else Some [] | Some vs \<Rightarrow> Some vs) of
        None \<Rightarrow> None
      | Some vs \<Rightarrow>
          (let k = (hg_name h, vs); m = touch k [] (rg_samples r)
           in Some (r\<lparr>rg_samples := m(k \<mapsto> the (m k) @ [v])\<rparr>)))"

subsection \<open>The exposition\<close>

text \<open>\<open>Handler\<close> serves what the collectors of the registry hold: \<open>expo\<close> is \<^verbatim>\<open>promhttp.HandlerFor\<close>
  over a registry. \<open>Render\<close> is the body it writes into a recorder.\<close>

definition rg_Handler :: "(registry \<Rightarrow> response) \<Rightarrow> registry \<Rightarrow> response" where
  "rg_Handler expo r = expo r"

definition rg_Render :: "(registry \<Rightarrow> response) \<Rightarrow> registry \<Rightarrow> string" where
  "rg_Render expo r = (let rec = rg_Handler expo r in rp_body rec)"

definition count_of :: "registry \<Rightarrow> child \<Rightarrow> int" where
  "count_of r k = (case rg_counts r k of None \<Rightarrow> 0 | Some n \<Rightarrow> n)"

lemma touch_eq: "touch k v m = (if m k = None then m(k \<mapsto> v) else m)"
  by (auto simp: touch_def split: option.splits)

lemma touch_count: "(case touch k 0 m k' of None \<Rightarrow> 0 | Some n \<Rightarrow> n) = (case m k' of None \<Rightarrow> 0 | Some n \<Rightarrow> n)"
  for m :: "child \<rightharpoonup> int"
  by (auto simp: touch_eq split: option.splits)

lemma With_count: "counter_With vs c r = Some (c', r') \<Longrightarrow> count_of r' k = count_of r k"
  by (auto simp: counter_With_def count_of_def touch_count split: if_splits)

lemma Add_count:
  assumes "counter_Add n c r = Some r'" and "h_cur c = Some vs"
  shows "count_of r' k = count_of r k + (if k = (h_name c, vs) then n else 0)"
  using assms by (auto simp: counter_Add_def count_of_def touch_eq Let_def split: if_splits option.splits)

subsection \<open>Properties\<close>

text \<open>Exactly the wrong arity panics, and a scoped counter records only under its own label
  set: \<open>With\<close> fails iff the number of values differs from the number of keys, and adding
  through the view it returns adds to that child and to no other.\<close>

lemma counter_scoped:
  "(counter_With vs c r = None \<longleftrightarrow> length vs \<noteq> length (h_labelKeys c)) \<and>
   (case counter_With vs c r of
      None \<Rightarrow> True
    | Some (c', r') \<Rightarrow>
        (case counter_Add n c' r' of
           None \<Rightarrow> n < 0
         | Some r'' \<Rightarrow> n \<ge> 0 \<and> count_of r'' k = count_of r k + (if k = (h_name c, vs) then n else 0)))"
proof (cases "length vs = length (h_labelKeys c)")
  case True
  let ?c = "c\<lparr>h_cur := Some vs\<rparr>" and ?r = "r\<lparr>rg_counts := touch (h_name c, vs) 0 (rg_counts r)\<rparr>"
  have w: "counter_With vs c r = Some (?c, ?r)" using True by (simp add: counter_With_def)
  show ?thesis
  proof (cases "counter_Add n ?c ?r")
    case None
    then have "n < 0" by (auto simp: counter_Add_def Let_def split: if_splits)
    then show ?thesis using True None by (simp add: w)
  next
    case (Some r'')
    then have "n \<ge> 0" by (auto simp: counter_Add_def split: if_splits)
    then show ?thesis
      using True Add_count [OF Some, of vs k] With_count [OF w, of k] Some by (simp add: w)
  qed
qed (simp add: counter_With_def)

text \<open>A family is made once: registering a name again as the same kind, with any options, gives the
  handle of the first registration and changes nothing, and as the other kind it panics.\<close>

lemma registered_once:
  assumes "rg_Counter name help keys r = Some (c, r')"
  shows "rg_Counter name help' keys' r' = Some (c, r') \<and>
    (rg_histograms r name = None \<longrightarrow> rg_Histogram name help' buckets keys' r' = None)"
  using assms by (auto simp: rg_Counter_def rg_Histogram_def split: option.splits if_splits)

text \<open>What an unlabelled histogram holds is exactly the sequence of the values observed.\<close>

lemma observed_in_order:
  assumes "hg_cur h = None" and "hg_labelKeys h = []" and "rg_samples r (hg_name h, []) = Some vs"
  shows "\<exists>r'. fold (\<lambda>v ro. Option.bind ro (histogram_Observe v h)) xs (Some r) = Some r' \<and>
    rg_samples r' (hg_name h, []) = Some (vs @ xs)"
  using assms(3)
proof (induction xs arbitrary: r vs)
  case (Cons x xs)
  obtain r1 where r1: "histogram_Observe x h r = Some r1" "rg_samples r1 (hg_name h, []) = Some (vs @ [x])"
    using assms(1,2) Cons.prems by (simp add: histogram_Observe_def touch_eq Let_def)
  show ?case using Cons.IH [OF r1(2)] r1(1) by simp
qed simp

end
