(* ===== verification/Paths.thy ===== *)
theory Paths
  imports GoUrl Manifest
begin

section \<open>Request paths and content types (the pure helpers of \<^verbatim>\<open>server.go\<close>)\<close>

text \<open>
  \<open>normalisePath\<close> maps a request path to the manifest path it stands for, or rejects it.
  The rune loop over a segment only looks for ASCII control characters, so it is a loop
  over bytes here.
\<close>

definition lastSegment :: "string \<Rightarrow> string" where
  "lastSegment p = (case LastIndexByte p (CHR ''/'') of Some i \<Rightarrow> drop (Suc i) p | None \<Rightarrow> p)"

definition bad_segment :: "string \<Rightarrow> bool" where
  "bad_segment seg \<longleftrightarrow> Contains seg ''..'' \<or> Contains seg [CHR 0x5C] \<or> list_ex is_control seg"

definition collapse :: "string \<Rightarrow> string" where
  "collapse p = Join (Split p ''//'') ''/''"

definition add_index :: "string \<Rightarrow> string" where
  "add_index p =
     (if HasSuffix p ''/'' \<or> \<not> Contains (lastSegment p) ''.''
      then TrimSuffix p ''/'' @ ''/index.html'' else p)"

definition normalisePath :: "string \<Rightarrow> string option" where
  "normalisePath p =
     (case PathUnescape p of
        None \<Rightarrow> None
      | Some decoded \<Rightarrow>
          if Contains decoded ''%'' then None
          else if \<not> HasPrefix decoded ''/'' then None
          else if list_ex bad_segment (Split (collapse decoded) ''/'') then None
          else Some (add_index (collapse decoded)))"

definition content_types :: "(string \<times> string) list" where
  "content_types =
     [(''.html'', ''text/html; charset=utf-8''), (''.htm'', ''text/html; charset=utf-8''),
      (''.css'', ''text/css''), (''.js'', ''text/javascript''), (''.mjs'', ''text/javascript''),
      (''.json'', ''application/json''), (''.txt'', ''text/plain''), (''.xml'', ''application/xml''),
      (''.svg'', ''image/svg+xml''), (''.ico'', ''image/x-icon''), (''.png'', ''image/png''),
      (''.jpg'', ''image/jpeg''), (''.jpeg'', ''image/jpeg''), (''.gif'', ''image/gif''),
      (''.webp'', ''image/webp''), (''.woff2'', ''font/woff2''), (''.wasm'', ''application/wasm''),
      (''.pdf'', ''application/pdf''), (''.webmanifest'', ''application/manifest+json'')]"

definition octet_stream :: string where
  "octet_stream = ''application/octet-stream''"

definition contentTypeFor :: "ext \<Rightarrow> string \<Rightarrow> string" where
  "contentTypeFor X path =
     (case LastIndexByte path (CHR ''.'') of
        None \<Rightarrow> octet_stream
      | Some i \<Rightarrow>
          (case map_of content_types (ToLower X (drop i path)) of
             Some ct \<Rightarrow> ct | None \<Rightarrow> octet_stream))"

definition serverHints :: "string list list \<Rightarrow> string list" where
  "serverHints tags = map (\<lambda>t. t ! 1) (filter (\<lambda>t. length t \<ge> 2 \<and> t ! 0 = ''server'') tags)"

definition stripPort :: "string \<Rightarrow> string" where
  "stripPort host = (case LastIndexByte host (CHR '':'') of Some i \<Rightarrow> take i host | None \<Rightarrow> host)"

subsection \<open>What a normalised path looks like\<close>

lemma sublist_single: "sublist [c] s \<longleftrightarrow> c \<in> set s"
proof
  show "sublist [c] s \<Longrightarrow> c \<in> set s" using set_mono_sublist by fastforce
  show "c \<in> set s \<Longrightarrow> sublist [c] s" by (metis in_set_conv_decomp sublist_appendI append_Cons append_Nil)
qed

lemma Split_set:
  "\<Union> (set ` set (Split s sep)) \<subseteq> set s"
proof (induction s sep rule: Split.induct)
  case (1 s sep)
  show ?case
  proof (cases s)
    case (Cons c t)
    have d: "set (drop (length sep) s) \<subseteq> set s" by (rule set_drop_subset)
    show ?thesis
    proof (cases "sep \<noteq> [] \<and> prefix sep s")
      case True
      then have "\<Union> (set ` set (Split (drop (length sep) s) sep)) \<subseteq> set (drop (length sep) s)"
        using 1 Cons by auto
      then show ?thesis using True Cons d by (subst Split.simps) auto
    next
      case False
      then have "\<Union> (set ` set (Split t sep)) \<subseteq> set t" using 1 Cons by auto
      then show ?thesis using False Cons by (subst Split.simps) (auto simp: set_cons_hd)
    qed
  qed simp
qed

lemma Join_set: "set (Join ys sep) \<subseteq> \<Union> (set ` set ys) \<union> set sep"
  by (induction ys sep rule: Join.induct) auto

lemma collapse_set: "set (collapse p) \<subseteq> set p \<union> {CHR ''/''}"
  unfolding collapse_def using Join_set [of "Split p ''//''" "''/''"] Split_set [of p "''//''"] by auto

lemma collapse_prefix: "HasPrefix p ''/'' \<Longrightarrow> HasPrefix (collapse p) ''/''"
proof -
  assume "HasPrefix p ''/''"
  then obtain t where p: "p = CHR ''/'' # t" by (auto simp: prefix_def)
  show ?thesis
  proof (cases "prefix ''/'' t")
    case True
    then obtain u where t: "t = CHR ''/'' # u" by (auto simp: prefix_def)
    have "Split p ''//'' = [] # Split u ''//''"
      by (subst Split.simps) (simp add: p t)
    then show ?thesis by (simp add: collapse_def Join_Cons)
  next
    case False
    then have "Split p ''//'' = cons_hd (CHR ''/'') (Split t ''//'')"
      by (subst Split.simps) (simp add: p)
    then show ?thesis by (simp add: collapse_def Join_cons_hd)
  qed
qed

text \<open>A segment-wise absence of a pattern without slashes is its absence from the path.\<close>

lemma no_pattern:
  assumes "CHR ''/'' \<notin> set t" and "t \<noteq> []" and "list_all (\<lambda>seg. \<not> sublist t seg) (Split p ''/'')"
  shows "\<not> sublist t p"
  using sublist_segment [OF assms(1,2)] assms(3) by (auto simp: list_all_iff)

definition safe_path :: "string \<Rightarrow> bool" where
  "safe_path p \<longleftrightarrow>
     HasPrefix p ''/'' \<and> \<not> Contains p ''..'' \<and> CHR 0x5C \<notin> set p \<and> \<not> list_ex is_control p \<and>
     CHR ''%'' \<notin> set p"

lemma good_segments_safe:
  assumes "HasPrefix p ''/''" and "\<not> list_ex bad_segment (Split p ''/'')" and "CHR ''%'' \<notin> set p"
  shows "safe_path p"
proof -
  have segs: "\<not> bad_segment seg" if "seg \<in> set (Split p ''/'')" for seg
    using assms(2) that by (auto simp: list_ex_iff)
  have "list_all (\<lambda>seg. \<not> sublist ''..'' seg) (Split p ''/'')"
    unfolding list_all_iff using segs [unfolded bad_segment_def] by blast
  then have "\<not> Contains p ''..''" by (rule no_pattern [rotated 2]) simp_all
  moreover have inseg: "\<exists>seg \<in> set (Split p ''/''). c \<in> set seg" if "c \<in> set p" "c \<noteq> CHR ''/''" for c
  proof -
    have "c \<in> \<Union> (set ` set (Split p ''/''))" using that unfolding Split_byte_set by simp
    then show ?thesis by blast
  qed
  have "CHR 0x5C \<notin> set p"
  proof
    assume "CHR 0x5C \<in> set p"
    then obtain seg where "seg \<in> set (Split p ''/'')" "CHR 0x5C \<in> set seg" using inseg by auto
    then show False using segs by (auto simp: bad_segment_def sublist_single)
  qed
  moreover have "\<not> is_control c" if "c \<in> set p" for c
  proof (cases "c = CHR ''/''")
    case True
    then show ?thesis by (simp add: is_control_def)
  next
    case False
    then obtain seg where "seg \<in> set (Split p ''/'')" "c \<in> set seg" using inseg \<open>c \<in> set p\<close> by auto
    then show ?thesis using segs by (auto simp: bad_segment_def list_ex_iff)
  qed
  then have "\<not> list_ex is_control p" by (auto simp: list_ex_iff)
  ultimately show ?thesis using assms(1,3) by (simp add: safe_path_def)
qed

lemma sublist_append_disjoint:
  assumes "sublist [a, a] (x @ b # y)" and "b \<noteq> a"
  shows "sublist [a, a] x \<or> sublist [a, a] y"
  using assms
proof (induction x)
  case Nil
  then show ?case by (auto simp: sublist_Cons_right)
next
  case (Cons c x)
  then show ?case
    by (cases x) (auto simp: sublist_Cons_right)
qed

lemma add_index_safe:
  assumes "safe_path p"
  shows "safe_path (add_index p)"
proof (cases "HasSuffix p ''/'' \<or> \<not> Contains (lastSegment p) ''.''")
  case True
  let ?q = "TrimSuffix p ''/''"
  have sub: "set ?q \<subseteq> set p" by (rule set_TrimSuffix)
  have idx: "\<not> sublist ''..'' ''index.html''" by (simp add: sublist_code)
  have "\<not> sublist ''..'' ?q"
    using assms sublist_take [of _ p] by (metis TrimSuffix_def safe_path_def sublist_order.order_trans)
  then have "\<not> sublist ''..'' (?q @ ''/index.html'')"
    using sublist_append_disjoint [of "CHR ''.''" ?q "CHR ''/''" "''index.html''"] idx by auto
  moreover have "HasPrefix (?q @ ''/index.html'') ''/''"
  proof -
    obtain zs where p: "p = CHR ''/'' # zs" using assms by (auto simp: safe_path_def prefix_def)
    show ?thesis
    proof (cases zs rule: rev_cases)
      case Nil
      then show ?thesis by (simp add: p TrimSuffix_def)
    next
      case (snoc ys z)
      then have "?q = CHR ''/'' # (if z = CHR ''/'' then ys else zs)"
        by (simp add: p TrimSuffix_def suffix_single)
      then show ?thesis by simp
    qed
  qed
  ultimately show ?thesis
    using True assms sub by (auto simp: add_index_def safe_path_def list_ex_iff is_control_def)
next
  case False
  then show ?thesis using assms by (simp add: add_index_def)
qed

lemma normalisePath_Some:
  assumes "normalisePath p = Some q"
  obtains decoded where "PathUnescape p = Some decoded" "CHR ''%'' \<notin> set decoded"
    "HasPrefix decoded ''/''" "\<not> list_ex bad_segment (Split (collapse decoded) ''/'')"
    "q = add_index (collapse decoded)"
  using assms by (auto simp: normalisePath_def sublist_single split: option.splits if_splits)

lemma normalisePath_safe: "normalisePath p = Some q \<Longrightarrow> safe_path q"
proof -
  assume n: "normalisePath p = Some q"
  obtain decoded where d: "CHR ''%'' \<notin> set decoded" "HasPrefix decoded ''/''"
    "\<not> list_ex bad_segment (Split (collapse decoded) ''/'')" "q = add_index (collapse decoded)"
    using normalisePath_Some [OF n] by blast
  have "CHR ''%'' \<notin> set (collapse decoded)" using collapse_set [of decoded] d(1) by auto
  then have "safe_path (collapse decoded)"
    using good_segments_safe collapse_prefix d by blast
  then show ?thesis using add_index_safe d(4) by simp
qed

subsection \<open>Paths that are served under their own name\<close>

lemma Split_no_sep: "sep \<noteq> [] \<Longrightarrow> \<not> sublist sep s \<Longrightarrow> Split s sep = [s]"
proof (induction s)
  case (Cons c s)
  then have "\<not> prefix sep (c # s)" "\<not> sublist sep s" by (auto simp: sublist_Cons_right)
  then show ?case using Cons by (subst Split.simps) simp
qed simp

lemma collapse_id: "\<not> Contains p ''//'' \<Longrightarrow> collapse p = p"
  by (simp add: collapse_def Split_no_sep)

lemma safe_segments:
  assumes "safe_path p" and "seg \<in> set (Split p ''/'')"
  shows "\<not> bad_segment seg"
proof -
  have "sublist seg p"
  proof -
    obtain us vs where "Split p ''/'' = us @ seg # vs" using assms(2) by (auto simp: in_set_conv_decomp)
    moreover have "sublist x (Join (us @ x # vs) ''/'')" for x us vs
    proof (induction us)
      case Nil
      then show ?case by (cases vs) auto
    next
      case (Cons u us)
      then obtain a b where "Join (us @ x # vs) ''/'' = a @ x @ b" by (auto simp: sublist_def)
      then have "u @ ''/'' @ Join (us @ x # vs) ''/'' = (u @ ''/'' @ a) @ x @ b" by simp
      then have "sublist x (u @ ''/'' @ Join (us @ x # vs) ''/'')" unfolding sublist_def by blast
      then show ?case by (simp add: Join_Cons)
    qed
    ultimately show ?thesis using Join_Split [of "''/''" p] by (metis list.discI)
  qed
  then have "set seg \<subseteq> set p" "\<not> sublist ''..'' seg"
    using assms(1) set_mono_sublist sublist_order.order_trans unfolding safe_path_def by blast+
  then show ?thesis using assms(1) by (auto simp: bad_segment_def sublist_single safe_path_def list_ex_iff)
qed

lemma normalisePath_id:
  assumes "safe_path p" and "\<not> Contains p ''//''" and "Contains (lastSegment p) ''.''"
  shows "normalisePath p = Some p"
proof -
  have "PathUnescape p = Some p"
    using assms(1) by (auto simp: safe_path_def PathUnescape_def intro: unescape_no_escape)
  moreover have "\<not> HasSuffix p ''/''"
  proof
    assume "HasSuffix p ''/''"
    then obtain q where "p = q @ ''/''" by (auto simp: suffix_def)
    then have "LastIndexByte p (CHR ''/'') = Some (length q)" using LastIndexByte_append [of "CHR ''/''" "[]" q] by simp
    then show False using assms(3) \<open>p = q @ ''/''\<close> by (simp add: lastSegment_def)
  qed
  moreover have "\<not> list_ex bad_segment (Split p ''/'')"
    using safe_segments [OF assms(1)] by (auto simp: list_ex_iff)
  ultimately show ?thesis
    using assms by (simp add: normalisePath_def collapse_id add_index_def sublist_single safe_path_def)
qed

text \<open>The path rules of a manifest are weaker: they only exclude \<open>..\<close> as a whole segment and do
  not look at percent signs or doubled slashes.\<close>

lemma path_ok_normalise:
  assumes "path_ok p" and "\<not> Contains p ''..''" and "CHR ''%'' \<notin> set p" and "\<not> Contains p ''//''"
  shows "normalisePath p = Some p"
proof (rule normalisePath_id)
  show "safe_path p"
    using assms by (auto simp: path_ok_def badPathChars_def safe_path_def list_ex_iff)
  show "Contains (lastSegment p) ''.''"
    using assms(1) by (simp add: path_ok_def hasPathExtension_def lastSegment_def Let_def)
qed (rule assms(4))

subsection \<open>Properties\<close>

text \<open>What a request path can become: an accepted path starts with a slash and has no \<open>..\<close>
  anywhere, no backslash, no control character and no percent sign, so no traversal and no
  second decoding is left in it.\<close>

lemma normalised_path_safe:
  "(case normalisePath p of
      None \<Rightarrow> True
    | Some q \<Rightarrow> HasPrefix q ''/'' \<and> \<not> Contains q ''..'' \<and> CHR 0x5C \<notin> set q \<and>
        \<not> list_ex is_control q \<and> CHR ''%'' \<notin> set q)"
  using normalisePath_safe [of p] by (auto simp: safe_path_def split: option.splits)

text \<open>C22: Manifest paths are reachable: a path that the manifest rules accept and that has no \<open>..\<close>
  inside, no percent sign and no doubled slash is what its own request path normalises to.\<close>

theorem manifest_path_reachable:
  assumes "path_ok p" and "\<not> Contains p ''..''" and "CHR ''%'' \<notin> set p" and "\<not> Contains p ''//''"
  shows "normalisePath p = Some p"
  using path_ok_normalise [OF assms] .

theorem manifest_path_reachable_witness: "normalisePath ''/index.html'' = Some ''/index.html''"
  by (rule manifest_path_reachable [OF sample_path_ok]) (simp_all add: sublist_code)

subsection \<open>Where the code departs from its comments\<close>

text \<open>Doubled slashes are collapsed once, so three of them leave two.\<close>

lemma triple_slash: "normalisePath ''///a.html'' = Some ''//a.html''"
  by code_simp

text \<open>A valid manifest path that no request can reach.\<close>

lemma unreachable_path: "path_ok ''/a..b.html''" "normalisePath p \<noteq> Some ''/a..b.html''"
proof -
  show "path_ok ''/a..b.html''" by code_simp
  have "sublist ''..'' ''/a..b.html''" by code_simp
  then show "normalisePath p \<noteq> Some ''/a..b.html''"
    using normalisePath_safe [of p] by (auto simp: safe_path_def)
qed

end
