(* ===== verification/Server.thy ===== *)
theory Server
  imports Resolve Blossom Bundle Config Metrics Paths "HOL-Library.Monad_Syntax"
begin

section \<open>The gateway server: state, configuration and hosts (\<^verbatim>\<open>server.go\<close>)\<close>

text \<open>
  The state of \<^verbatim>\<open>Server\<close> with its constructor, the configuration swap and the mapping from a
  request's host to a site. The request handlers are in theory \<open>Serve\<close>.
  \<open>Backends\<close> holds pointers; the model holds the values they point to, so a handler returns
  the server with the updated resolver and stores in it. The files the bundle store reads
  and writes are the component \<open>s_fs\<close>. A panic of the metrics code is recorded in
  \<open>s_panicked\<close>. The maps \<open>allow\<close> and \<open>custom\<close> are counted by \<^verbatim>\<open>/internal/status\<close>, so they
  are association lists.
\<close>

record custom_site =
  cs_siteType :: site_type
  cs_pubkey :: string
  cs_d :: string

record backends =
  be_resolver :: "resolver option"
  be_fetcher :: "fetcher option"
  be_blobs :: "blob_store option"
  be_npk :: "bundle_store option"

definition no_backends :: backends where
  "no_backends = \<lparr>be_resolver = None, be_fetcher = None, be_blobs = None, be_npk = None\<rparr>"

record server =
  s_cfg :: config
  s_allow :: "(string, unit) gomap"
  s_custom :: "(string, custom_site) gomap"
  s_be :: backends
  s_fs :: fsys
  s_reg :: registry
  s_reqApex :: handle
  s_reqSite :: handle
  s_reqOther :: handle
  s_cacheHits :: handle
  s_fetchFailures :: handle
  s_bytesServed :: histogram
  s_panicked :: bool

subsection \<open>Instruments\<close>

definition inc :: "handle \<Rightarrow> server \<Rightarrow> server" where
  "inc h s = (case counter_Inc h (s_reg s) of
     None \<Rightarrow> s\<lparr>s_panicked := True\<rparr> | Some r \<Rightarrow> s\<lparr>s_reg := r\<rparr>)"

definition inc_class :: "handle \<Rightarrow> string \<Rightarrow> server \<Rightarrow> server" where
  "inc_class h cls s =
     (case counter_With [cls] h (s_reg s) of
        None \<Rightarrow> s\<lparr>s_panicked := True\<rparr> | Some (c, r) \<Rightarrow> inc c (s\<lparr>s_reg := r\<rparr>))"

definition observe :: "histogram \<Rightarrow> nat \<Rightarrow> server \<Rightarrow> server" where
  "observe h n s = (case histogram_Observe (int n) h (s_reg s) of
     None \<Rightarrow> s\<lparr>s_panicked := True\<rparr> | Some r \<Rightarrow> s\<lparr>s_reg := r\<rparr>)"

abbreviation requests_total :: string where
  "requests_total \<equiv> ''nostrhost_nsite_requests_total''"

abbreviation cache_hits_total :: string where
  "cache_hits_total \<equiv> ''nostrhost_nsite_cache_hits_total''"

abbreviation fetch_failures_total :: string where
  "fetch_failures_total \<equiv> ''nostrhost_nsite_fetch_failures_total''"

abbreviation bytes_served :: string where
  "bytes_served \<equiv> ''nostrhost_nsite_bytes_served''"

definition served_buckets :: "int list" where
  "served_buckets =
     [1024, push_bit 10 16, push_bit 10 256, push_bit 20 1, push_bit 20 4, push_bit 20 16]"

definition class_counter :: "string \<Rightarrow> registry \<Rightarrow> (handle \<times> registry) option" where
  "class_counter cls r =
     do { (c, r) \<leftarrow> rg_Counter requests_total ''public requests by class'' [''class''] r; counter_With [cls] c r }"

subsection \<open>Construction and configuration\<close>

definition srv_apply :: "ext \<Rightarrow> config \<Rightarrow> server \<Rightarrow> server" where
  "srv_apply X cfg s =
     s\<lparr>s_cfg := cfg,
       s_allow := fold (\<lambda>site m. AList.update (st_Pubkey site) () m) (cf_Sites cfg) [],
       s_custom :=
         fold (\<lambda>cd m.
             AList.update (norm_fqdn X (cd_FQDN cd))
               \<lparr>cs_siteType = (if cd_D cd \<noteq> [] then SiteNamed else SiteRoot),
                cs_pubkey = cd_Pubkey cd, cs_d = cd_D cd\<rparr> m)
           (cf_CustomDomains cfg) []\<rparr>"

definition srv_New :: "ext \<Rightarrow> config \<Rightarrow> fsys \<Rightarrow> server option" where
  "srv_New X cfg fs =
     do {
       let r0 = metrics_New;
       (apex, r1) \<leftarrow> class_counter ''apex'' r0;
       (site, r2) \<leftarrow> class_counter ''site'' r1;
       (other, r3) \<leftarrow> class_counter ''reject'' r2;
       (hits, r4) \<leftarrow> rg_Counter cache_hits_total ''blob served from the on-disk cache'' [] r3;
       (fails, r5) \<leftarrow> rg_Counter fetch_failures_total ''blob fetch failures by class'' [''class''] r4;
       (served, r6) \<leftarrow> rg_Histogram bytes_served ''response body bytes served'' served_buckets [] r5;
       Some (srv_apply X cfg
         \<lparr>s_cfg = cfg, s_allow = [], s_custom = [], s_be = no_backends, s_fs = fs, s_reg = r6,
          s_reqApex = apex, s_reqSite = site, s_reqOther = other, s_cacheHits = hits,
          s_fetchFailures = fails, s_bytesServed = served, s_panicked = False\<rparr>)
     }"

definition srv_Configure :: "backends \<Rightarrow> server \<Rightarrow> server" where
  "srv_Configure be s = s\<lparr>s_be := be\<rparr>"

definition srv_Reload :: "ext \<Rightarrow> config \<Rightarrow> server \<Rightarrow> server" where
  "srv_Reload X cfg s = srv_apply X cfg s"

subsection \<open>Hosts\<close>

definition request_host :: "ext \<Rightarrow> string \<Rightarrow> string" where
  "request_host X host = stripPort (ToLower X (TrimSpace host))"

definition isApex :: "ext \<Rightarrow> server \<Rightarrow> string \<Rightarrow> bool" where
  "isApex X s host \<longleftrightarrow> request_host X host = Domain (s_cfg s)"

text \<open>The result is \<open>(label, siteType, hexID, d)\<close>; \<open>None\<close> stands for \<open>ok = false\<close>, when no
  caller looks at the other results.\<close>

definition parseHost ::
  "ext \<Rightarrow> server \<Rightarrow> string \<Rightarrow> (string \<times> site_type \<times> string \<times> string) option" where
  "parseHost X s rawhost =
     (let domain = Domain (s_cfg s);
          host = request_host X rawhost;
          suf = ''.'' @ domain
      in if host = domain then None
         else if \<not> HasSuffix host suf then
           (case map_of (s_custom s) host of
              Some cs \<Rightarrow> Some (host, cs_siteType cs, cs_pubkey cs, cs_d cs)
            | None \<Rightarrow> None)
         else
           (let label = take (length host - length suf) host
            in if length label = 0 \<or> length label > LabelMaxLen then None
               else
                 (case DecodeLabel X label of
                    (siteType, hexID, d, ok) \<Rightarrow>
                      if ok then Some (label, siteType, hexID, d) else None)))"

definition allowlisted :: "server \<Rightarrow> site_type \<Rightarrow> string \<Rightarrow> bool" where
  "allowlisted s siteType pubkey =
     (if Mode (s_cfg s) = ''open'' then True
      else
        (case siteType of
           SiteRoot \<Rightarrow> pubkey \<in> fst ` set (s_allow s)
         | SiteNamed \<Rightarrow> pubkey \<in> fst ` set (s_allow s)
         | _ \<Rightarrow> False))"

subsection \<open>The instruments never panic\<close>

definition handles_ok :: "server \<Rightarrow> bool" where
  "handles_ok s \<longleftrightarrow>
     s_reqApex s = \<lparr>h_name = requests_total, h_labelKeys = [''class''], h_cur = Some [''apex'']\<rparr> \<and>
     s_reqSite s = \<lparr>h_name = requests_total, h_labelKeys = [''class''], h_cur = Some [''site'']\<rparr> \<and>
     s_reqOther s = \<lparr>h_name = requests_total, h_labelKeys = [''class''], h_cur = Some [''reject'']\<rparr> \<and>
     s_cacheHits s = \<lparr>h_name = cache_hits_total, h_labelKeys = [], h_cur = None\<rparr> \<and>
     s_fetchFailures s = \<lparr>h_name = fetch_failures_total, h_labelKeys = [''class''], h_cur = None\<rparr> \<and>
     s_bytesServed s = \<lparr>hg_name = bytes_served, hg_labelKeys = [], hg_cur = None\<rparr> \<and>
     \<not> s_panicked s"

text \<open>What a handler may change: the registry, the backends and the files.\<close>

definition same_setup :: "server \<Rightarrow> server \<Rightarrow> bool" where
  "same_setup s s' \<longleftrightarrow>
     s_cfg s' = s_cfg s \<and> s_allow s' = s_allow s \<and> s_custom s' = s_custom s \<and>
     s_reqApex s' = s_reqApex s \<and> s_reqSite s' = s_reqSite s \<and> s_reqOther s' = s_reqOther s \<and>
     s_cacheHits s' = s_cacheHits s \<and> s_fetchFailures s' = s_fetchFailures s \<and>
     s_bytesServed s' = s_bytesServed s \<and> s_panicked s' = s_panicked s"

lemma same_setup_refl [simp, intro]: "same_setup s s"
  by (simp add: same_setup_def)

lemma same_setup_trans: "same_setup s s' \<Longrightarrow> same_setup s' s'' \<Longrightarrow> same_setup s s''"
  by (simp add: same_setup_def)

lemma same_setup_updates [simp]:
  "same_setup s (s\<lparr>s_reg := r\<rparr>)" "same_setup s (s\<lparr>s_be := b\<rparr>)" "same_setup s (s\<lparr>s_fs := f\<rparr>)"
  by (simp_all add: same_setup_def)

lemma same_setup_handles: "same_setup s s' \<Longrightarrow> handles_ok s' = handles_ok s"
  by (simp add: same_setup_def handles_ok_def)

text \<open>The child a usable handle records under.\<close>

definition child_of :: "handle \<Rightarrow> child" where
  "child_of h = (h_name h, case h_cur h of None \<Rightarrow> [] | Some vs \<Rightarrow> vs)"

definition usable :: "handle \<Rightarrow> bool" where
  "usable h \<longleftrightarrow> h_cur h \<noteq> None \<or> h_labelKeys h = []"

lemma inc_usable:
  assumes "usable h"
  obtains r where "inc h s = s\<lparr>s_reg := r\<rparr>"
    "\<And>k. count_of r k = count_of (s_reg s) k + (if k = child_of h then 1 else 0)"
  using assms
  by (cases "h_cur h")
    (auto simp: usable_def inc_def counter_Inc_def counter_Add_def Let_def count_of_def child_of_def
      touch_eq split: if_splits option.splits)

lemma inc_class_usable:
  assumes "length (h_labelKeys h) = 1"
  obtains r where "inc_class h cls s = s\<lparr>s_reg := r\<rparr>"
    "\<And>k. count_of r k = count_of (s_reg s) k + (if k = (h_name h, [cls]) then 1 else 0)"
proof -
  obtain c r1 where w: "counter_With [cls] h (s_reg s) = Some (c, r1)" "h_cur c = Some [cls]"
      "h_name c = h_name h"
    using assms by (simp add: counter_With_def)
  then obtain r where r: "inc c (s\<lparr>s_reg := r1\<rparr>) = s\<lparr>s_reg := r1\<rparr>\<lparr>s_reg := r\<rparr>"
      "\<And>k. count_of r k = count_of r1 k + (if k = child_of c then 1 else 0)"
    using inc_usable [of c "s\<lparr>s_reg := r1\<rparr>"] by (auto simp: usable_def)
  then show thesis
    using w With_count [OF w(1)] by (intro that [of r]) (simp_all add: inc_class_def child_of_def)
qed

lemma observe_usable:
  assumes "hg_cur h \<noteq> None \<or> hg_labelKeys h = []"
  obtains r where "observe h n s = s\<lparr>s_reg := r\<rparr>" "rg_counts r = rg_counts (s_reg s)"
  using assms
  by (cases "hg_cur h") (auto simp: observe_def histogram_Observe_def Let_def split: option.splits)

lemma handles_usable:
  assumes "handles_ok s"
  shows "usable (s_reqApex s)" "usable (s_reqSite s)" "usable (s_reqOther s)" "usable (s_cacheHits s)"
    "hg_cur (s_bytesServed s) \<noteq> None \<or> hg_labelKeys (s_bytesServed s) = []" "length (h_labelKeys (s_fetchFailures s)) = 1"
    "child_of (s_reqApex s) = (requests_total, [''apex''])"
    "child_of (s_reqSite s) = (requests_total, [''site''])"
    "child_of (s_reqOther s) = (requests_total, [''reject''])"
    "child_of (s_cacheHits s) = (cache_hits_total, [])"
    "h_name (s_fetchFailures s) = fetch_failures_total"
  using assms by (simp_all add: handles_ok_def usable_def child_of_def)

abbreviation requests_family :: counter_opts where
  "requests_family \<equiv> \<lparr>co_help = ''public requests by class'', co_labelKeys = [''class'']\<rparr>"

lemma class_counter_fresh:
  "rg_counters r requests_total = None \<Longrightarrow> rg_histograms r requests_total = None \<Longrightarrow>
     \<exists>r'. class_counter cls r = Some (\<lparr>h_name = requests_total, h_labelKeys = [''class''], h_cur = Some [cls]\<rparr>, r') \<and>
       rg_counters r' = (rg_counters r)(requests_total \<mapsto> requests_family) \<and> rg_histograms r' = rg_histograms r"
  by (simp add: class_counter_def rg_Counter_def counter_With_def)

lemma class_counter_again:
  "rg_counters r requests_total = Some requests_family \<Longrightarrow>
     \<exists>r'. class_counter cls r = Some (\<lparr>h_name = requests_total, h_labelKeys = [''class''], h_cur = Some [cls]\<rparr>, r') \<and>
       rg_counters r' = rg_counters r \<and> rg_histograms r' = rg_histograms r"
  by (simp add: class_counter_def rg_Counter_def counter_With_def)

lemma srv_New_Some:
  "\<exists>s. srv_New X cfg fs = Some (srv_apply X cfg s) \<and> handles_ok s \<and> s_be s = no_backends \<and> s_fs s = fs"
proof -
  obtain r1 where r1: "class_counter ''apex'' metrics_New =
        Some (\<lparr>h_name = requests_total, h_labelKeys = [''class''], h_cur = Some [''apex'']\<rparr>, r1)"
      "rg_counters r1 = [requests_total \<mapsto> requests_family]" "rg_histograms r1 = Map.empty"
    using class_counter_fresh [of metrics_New "''apex''"] by (auto simp: metrics_New_def)
  obtain r2 where r2: "class_counter ''site'' r1 =
        Some (\<lparr>h_name = requests_total, h_labelKeys = [''class''], h_cur = Some [''site'']\<rparr>, r2)"
      "rg_counters r2 = [requests_total \<mapsto> requests_family]" "rg_histograms r2 = Map.empty"
    using class_counter_again [of r1 "''site''"] r1 by auto
  obtain r3 where r3: "class_counter ''reject'' r2 =
        Some (\<lparr>h_name = requests_total, h_labelKeys = [''class''], h_cur = Some [''reject'']\<rparr>, r3)"
      "rg_counters r3 = [requests_total \<mapsto> requests_family]" "rg_histograms r3 = Map.empty"
    using class_counter_again [of r2 "''reject''"] r2 by auto
  show ?thesis
    by (auto simp: srv_New_def Let_def r1(1) r2(1) r3 rg_Counter_def rg_Histogram_def handles_ok_def
        served_buckets_def buckets_ok_def)
qed

lemma srv_apply_simps [simp]:
  "s_cfg (srv_apply X cfg s) = cfg" "s_be (srv_apply X cfg s) = s_be s"
  "s_fs (srv_apply X cfg s) = s_fs s" "handles_ok (srv_apply X cfg s) = handles_ok s"
  "s_reg (srv_apply X cfg s) = s_reg s"
  by (simp_all add: srv_apply_def handles_ok_def)

lemma srv_Configure_simps [simp]:
  "s_cfg (srv_Configure be s) = s_cfg s" "s_be (srv_Configure be s) = be"
  "s_fs (srv_Configure be s) = s_fs s" "handles_ok (srv_Configure be s) = handles_ok s"
  "s_custom (srv_Configure be s) = s_custom s" "s_allow (srv_Configure be s) = s_allow s"
  by (simp_all add: srv_Configure_def handles_ok_def)

subsection \<open>The configured maps\<close>

lemma fold_update_keys:
  "fst ` set (fold (\<lambda>x m. AList.update (f x) (g x) m) xs m) = f ` set xs \<union> fst ` set m"
  by (induction xs arbitrary: m) (auto simp: keys_update)

lemma fold_update_other:
  "k \<notin> f ` set xs \<Longrightarrow> map_of (fold (\<lambda>x m. AList.update (f x) (g x) m) xs m) k = map_of m k"
  by (induction xs arbitrary: m) (auto simp: update_conv')

lemma fold_update_lookup:
  "distinct (map f xs) \<Longrightarrow> x \<in> set xs \<Longrightarrow>
     map_of (fold (\<lambda>x m. AList.update (f x) (g x) m) xs m) (f x) = Some (g x)"
  by (induction xs arbitrary: m) (auto simp: fold_update_other update_conv')

lemma fold_update_values:
  "map_of (fold (\<lambda>x m. AList.update (f x) (g x) m) xs m) k = Some v \<Longrightarrow>
     map_of m k = Some v \<or> (\<exists>x \<in> set xs. k = f x \<and> v = g x)"
proof (induction xs arbitrary: m)
  case (Cons x xs)
  then have "map_of (AList.update (f x) (g x) m) k = Some v \<or> (\<exists>x \<in> set xs. k = f x \<and> v = g x)"
    by simp
  then show ?case by (auto simp: update_conv' split: if_splits)
qed simp

lemma allow_apply: "fst ` set (s_allow (srv_apply X cfg s)) = st_Pubkey ` set (cf_Sites cfg)"
  by (simp add: srv_apply_def fold_update_keys)

lemma custom_apply:
  "map_of (s_custom (srv_apply X cfg s)) k = Some cs \<Longrightarrow>
     \<exists>cd \<in> set (cf_CustomDomains cfg). k = norm_fqdn X (cd_FQDN cd) \<and> cs_pubkey cs = cd_Pubkey cd \<and>
       cs_d cs = cd_D cd \<and> cs_siteType cs = (if cd_D cd \<noteq> [] then SiteNamed else SiteRoot)"
  by (auto simp: srv_apply_def dest!: fold_update_values)

lemma custom_apply_lookup:
  "distinct (map (\<lambda>cd. norm_fqdn X (cd_FQDN cd)) (cf_CustomDomains cfg)) \<Longrightarrow>
     cd \<in> set (cf_CustomDomains cfg) \<Longrightarrow>
     map_of (s_custom (srv_apply X cfg s)) (norm_fqdn X (cd_FQDN cd)) =
       Some \<lparr>cs_siteType = (if cd_D cd \<noteq> [] then SiteNamed else SiteRoot),
         cs_pubkey = cd_Pubkey cd, cs_d = cd_D cd\<rparr>"
  by (simp add: srv_apply_def fold_update_lookup [where f = "\<lambda>cd. norm_fqdn X (cd_FQDN cd)"])

subsection \<open>Host names without case, spaces or ports\<close>

definition host_char :: "char \<Rightarrow> bool" where
  "host_char c \<longleftrightarrow> is_lower c \<or> is_digit c \<or> c = CHR ''-'' \<or> c = CHR ''.''"

lemma host_char_facts:
  "host_char c \<Longrightarrow> is_ascii c \<and> \<not> is_upper c \<and> c \<noteq> CHR '':'' \<and> 32 < byte c \<and> byte c < 128"
  by (auto simp: host_char_def ascii_defs)

lemma digit_char_facts: "is_digit c \<Longrightarrow> host_char c"
  by (simp add: host_char_def)

lemma space_runes_ends:
  "list_all (\<lambda>w. w \<noteq> [] \<and> (byte (hd w) \<le> 32 \<or> 128 \<le> byte (hd w)) \<and>
     (byte (last w) \<le> 32 \<or> 128 \<le> byte (last w))) space_runes"
  by (simp add: space_runes_def list_all_iff)

lemma no_space_ends:
  assumes "list_all (\<lambda>c. 32 < byte c \<and> byte c < 128) s"
  shows "find (\<lambda>w. prefix w s) space_runes = None" and "find (\<lambda>w. suffix w s) space_runes = None"
proof -
  have "\<not> prefix w s \<and> \<not> suffix w s" if w: "w \<in> set space_runes" for w
  proof -
    have e: "w \<noteq> []" "byte (hd w) \<le> 32 \<or> 128 \<le> byte (hd w)" "byte (last w) \<le> 32 \<or> 128 \<le> byte (last w)"
      using space_runes_ends w by (auto simp: list_all_iff)
    have "hd w \<notin> set s" "last w \<notin> set s"
      using assms e(2,3) by (auto simp: list_all_iff)
    then show ?thesis
      using e(1) by (metis hd_in_set last_in_set set_mono_prefix set_mono_suffix subsetD)
  qed
  then show "find (\<lambda>w. prefix w s) space_runes = None" and "find (\<lambda>w. suffix w s) space_runes = None"
    by (auto simp: find_None_iff)
qed

lemma TrimSpace_id:
  assumes "list_all (\<lambda>c. 32 < byte c \<and> byte c < 128) s"
  shows "TrimSpace s = s"
  using no_space_ends [OF assms]
  by (simp add: TrimSpace_def trim_left_space.simps [of s] trim_right_space.simps [of s])

lemma request_host_plain:
  assumes "list_all host_char h" and "list_all is_digit port"
  shows "request_host X h = h" and "request_host X (h @ '':'' @ port) = h"
proof -
  have h: "list_all (\<lambda>c. 32 < byte c \<and> byte c < 128 \<and> is_ascii c \<and> \<not> is_upper c) h"
    "list_all (\<lambda>c. 32 < byte c \<and> byte c < 128 \<and> is_ascii c \<and> \<not> is_upper c) (h @ '':'' @ port)"
    using assms host_char_facts digit_char_facts
    by (auto simp: list_all_iff is_ascii_def is_upper_def)
  have colon: "CHR '':'' \<notin> set h" "CHR '':'' \<notin> set port"
    using assms host_char_facts digit_char_facts by (auto simp: list_all_iff)
  have t: "TrimSpace h = h" "TrimSpace (h @ '':'' @ port) = h @ '':'' @ port"
    using h by (auto intro!: TrimSpace_id simp: list_all_iff)
  have l: "ToLower X h = h" "ToLower X (h @ '':'' @ port) = h @ '':'' @ port"
    using h by (auto intro!: ToLower_id simp: list_all_iff)
  have "LastIndexByte h (CHR '':'') = None" using colon by (simp add: LastIndexByte_None)
  then show "request_host X h = h" using t l by (simp add: request_host_def stripPort_def)
  show "request_host X (h @ '':'' @ port) = h"
    using t l LastIndexByte_append [OF colon(2), of h] by (simp add: request_host_def stripPort_def)
qed

text \<open>The two ways a host names a site.\<close>

lemma parseHost_label:
  assumes "request_host X host = label @ ''.'' @ Domain (s_cfg s)"
  shows "parseHost X s host =
    (if label = [] \<or> length label > LabelMaxLen then None
     else (case DecodeLabel X label of
         (st, hexID, d, ok) \<Rightarrow> if ok then Some (label, st, hexID, d) else None))"
proof -
  have "request_host X host \<noteq> Domain (s_cfg s)"
    using assms by (metis append_Cons append_assoc append_same_eq append_self_conv2 list.distinct(1)
        self_append_conv2)
  moreover have "HasSuffix (label @ ''.'' @ Domain (s_cfg s)) (''.'' @ Domain (s_cfg s))"
    by (simp add: suffix_def)
  ultimately show ?thesis using assms by (auto simp: parseHost_def Let_def)
qed

lemma parseHost_cases:
  assumes "parseHost X s host = Some (label, st, hexID, d)"
  obtains (site) "request_host X host = CanonicalSiteURL label (Domain (s_cfg s))"
      "0 < length label" "length label \<le> LabelMaxLen" "DecodeLabel X label = (st, hexID, d, True)"
    | (custom) cs where "map_of (s_custom s) (request_host X host) = Some cs"
      "label = request_host X host" "st = cs_siteType cs" "hexID = cs_pubkey cs" "d = cs_d cs"
      "\<not> HasSuffix (request_host X host) (''.'' @ Domain (s_cfg s))"
proof (cases "HasSuffix (request_host X host) (''.'' @ Domain (s_cfg s))")
  case True
  then obtain l where l: "request_host X host = l @ ''.'' @ Domain (s_cfg s)"
    by (auto simp: suffix_def)
  show thesis
    using assms l parseHost_label [OF l] site
    by (auto simp: CanonicalSiteURL_def split: if_splits prod.splits)
next
  case False
  then show thesis
    using assms custom by (auto simp: parseHost_def Let_def split: if_splits option.splits)
qed

text \<open>An ASCII host name that the configuration accepts, with its letters in lower case.\<close>

lemma fold_label_ascii: "list_all is_ascii l \<Longrightarrow> fold_label l = Some (map lower_byte l)"
  by (induction l) simp_all

lemma host_label_chars: "host_label l \<Longrightarrow> c \<in> set l \<Longrightarrow> host_char c"
  by (auto simp: host_label_def label_char_def host_char_def list_all_iff)

lemma hostnameRe_plain:
  assumes "hostnameRe s" and "list_all is_ascii s" and "list_all (\<lambda>c. \<not> is_upper c) s"
  shows "list_all host_char s"
proof -
  obtain l ls where sp: "Split s ''.'' = l # ls" by (cases "Split s ''.''") auto
  have sub: "set l \<subseteq> set s"
    using Split_byte_set [of s "CHR ''.''"] sp by auto
  have "map lower_byte l = l"
  proof (rule map_idI)
    fix c assume "c \<in> set l"
    then show "lower_byte c = c" using assms(3) sub by (intro lower_byte_id) (auto simp: list_all_iff)
  qed
  moreover have "list_all is_ascii l" using assms(2) sub by (auto simp: list_all_iff)
  ultimately have "list_all host_label (Split s ''.'')"
    using assms(1) sp by (simp add: hostnameRe_def fold_label_ascii)
  then have seg: "host_label l" if "l \<in> set (Split s ''.'')" for l
    using that by (simp add: list_all_iff)
  have "host_char c" if "c \<in> set s" for c
  proof (cases "c = CHR ''.''")
    case False
    then have "c \<in> \<Union> (set ` set (Split s ''.''))" using that by (simp add: Split_byte_set)
    then show ?thesis using seg host_label_chars by blast
  qed (simp add: host_char_def)
  then show ?thesis by (simp add: list_all_iff)
qed

lemma lower_host_char: "host_char (lower_byte c) \<Longrightarrow> is_ascii c \<Longrightarrow> 32 < byte c \<and> byte c < 128 \<and> c \<noteq> CHR '':''"
  by (cases "is_upper c") (auto simp: lower_byte_id is_upper_def dest: host_char_facts)

lemma request_host_lower:
  assumes "list_all is_ascii h" and "list_all host_char (map lower_byte h)" and "list_all is_digit port"
  shows "request_host X (h @ '':'' @ port) = map lower_byte h"
proof -
  have h: "32 < byte c \<and> byte c < 128 \<and> c \<noteq> CHR '':''" if "c \<in> set h" for c
    using assms(1,2) that lower_host_char by (auto simp: list_all_iff)
  have p: "32 < byte c \<and> byte c < 128 \<and> is_ascii c \<and> c \<noteq> CHR '':'' \<and> lower_byte c = c" if "c \<in> set port" for c
    using assms(3) that digit_char_facts [of c] host_char_facts [of c] by (auto simp: list_all_iff lower_byte_id)
  have "TrimSpace (h @ '':'' @ port) = h @ '':'' @ port"
    using h p by (intro TrimSpace_id) (auto simp: list_all_iff)
  moreover have "ToLower X (h @ '':'' @ port) = map lower_byte (h @ '':'' @ port)"
    using h p by (intro ToLower_ascii) (auto simp: list_all_iff is_ascii_def)
  moreover have "map lower_byte (h @ '':'' @ port) = map lower_byte h @ CHR '':'' # port"
    using p by (simp add: lower_byte_def [of "CHR '':''"] is_upper_def map_idI)
  moreover have "CHR '':'' \<notin> set port" using p by auto
  ultimately show ?thesis
    using LastIndexByte_append [of "CHR '':''" port "map lower_byte h"]
    by (simp add: request_host_def stripPort_def)
qed

subsection \<open>Properties\<close>

text \<open>A NIP-19 codec whose labels are short enough for a DNS label, as the real one's are.\<close>

definition compact_ext :: ext where
  "compact_ext = sample_ext
     \<lparr>nip19_decode := (\<lambda>l. case Base36Decode50 (drop 5 l) of
          Inr pk \<Rightarrow> Some (''npub'', NString pk) | Inl _ \<Rightarrow> None),
      nip19_public_key := (\<lambda>pk. case Base36Encode32 pk of
          Inr l \<Rightarrow> Some (''npub1'' @ l) | Inl _ \<Rightarrow> None)\<rparr>"

lemma compact_ext_ok: "sha256_ok compact_ext" "nip19_ok compact_ext"
proof -
  show "sha256_ok compact_ext" using sample_ext_ok(1) by (simp add: compact_ext_def sha256_ok_def)
  show "nip19_ok compact_ext"
    using Decode50_Encode32 by (fastforce simp: compact_ext_def nip19_ok_def)
qed

definition sample_server :: server where
  "sample_server = the (srv_New sample_ext cfg_Defaults Map.empty)"

lemma sample_server_cfg: "s_cfg sample_server = cfg_Defaults" "handles_ok sample_server"
  "s_be sample_server = no_backends" "s_fs sample_server = Map.empty"
  using srv_New_Some [of sample_ext cfg_Defaults Map.empty] by (auto simp: sample_server_def)

text \<open>C36: From a manifest to a host and back. The host made of a valid verdict's label and the
  gateway domain, with any port, is parsed to exactly that site: its type, its author's key
  (the event id for a snapshot) and its identifier. The domain and the label are plain
  lowercase host names and the label fits into a DNS label.\<close>

theorem site_host_roundtrip:
  assumes "sha256_ok X" and "nip19_ok X" and "v_valid (Validate X ev opts)"
    and "hex64 (ev_pubkey ev)" and "hex64 (ev_id ev)"
    and "list_all host_char (Domain (s_cfg s))" and "list_all host_char (v_label (Validate X ev opts))"
    and "v_label (Validate X ev opts) \<noteq> []" and "length (v_label (Validate X ev opts)) \<le> 63"
    and "list_all is_digit port"
  shows "parseHost X s (CanonicalSiteURL (v_label (Validate X ev opts)) (Domain (s_cfg s)) @ '':'' @ port) =
    Some (v_label (Validate X ev opts), v_site_type (Validate X ev opts),
      if v_site_type (Validate X ev opts) = SiteSnapshot then ev_id ev else ev_pubkey ev,
      if v_site_type (Validate X ev opts) = SiteNamed then v_d (Validate X ev opts) else [])"
proof -
  let ?l = "v_label (Validate X ev opts)"
  have "list_all host_char (CanonicalSiteURL ?l (Domain (s_cfg s)))"
    using assms(6,7) by (simp add: CanonicalSiteURL_def host_char_def)
  from request_host_plain(2) [OF this assms(10), of X]
  have "request_host X (CanonicalSiteURL ?l (Domain (s_cfg s)) @ '':'' @ port) =
      ?l @ ''.'' @ Domain (s_cfg s)"
    by (simp add: CanonicalSiteURL_def)
  from parseHost_label [OF this] show ?thesis
    using Validate_label [OF assms(1-5)] assms(8,9) by (simp add: LabelMaxLen_def)
qed

theorem site_host_roundtrip_witness:
  "\<exists>label. parseHost compact_ext sample_server (CanonicalSiteURL label ''sites.example.org'' @ '':443'') =
     Some (label, SiteRoot, zeros64, [])"
proof -
  have v: "v_valid (Validate compact_ext sample_manifest sample_options)"
    using sample_manifest_ok Validate_valid [OF compact_ext_ok(1)]
    by (simp add: manifest_ok_def compact_ext_def hash_hex_def AggregateHash_def)
  have st: "v_site_type (Validate compact_ext sample_manifest sample_options) = SiteRoot"
    "v_label (Validate compact_ext sample_manifest sample_options) = ''npub1'' @ replicate 50 (CHR ''0'')"
    using base36_zero
    by (subst Validate_fields; simp add: compact_ext_def sample_ext_def sample_manifest_def
        site_type_of_def label_of_def NPub_def zeros64_def)+
  have "list_all host_char (v_label (Validate compact_ext sample_manifest sample_options))"
    unfolding st(2) by code_simp
  moreover have "list_all host_char (Domain (s_cfg sample_server))" "list_all is_digit ''443''"
    by (simp_all add: sample_server_cfg cfg_Defaults_def host_char_def ascii_defs)
  moreover have "hex64 (ev_pubkey sample_manifest)" "hex64 (ev_id sample_manifest)"
    using zeros64_hex64 by (simp_all add: sample_manifest_def)
  ultimately have "parseHost compact_ext sample_server
      (CanonicalSiteURL (''npub1'' @ replicate 50 (CHR ''0'')) (Domain (s_cfg sample_server)) @ '':'' @ ''443'') =
      Some (''npub1'' @ replicate 50 (CHR ''0''), SiteRoot, ev_pubkey sample_manifest, [])"
    using site_host_roundtrip [OF compact_ext_ok v, of sample_server "''443''"] unfolding st by simp
  then show ?thesis by (auto simp: sample_server_cfg cfg_Defaults_def sample_manifest_def)
qed

lemma norm_fqdn_parse:
  assumes "cfg_Validate X loopback cfg = None" and "cd \<in> set (cf_CustomDomains cfg)"
    and "list_all is_ascii (cd_FQDN cd)" and "list_all is_digit port"
  shows "request_host X (TrimSuffix (cd_FQDN cd) ''.'' @ '':'' @ port) = norm_fqdn X (cd_FQDN cd)"
    and "custom_ok X (Domain cfg) cd"
proof -
  show ok: "custom_ok X (Domain cfg) cd"
    using Validate_custom [OF assms(1)] assms(2) by (auto simp: list_all_iff)
  let ?h = "TrimSuffix (cd_FQDN cd) ''.''"
  have a: "list_all is_ascii ?h"
    using assms(3) set_TrimSuffix [of "cd_FQDN cd" "''.''"] by (auto simp: list_all_iff)
  then have n: "norm_fqdn X (cd_FQDN cd) = map lower_byte ?h"
    by (simp add: norm_fqdn_def ToLower_ascii)
  have "list_all is_ascii (map lower_byte ?h)"
    using a by (auto simp: list_all_iff is_ascii_def lower_byte_def is_upper_def)
  moreover have "list_all (\<lambda>c. \<not> is_upper c) (map lower_byte ?h)"
    by (simp add: list_all_iff lower_byte_not_upper)
  moreover have "hostnameRe (map lower_byte ?h)"
    using ok n by (simp add: custom_ok_def Let_def)
  ultimately show "request_host X (?h @ '':'' @ port) = norm_fqdn X (cd_FQDN cd)"
    using request_host_lower [OF a _ assms(4), of X] hostnameRe_plain n by simp
qed

text \<open>C37: Every attached domain is served, and only by its own site: after a configuration that
  validates is applied, a request for a configured FQDN (an ASCII name, with any port and in
  the case it was written) is for the mapped site, which is never the gateway's own host.\<close>

theorem custom_domain_served:
  assumes "cfg_Validate X loopback cfg = None" and "cd \<in> set (cf_CustomDomains cfg)"
    and "list_all is_ascii (cd_FQDN cd)" and "list_all is_digit port"
  shows "parseHost X (srv_apply X cfg s) (TrimSuffix (cd_FQDN cd) ''.'' @ '':'' @ port) =
      Some (norm_fqdn X (cd_FQDN cd), if cd_D cd \<noteq> [] then SiteNamed else SiteRoot, cd_Pubkey cd, cd_D cd) \<and>
    \<not> isApex X (srv_apply X cfg s) (TrimSuffix (cd_FQDN cd) ''.'' @ '':'' @ port)"
proof -
  note h = norm_fqdn_parse [OF assms]
  have "map_of (s_custom (srv_apply X cfg s)) (norm_fqdn X (cd_FQDN cd)) =
      Some \<lparr>cs_siteType = (if cd_D cd \<noteq> [] then SiteNamed else SiteRoot),
        cs_pubkey = cd_Pubkey cd, cs_d = cd_D cd\<rparr>"
    using Validate_custom [OF assms(1)] assms(2) by (intro custom_apply_lookup) auto
  then show ?thesis
    using h by (simp add: parseHost_def isApex_def custom_ok_def Let_def)
qed

definition custom_config :: config where
  "custom_config = cfg_Defaults\<lparr>cf_CustomDomains :=
     [\<lparr>cd_FQDN = ''Www.Example.com.'', cd_Pubkey = replicate 64 (CHR ''a''), cd_D = ''blog''\<rparr>]\<rparr>"

lemma custom_config_valid: "cfg_Validate sample_ext False custom_config = None"
proof -
  have "custom_checks sample_ext (Domain cfg_Defaults) {} (cf_CustomDomains custom_config) = None"
    by code_simp
  then show ?thesis
    using Defaults_valid unfolding cfg_Validate_def first_error_None list.pred_inject
    by (simp add: all_relays_def custom_config_def split: if_splits)
qed

theorem custom_domain_served_witness:
  "parseHost sample_ext (srv_apply sample_ext custom_config sample_server) ''Www.Example.com:443'' =
     Some (''www.example.com'', SiteNamed, replicate 64 (CHR ''a''), ''blog'')"
proof -
  have n: "TrimSuffix ''Www.Example.com.'' ''.'' = ''Www.Example.com''"
    "norm_fqdn sample_ext ''Www.Example.com.'' = ''www.example.com''"
    "list_all is_ascii ''Www.Example.com.''" "list_all is_digit ''443''"
    by code_simp+
  show ?thesis
    using custom_domain_served [OF custom_config_valid, of _ "''443''" sample_server] n
    by (simp add: custom_config_def)
qed

subsection \<open>Where the code departs from its intention\<close>

text \<open>A domain with a capital letter in its first label is accepted, but the request's host is
  compared in lower case: no request is for the apex and none for a site below it.\<close>

definition capital_config :: config where
  "capital_config = cfg_Defaults\<lparr>Domain := ''Sites.example.org''\<rparr>"

lemma capital_domain_unreachable:
  "cfg_Validate sample_ext False capital_config = None"
  "\<not> isApex sample_ext (srv_apply sample_ext capital_config s) ''Sites.example.org''"
proof -
  have "TrimSpace ''Sites.example.org'' = ''Sites.example.org''" by (rule TrimSpace_id) simp
  moreover have "stripPort (ToLower sample_ext ''Sites.example.org'') = ''sites.example.org''"
    by code_simp
  ultimately have "request_host sample_ext ''Sites.example.org'' = ''sites.example.org''"
    by (simp add: request_host_def)
  then show "\<not> isApex sample_ext (srv_apply sample_ext capital_config s) ''Sites.example.org''"
    by (simp add: isApex_def capital_config_def)
  have "hostnameRe ''Sites.example.org''" by code_simp
  moreover have "cf_CustomDomains cfg_Defaults = []" by (simp add: cfg_Defaults_def)
  ultimately have "cfg_Validate sample_ext False (cfg_Defaults\<lparr>Domain := ''Sites.example.org''\<rparr>) = None"
    using Defaults_valid unfolding cfg_Validate_def first_error_None list.pred_inject
    by (simp add: all_relays_def split: if_splits)
  then show "cfg_Validate sample_ext False capital_config = None"
    by (simp only: capital_config_def)
qed

end
