(* ===== verification/Serve.thy ===== *)
theory Serve
  imports Server Http
begin

section \<open>The request handlers (\<^verbatim>\<open>server.go\<close>)\<close>

text \<open>
  One definition per handler, from the connection's request to its response: the public site
  handler with the steps it is made of (manifest, bundle, blob), and the management handler
  of the internal listener. A handler maps a server to a response and the server after it.
  What the outside decides during a request is a record \<open>env\<close>: the relays' answers and the
  clocks of the lookups, the network of each fetch, the file system's failures, the archive
  readers, and how much of a cached file a read gives. A handler runs as one step;
  theory \<open>Threads\<close> cuts it at its lock regions, for requests that overlap.
\<close>

subsection \<open>Requests and responses\<close>

record request =
  rq_path :: string
  rq_rawquery :: string
  rq_host :: string
  rq_ifNoneMatch :: string

record 'r env =
  en_pools :: "nat \<Rightarrow> pool"
  en_clocks :: "nat \<Rightarrow> clock"
  en_nets :: "nat \<Rightarrow> nat \<Rightarrow> network"
  en_os :: os
  en_archive :: "'r archive"
  en_put :: put_io
  en_rm :: "string \<Rightarrow> bool"
  en_rng :: "string list \<Rightarrow> string list"
  en_now :: int
  en_open :: bool
  en_read :: "nat option"
  en_exposition :: "registry \<Rightarrow> response"
  en_quote :: "string \<Rightarrow> string"

definition hashOf :: "ext \<Rightarrow> bytes \<Rightarrow> string" where
  "hashOf X b = hash_hex X b"

subsection \<open>Blobs\<close>

definition etag_of :: "string \<Rightarrow> string" where
  "etag_of sha = CHR 0x22 # sha @ [CHR 0x22]"

definition serveBytes ::
  "ext \<Rightarrow> request \<Rightarrow> string \<Rightarrow> string \<Rightarrow> bytes \<Rightarrow> nat \<Rightarrow> server \<Rightarrow> response \<times> server" where
  "serveBytes X r sha contentTypePath data st s =
     (let s1 = observe (s_bytesServed s) (length data) s;
          etag = etag_of sha;
          headers =
            [(''ETag'', etag), (''Content-Type'', contentTypeFor X contentTypePath),
             (''Cache-Control'', ''public, max-age=3600''), (''X-Content-Type-Options'', ''nosniff''),
             (''Referrer-Policy'', ''strict-origin-when-cross-origin''),
             (''Cross-Origin-Opener-Policy'', ''same-origin'')]
      in if rq_ifNoneMatch r = etag
         then (\<lparr>rp_status = 304, rp_headers = headers, rp_body = []\<rparr>, s1)
         else (\<lparr>rp_status = st, rp_headers = headers, rp_body = data\<rparr>, s1))"

definition set_blobs :: "blob_store \<Rightarrow> server \<Rightarrow> server" where
  "set_blobs b s = s\<lparr>s_be := (s_be s)\<lparr>be_blobs := Some b\<rparr>\<rparr>"

definition set_resolver :: "resolver \<Rightarrow> server \<Rightarrow> server" where
  "set_resolver rs s = s\<lparr>s_be := (s_be s)\<lparr>be_resolver := Some rs\<rparr>\<rparr>"

text \<open>The result of \<open>io.ReadAll\<close> is used whatever its error: \<open>en_read\<close> bounds what was read, and
  \<open>en_open\<close> says whether a file that is there opens.\<close>

definition serveCached ::
  "ext \<Rightarrow> 'r env \<Rightarrow> request \<Rightarrow> blob_store \<Rightarrow> string \<Rightarrow> string \<Rightarrow> nat \<Rightarrow> server \<Rightarrow> response \<times> server" where
  "serveCached X E r blobs sha contentTypePath st s =
     (case bs_Open (en_open E) (en_now E) sha blobs of
        (Inl e, b') \<Rightarrow> (http_NotFound, set_blobs b' s)
      | (Inr f, b') \<Rightarrow>
          serveBytes X r sha contentTypePath
            (case en_read E of None \<Rightarrow> f | Some n \<Rightarrow> take n f) st (set_blobs b' s))"

definition fetchFirst ::
  "ext \<Rightarrow> fetcher option \<Rightarrow> (nat \<Rightarrow> network) \<Rightarrow> string list \<Rightarrow> string \<Rightarrow> fetch_error + bytes" where
  "fetchFirst X fo nets servers sha =
     (case fo of
        None \<Rightarrow> Inl (plain_error ''no blossom servers'')
      | Some f \<Rightarrow>
          if length servers = 0 then Inl (plain_error ''no blossom servers'')
          else
            try_each (\<lambda>(i, server). snd (Fetch X f (nets i) server sha)) (enumerate 0 servers)
              (plain_error ''no blossom servers''))"

text \<open>The servers to ask: the manifest's hints, or the author's list when it has none.\<close>

definition servers_for :: "pool \<Rightarrow> resolver option \<Rightarrow> event \<Rightarrow> string list" where
  "servers_for P rso event =
     (let servers = serverHints (ev_tags event)
      in if length servers = 0 then
           (case rso of None \<Rightarrow> servers | Some rs \<Rightarrow> BlossomServers P rs (ev_pubkey event))
         else servers)"

definition serveBlob ::
  "ext \<Rightarrow> 'r env \<Rightarrow> request \<Rightarrow> event \<Rightarrow> string \<Rightarrow> string \<Rightarrow> nat \<Rightarrow> server \<Rightarrow> response \<times> server" where
  "serveBlob X E r event sha contentTypePath st s =
     (case (case be_blobs (s_be s) of
          Some b \<Rightarrow> if bs_Has b sha then Some b else None | None \<Rightarrow> None) of
        Some b \<Rightarrow> serveCached X E r b sha contentTypePath st (inc (s_cacheHits s) s)
      | None \<Rightarrow>
          (let servers = servers_for (en_pools E 3) (be_resolver (s_be s)) event
           in case fetchFirst X (be_fetcher (s_be s)) (en_nets E 1) servers sha of
                Inl e \<Rightarrow> (http_NotFound, inc_class (s_fetchFailures s) (ClassifyFetchError (Some e)) s)
              | Inr data \<Rightarrow>
                  if length data = 0
                  then (http_NotFound, inc_class (s_fetchFailures s) (ClassifyFetchError None) s)
                  else
                    serveBytes X r sha contentTypePath data st
                      (case be_blobs (s_be s) of
                         None \<Rightarrow> s
                       | Some b \<Rightarrow>
                           set_blobs
                             (snd (bs_Put X (en_put E) (en_rm E) (en_rng E) (en_now E) sha data b)) s)))"

subsection \<open>Bundles\<close>

definition namedSiteD :: "event \<Rightarrow> string" where
  "namedSiteD event =
     (case find (\<lambda>t. length t \<ge> 2 \<and> t ! 0 = ''d'') (ev_tags event) of Some t \<Rightarrow> t ! 1 | None \<Rightarrow> [])"

text \<open>The result \<open>None\<close> is Go's \<open>false\<close>: the request has not been answered. The caller has
  checked that the resolver and the bundle store are set.\<close>

definition serveFromNpk ::
  "ext \<Rightarrow> 'r env \<Rightarrow> request \<Rightarrow> resolver \<Rightarrow> bundle_store \<Rightarrow> site_type \<Rightarrow> event \<Rightarrow> string \<Rightarrow> string \<Rightarrow> nat \<Rightarrow>
     server \<Rightarrow> response option \<times> server" where
  "serveFromNpk X E r rs npk siteType event sha path st s =
     (let name = (if siteType = SiteNamed then namedSiteD event else NameRoot)
      in case rs_Release X (en_pools E 1) (en_clocks E 1) (ev_pubkey event) name rs of
           (Inl e, rs1) \<Rightarrow> (None, set_resolver rs1 s)
         | (Inr None, rs1) \<Rightarrow> (None, set_resolver rs1 s)
         | (Inr (Some rel), rs1) \<Rightarrow>
             (let s1 = set_resolver rs1 s
              in if bd_Has npk (SHA256 rel) (s_fs s1) then
                   (case bd_Open (en_os E) npk (SHA256 rel) path (s_fs s1) of
                      Inl e \<Rightarrow> (Some http_NotFound, s1)
                    | Inr data \<Rightarrow> (case serveBytes X r sha path data st s1 of (p, s2) \<Rightarrow> (Some p, s2)))
                 else
                   (let servers = servers_for (en_pools E 2) (Some rs1) event
                    in case fetchFirst X (be_fetcher (s_be s1)) (en_nets E 0) servers (SHA256 rel) of
                         Inl e \<Rightarrow> (None, inc_class (s_fetchFailures s1) (ClassifyFetchError (Some e)) s1)
                       | Inr data \<Rightarrow>
                           if length data = 0
                           then (None, inc_class (s_fetchFailures s1) (ClassifyFetchError None) s1)
                           else
                             (case Unpack X (en_os E) (en_archive E) npk (SHA256 rel) data (s_fs s1) of
                                (fs', Inl e) \<Rightarrow> (None, s1\<lparr>s_fs := fs'\<rparr>)
                              | (fs', Inr _) \<Rightarrow>
                                  (let s2 = s1\<lparr>s_fs := fs'\<rparr>
                                   in case bd_Open (en_os E) npk (SHA256 rel) path (s_fs s2) of
                                        Inl e \<Rightarrow> (Some http_NotFound, s2)
                                      | Inr bundleBody \<Rightarrow>
                                          (case serveBytes X r sha path bundleBody st s2 of
                                             (p, s3) \<Rightarrow> (Some p, s3)))))))"

subsection \<open>Sites\<close>

definition path_map :: "string list list \<Rightarrow> string \<Rightarrow> string option" where
  "path_map tags =
     fold (\<lambda>t m. if length t \<ge> 3 \<and> t ! 0 = ''path'' then m(t ! 1 \<mapsto> t ! 2) else m) tags Map.empty"

text \<open>The blob, its path and the status: the asked path, or the site's own not-found page.\<close>

definition lookup_path :: "(string \<Rightarrow> string option) \<Rightarrow> string \<Rightarrow> (string \<times> string \<times> nat) option" where
  "lookup_path paths path =
     (case paths path of
        Some sha \<Rightarrow> Some (sha, path, 200)
      | None \<Rightarrow>
          (case paths ''/404.html'' of
             None \<Rightarrow> None
           | Some fallback \<Rightarrow> Some (fallback, ''/404.html'', 404)))"

definition serveSite ::
  "ext \<Rightarrow> 'r env \<Rightarrow> request \<Rightarrow> site_type \<Rightarrow> string \<Rightarrow> string \<Rightarrow> string \<Rightarrow> server \<Rightarrow> response \<times> server" where
  "serveSite X E r siteType pubkey d path s =
     (case be_resolver (s_be s) of
        None \<Rightarrow> (http_NotFound, s)
      | Some rs \<Rightarrow>
          (case rs_Manifest X (en_pools E 0) (en_clocks E 0) siteType pubkey d [] rs of
             (Inr (Some event), rs1) \<Rightarrow>
               (let s1 = set_resolver rs1 s
                in case lookup_path (path_map (ev_tags event)) path of
                     None \<Rightarrow> (http_NotFound, s1)
                   | Some (sha, path', st) \<Rightarrow>
                       (case be_npk (s_be s1) of
                          None \<Rightarrow> serveBlob X E r event sha path' st s1
                        | Some npk \<Rightarrow>
                            (case serveFromNpk X E r rs1 npk siteType event sha path' st s1 of
                               (Some p, s2) \<Rightarrow> (p, s2)
                             | (None, s2) \<Rightarrow> serveBlob X E r event sha path' st s2)))
           | (_, rs1) \<Rightarrow> (http_NotFound, set_resolver rs1 s)))"

subsection \<open>The public handler\<close>

definition reject :: "server \<Rightarrow> response \<times> server" where
  "reject s = (http_NotFound, inc (s_reqOther s) s)"

definition serveApex :: response where
  "serveApex =
     \<lparr>rp_status = 200,
      rp_headers = [(''Content-Type'', ''text/html; charset=utf-8''), (''Cache-Control'', ''no-store'')],
      rp_body = ''<h1>nsite gateway</h1>'' @ [newline]\<rparr>"

definition handlePublic :: "ext \<Rightarrow> 'r env \<Rightarrow> request \<Rightarrow> server \<Rightarrow> response \<times> server" where
  "handlePublic X E r s =
     (if HasPrefix (rq_path r) ''/internal/'' then reject s
      else if isApex X s (rq_host r) then (serveApex, inc (s_reqApex s) s)
      else
        (case parseHost X s (rq_host r) of
           None \<Rightarrow> reject s
         | Some (label, siteType, hexID, d) \<Rightarrow>
             if \<not> allowlisted s siteType hexID then reject s
             else
               (case normalisePath (rq_path r) of
                  None \<Rightarrow> reject s
                | Some path \<Rightarrow> serveSite X E r siteType hexID d path (inc (s_reqSite s) s))))"

subsection \<open>The internal handler\<close>

definition handleTLSAsk :: "ext \<Rightarrow> request \<Rightarrow> server \<Rightarrow> response" where
  "handleTLSAsk X r s =
     (let asked = QueryGet (rq_rawquery r) ''domain'';
          host = (if asked = [] then rq_host r else asked);
          allowed = \<lparr>rp_status = 200, rp_headers = [], rp_body = ''ok''\<rparr>;
          refused = http_Error ''not allowed'' 403
      in if isApex X s host then allowed
         else
           (case parseHost X s host of
              None \<Rightarrow> refused
            | Some (label, siteType, hexID, d) \<Rightarrow>
                if siteType \<noteq> SiteRoot \<and> siteType \<noteq> SiteNamed then refused
                else if \<not> allowlisted s siteType hexID then refused
                else allowed))"

text \<open>The verbs of \<open>Fprintf\<close>. \<open>%q\<close> on ASCII strings; for others the Unicode tables decide
  which runes are printable.\<close>

definition quote_char :: "char \<Rightarrow> string" where
  "quote_char c =
     (if c = CHR 0x22 \<or> c = CHR 0x5C then [CHR 0x5C, c]
      else if c = CHR 7 then [CHR 0x5C, CHR ''a''] else if c = CHR 8 then [CHR 0x5C, CHR ''b'']
      else if c = CHR 0x0C then [CHR 0x5C, CHR ''f''] else if c = CHR 0x0A then [CHR 0x5C, CHR ''n'']
      else if c = CHR 0x0D then [CHR 0x5C, CHR ''r''] else if c = CHR 9 then [CHR 0x5C, CHR ''t'']
      else if c = CHR 0x0B then [CHR 0x5C, CHR ''v'']
      else if byte c < 32 \<or> byte c = 127 then
        [CHR 0x5C, CHR ''x'', digit_char (byte c div 16), digit_char (byte c mod 16)]
      else [c])"

definition quote_string :: "(string \<Rightarrow> string) \<Rightarrow> string \<Rightarrow> string" where
  "quote_string uq t =
     (if list_all is_ascii t then CHR 0x22 # concat (map quote_char t) @ [CHR 0x22] else uq t)"

definition json_key :: "string \<Rightarrow> string" where
  "json_key k = CHR 0x22 # k @ [CHR 0x22, CHR '':'']"

definition handleStatus :: "'r env \<Rightarrow> server \<Rightarrow> response" where
  "handleStatus E s =
     (let cacheBytes = (case be_blobs (s_be s) of None \<Rightarrow> 0 | Some b \<Rightarrow> bs_Used b);
          npkEnabled = (np_Enabled (cf_Npk (s_cfg s)) \<and> be_npk (s_be s) \<noteq> None)
      in ok_page ''application/json''
           (''{'' @ json_key ''domain'' @ quote_string (en_quote E) (Domain (s_cfg s)) @
            '','' @ json_key ''mode'' @ quote_string (en_quote E) (Mode (s_cfg s)) @
            '','' @ json_key ''allowlisted_sites'' @ show_dec (length (s_allow s)) @
            '','' @ json_key ''custom_domains'' @ show_dec (length (s_custom s)) @
            '','' @ json_key ''cache_bytes'' @ show_int cacheBytes @
            '','' @ json_key ''npk_enabled'' @ (if npkEnabled then ''true'' else ''false'') @ ''}''))"

definition handleInternal :: "ext \<Rightarrow> 'r env \<Rightarrow> request \<Rightarrow> server \<Rightarrow> response \<times> server" where
  "handleInternal X E r s =
     (if rq_path r = ''/healthz'' then (ok_page ''text/plain'' (''ok'' @ [newline]), s)
      else if rq_path r = ''/internal/tls-ask'' then (handleTLSAsk X r s, s)
      else if rq_path r = ''/internal/status'' then (handleStatus E s, s)
      else if rq_path r = ''/internal/metrics'' then (rg_Handler (en_exposition E) (s_reg s), s)
      else (http_NotFound, s))"

subsection \<open>What the handlers keep\<close>

text \<open>Between the counting of a request and its answer only the registry, the backends and the
  files change, and not the counts of requests.\<close>

definition quiet :: "server \<Rightarrow> server \<Rightarrow> bool" where
  "quiet s s' \<longleftrightarrow>
     same_setup s s' \<and>
     (\<forall>cls. count_of (s_reg s') (requests_total, [cls]) = count_of (s_reg s) (requests_total, [cls]))"

lemma quiet_refl [simp, intro]: "quiet s s"
  by (simp add: quiet_def)

lemma quiet_trans: "quiet s s' \<Longrightarrow> quiet s' s'' \<Longrightarrow> quiet s s''"
  by (auto simp: quiet_def intro: same_setup_trans)

lemma quiet_set [simp, intro]:
  "quiet s (set_blobs b s)" "quiet s (set_resolver rs s)" "quiet s (s\<lparr>s_fs := fs\<rparr>)"
  by (simp_all add: quiet_def set_blobs_def set_resolver_def)

lemma quiet_handles: "quiet s s' \<Longrightarrow> handles_ok s' = handles_ok s"
  by (simp add: quiet_def same_setup_handles)

text \<open>The invariant of the server: usable instruments, a consistent resolver, verified stores,
  and 64-character keys for the attached domains. \<open>ds\<close> is the bundle directory, \<open>A\<close> the
  archive readers.\<close>

definition be_inv :: "ext \<Rightarrow> 'r archive \<Rightarrow> string list \<Rightarrow> backends \<Rightarrow> fsys \<Rightarrow> bool" where
  "be_inv X A ds be fs \<longleftrightarrow>
     (case be_resolver be of None \<Rightarrow> True | Some rs \<Rightarrow> rs_inv X rs) \<and>
     (case be_blobs be of None \<Rightarrow> True | Some b \<Rightarrow> bs_inv b \<and> bs_verified X b) \<and>
     (case be_npk be of None \<Rightarrow> True | Some n \<Rightarrow> store_at ds n \<and> bd_inv X A ds fs)"

definition srv_inv :: "ext \<Rightarrow> 'r archive \<Rightarrow> string list \<Rightarrow> server \<Rightarrow> bool" where
  "srv_inv X A ds s \<longleftrightarrow>
     handles_ok s \<and> be_inv X A ds (s_be s) (s_fs s) \<and>
     fst ` set (s_allow s) = st_Pubkey ` set (cf_Sites (s_cfg s)) \<and>
     (\<forall>k cs. map_of (s_custom s) k = Some cs \<longrightarrow> length (cs_pubkey cs) = 64)"

lemma srv_invD:
  assumes "srv_inv X A ds s"
  shows "handles_ok s" and "be_resolver (s_be s) = Some rs \<Longrightarrow> rs_inv X rs"
    and "be_blobs (s_be s) = Some b \<Longrightarrow> bs_inv b \<and> bs_verified X b"
    and "be_npk (s_be s) = Some n \<Longrightarrow> store_at ds n \<and> bd_inv X A ds (s_fs s)"
    and "map_of (s_custom s) k = Some cs \<Longrightarrow> length (cs_pubkey cs) = 64"
  using assms by (auto simp: srv_inv_def be_inv_def)

lemma srv_inv_reg: "srv_inv X A ds (s\<lparr>s_reg := r\<rparr>) = srv_inv X A ds s"
  by (simp add: srv_inv_def handles_ok_def)

lemma srv_inv_resolver: "srv_inv X A ds s \<Longrightarrow> rs_inv X rs \<Longrightarrow> srv_inv X A ds (set_resolver rs s)"
  by (simp add: srv_inv_def be_inv_def set_resolver_def handles_ok_def)

lemma srv_inv_blobs:
  "srv_inv X A ds s \<Longrightarrow> bs_inv b \<Longrightarrow> bs_verified X b \<Longrightarrow> srv_inv X A ds (set_blobs b s)"
  by (simp add: srv_inv_def be_inv_def set_blobs_def handles_ok_def)

lemma srv_inv_fs:
  "srv_inv X A ds s \<Longrightarrow> bd_inv X A ds fs \<Longrightarrow> srv_inv X A ds (s\<lparr>s_fs := fs\<rparr>)"
  by (auto simp: srv_inv_def be_inv_def handles_ok_def split: option.splits)

text \<open>Each instrument call keeps the invariant and is silent about requests.\<close>

definition fine :: "ext \<Rightarrow> 'r archive \<Rightarrow> string list \<Rightarrow> server \<Rightarrow> server \<Rightarrow> bool" where
  "fine X A ds s s' \<longleftrightarrow> srv_inv X A ds s' \<and> quiet s s'"

lemma fine_trans: "fine X A ds s s' \<Longrightarrow> fine X A ds s' s'' \<Longrightarrow> fine X A ds s s''"
  by (auto simp: fine_def intro: quiet_trans)

lemma fine_observe:
  assumes "srv_inv X A ds s"
  shows "fine X A ds s (observe (s_bytesServed s) n s)"
proof -
  obtain r where "observe (s_bytesServed s) n s = s\<lparr>s_reg := r\<rparr>" "rg_counts r = rg_counts (s_reg s)"
    using observe_usable handles_usable(5) [OF srv_invD(1) [OF assms]] by metis
  then show ?thesis using assms by (simp add: fine_def quiet_def srv_inv_reg count_of_def)
qed

lemma fine_then_observe:
  "fine X A ds s s' \<Longrightarrow> fine X A ds s (observe (s_bytesServed s') n s')"
  using fine_trans fine_observe fine_def by metis

lemma fine_fs: "fine X A ds s s' \<Longrightarrow> bd_inv X A ds fs \<Longrightarrow> fine X A ds s (s'\<lparr>s_fs := fs\<rparr>)"
  using srv_inv_fs by (auto simp: fine_def intro: quiet_trans)

lemma fine_hits:
  assumes "srv_inv X A ds s"
  shows "fine X A ds s (inc (s_cacheHits s) s)"
proof -
  have h: "usable (s_cacheHits s)" "child_of (s_cacheHits s) = (cache_hits_total, [])"
    using handles_usable [OF srv_invD(1) [OF assms]] by simp_all
  obtain r where "inc (s_cacheHits s) s = s\<lparr>s_reg := r\<rparr>"
      "\<And>k. count_of r k = count_of (s_reg s) k + (if k = child_of (s_cacheHits s) then 1 else 0)"
    using inc_usable [OF h(1)] by metis
  then show ?thesis using assms h(2) by (simp add: fine_def quiet_def srv_inv_reg)
qed

lemma fine_failure:
  assumes "srv_inv X A ds s"
  shows "fine X A ds s (inc_class (s_fetchFailures s) cls s)"
proof -
  have h: "length (h_labelKeys (s_fetchFailures s)) = 1" "h_name (s_fetchFailures s) = fetch_failures_total"
    using handles_usable [OF srv_invD(1) [OF assms]] by simp_all
  obtain r where "inc_class (s_fetchFailures s) cls s = s\<lparr>s_reg := r\<rparr>"
      "\<And>k. count_of r k = count_of (s_reg s) k + (if k = (h_name (s_fetchFailures s), [cls]) then 1 else 0)"
    using inc_class_usable [OF h(1)] by metis
  then show ?thesis using assms h(2) by (simp add: fine_def quiet_def srv_inv_reg)
qed

lemma fine_request:
  assumes "srv_inv X A ds s" and "h = s_reqApex s \<and> cls = ''apex'' \<or> h = s_reqSite s \<and> cls = ''site'' \<or>
    h = s_reqOther s \<and> cls = ''reject''"
  shows "srv_inv X A ds (inc h s) \<and> same_setup s (inc h s) \<and> s_be (inc h s) = s_be s \<and>
    s_fs (inc h s) = s_fs s \<and>
    (\<forall>c. count_of (s_reg (inc h s)) (requests_total, [c]) =
       count_of (s_reg s) (requests_total, [c]) + (if c = cls then 1 else 0))"
proof -
  have h: "usable h" "child_of h = (requests_total, [cls])"
    using handles_usable [OF srv_invD(1) [OF assms(1)]] assms(2) by auto
  obtain r where "inc h s = s\<lparr>s_reg := r\<rparr>"
      "\<And>k. count_of r k = count_of (s_reg s) k + (if k = child_of h then 1 else 0)"
    using inc_usable [OF h(1)] by metis
  then show ?thesis using assms(1) h(2) by (simp add: srv_inv_reg)
qed

subsection \<open>What the handlers answer\<close>

text \<open>The response for some bytes served under a digest.\<close>

definition page :: "ext \<Rightarrow> request \<Rightarrow> string \<Rightarrow> string \<Rightarrow> bytes \<Rightarrow> nat \<Rightarrow> response" where
  "page X r sha path data st =
     \<lparr>rp_status = (if rq_ifNoneMatch r = etag_of sha then 304 else st),
      rp_headers =
        [(''ETag'', etag_of sha), (''Content-Type'', contentTypeFor X path),
         (''Cache-Control'', ''public, max-age=3600''), (''X-Content-Type-Options'', ''nosniff''),
         (''Referrer-Policy'', ''strict-origin-when-cross-origin''),
         (''Cross-Origin-Opener-Policy'', ''same-origin'')],
      rp_body = (if rq_ifNoneMatch r = etag_of sha then [] else data)\<rparr>"

lemma serveBytes_page:
  "serveBytes X r sha path data st s = (page X r sha path data st, observe (s_bytesServed s) (length data) s)"
  by (simp add: serveBytes_def page_def Let_def)

lemma bs_Open_cases:
  assumes "bs_verified X b"
  obtains (none) "bs_Open ok now sha b = (Inl IOError, b)"
    | (some) f where "bs_Open ok now sha b =
        (Inr f, b\<lparr>bs_last_use := AList.update sha now (bs_last_use b)\<rparr>)" "hash_hex X f = sha"
  using assms by (cases "if ok then bs_disk b sha else None") (auto simp: bs_Open_def bs_verified_def split: if_splits)

lemma fetchFirst_verified: "fetchFirst X fo nets servers sha = Inr data \<Longrightarrow> hash_hex X data = sha"
  by (auto simp: fetchFirst_def split: option.splits if_splits dest!: try_each_Inr)
    (metis Fetch_verified prod.collapse)

text \<open>Serving a blob: not found, or bytes with the blob's digest (as much of them as was read,
  when they come from the cache).\<close>

lemma serveBlob_cases:
  assumes "srv_inv X A ds s" and "serveBlob X E r event sha p st s = (resp, s')"
  obtains (none) "resp = http_NotFound" "fine X A ds s s'"
    | (blob) data where "hash_hex X data = sha" "fine X A ds s s'"
        "resp = page X r sha p (case en_read E of None \<Rightarrow> data | Some n \<Rightarrow> take n data) st"
    | (fetched) data where "hash_hex X data = sha" "fine X A ds s s'" "resp = page X r sha p data st"
proof (cases "case be_blobs (s_be s) of Some b \<Rightarrow> if bs_Has b sha then Some b else None | None \<Rightarrow> None")
  case (Some b)
  then have b: "be_blobs (s_be s) = Some b" by (auto split: option.splits if_splits)
  define s1 where "s1 = inc (s_cacheHits s) s"
  have f1: "fine X A ds s s1" using fine_hits [OF assms(1)] by (simp add: s1_def)
  then have i1: "srv_inv X A ds s1" by (simp add: fine_def)
  have bv: "bs_inv b" "bs_verified X b" using srv_invD(3) [OF assms(1) b] by auto
  have c: "serveCached X E r b sha p st s1 = (resp, s')"
    using assms(2) Some by (simp add: serveBlob_def s1_def)
  show thesis
    using bv(2)
  proof (cases rule: bs_Open_cases [where ok = "en_open E" and now = "en_now E" and sha = sha])
    case none
    have "fine X A ds s1 (set_blobs b s1)"
      using srv_inv_blobs [OF i1 bv] by (simp add: fine_def)
    then show thesis
      using c none that(1) fine_trans [OF f1] by (simp add: serveCached_def)
  next
    case (some f)
    define b' where "b' = b\<lparr>bs_last_use := AList.update sha (en_now E) (bs_last_use b)\<rparr>"
    define d where "d = (case en_read E of None \<Rightarrow> f | Some n \<Rightarrow> take n f)"
    have "bs_inv b'" "bs_verified X b'"
      using bs_Open_inv [OF bv(1), of "en_open E" "en_now E" sha] bs_Open_verified [OF bv(2), of "en_open E" "en_now E" sha] some(1)
      by (simp_all add: b'_def)
    then have f2: "fine X A ds s1 (set_blobs b' s1)"
      using srv_inv_blobs [OF i1] by (simp add: fine_def)
    have "fine X A ds s (observe (s_bytesServed (set_blobs b' s1)) (length d) (set_blobs b' s1))"
      using fine_then_observe [OF fine_trans [OF f1 f2]] .
    moreover have "resp = page X r sha p d st"
      "s' = observe (s_bytesServed (set_blobs b' s1)) (length d) (set_blobs b' s1)"
      using c some(1) by (simp_all add: serveCached_def serveBytes_page b'_def d_def)
    ultimately show thesis
      using that(2) [of f] some(2) by (simp add: d_def)
  qed
next
  case None
  define ans where "ans = fetchFirst X (be_fetcher (s_be s)) (en_nets E 1)
    (servers_for (en_pools E 3) (be_resolver (s_be s)) event) sha"
  define s1 where "s1 d = (case be_blobs (s_be s) of None \<Rightarrow> s | Some b \<Rightarrow>
    set_blobs (snd (bs_Put X (en_put E) (en_rm E) (en_rng E) (en_now E) sha d b)) s)" for d
  have f1: "fine X A ds s (s1 d)" for d
    using assms(1) srv_invD(3) [OF assms(1)] srv_inv_blobs [OF assms(1)] bs_Put_inv bs_Put_verified
    by (cases "be_blobs (s_be s)") (simp_all add: s1_def fine_def)
  have eq: "serveBlob X E r event sha p st s =
    (case ans of
       Inl e \<Rightarrow> (http_NotFound, inc_class (s_fetchFailures s) (ClassifyFetchError (Some e)) s)
     | Inr d \<Rightarrow>
         if length d = 0 then (http_NotFound, inc_class (s_fetchFailures s) (ClassifyFetchError None) s)
         else serveBytes X r sha p d st (s1 d))"
    using None unfolding ans_def s1_def by (simp add: serveBlob_def Let_def)
  consider (fail) c where "resp = http_NotFound" "s' = inc_class (s_fetchFailures s) c s"
    | (ok) d where "ans = Inr d" "serveBytes X r sha p d st (s1 d) = (resp, s')"
    using assms(2) unfolding eq by (cases ans) (auto split: if_splits)
  then show thesis
  proof cases
    case fail
    then show thesis using that(1) fine_failure [OF assms(1)] by simp
  next
    case (ok d)
    have "hash_hex X d = sha" using ok(1) fetchFirst_verified unfolding ans_def by metis
    then show thesis
      using that(3) [of d] ok(2) fine_then_observe [OF f1 [of d]] by (auto simp: serveBytes_page)
  qed
qed

text \<open>Serving from a bundle: not answered, not found, or a member of an archive whose digest a
  release of the site's author carries. The invariant keeps the bundle store and its archive
  readers the same.\<close>

definition member_of_release :: "ext \<Rightarrow> 'r archive \<Rightarrow> string \<Rightarrow> string \<Rightarrow> bytes \<Rightarrow> bool" where
  "member_of_release X A publisher path data \<longleftrightarrow>
     (\<exists>rel name relpath. good_release X publisher name rel \<and> bundleRel path = Some relpath \<and>
        archive_member X A (SHA256 rel) relpath data)"

lemma lower_digit_hex: "is_lower_digit 16 c \<Longrightarrow> is_hex_char c"
  by (auto simp: is_lower_digit_def digit_val_def is_hex_char_def ascii_defs less_eq_char_def
      split: if_splits)

lemma good_release_sha: "good_release X pk name rel \<Longrightarrow> isSHA256 (SHA256 rel)"
proof -
  assume "good_release X pk name rel"
  then have "hex64 (SHA256 rel)" by (simp add: good_release_def release_ok_def)
  then show "isSHA256 (SHA256 rel)"
    by (auto simp: isSHA256_def isHex_def hex64_def list_all_iff dest: lower_digit_hex)
qed

lemma serveFromNpk_cases:
  assumes "srv_inv X A ds s" and "rs_inv X rs" and "store_at ds npk" and "bd_inv X A ds (s_fs s)"
    and "\<And>i. pool_ok (en_pools E i)" and "en_archive E = A" and "length (ev_pubkey ev) = 64"
    and "serveFromNpk X E r rs npk siteType ev sha p st s = (ans, s')"
  obtains (pass) "ans = None" "fine X A ds s s'"
    | (none) "ans = Some http_NotFound" "fine X A ds s s'"
    | (member) data where "member_of_release X A (ev_pubkey ev) p data" "fine X A ds s s'"
        "ans = Some (page X r sha p data st)"
proof -
  define name where "name = (if siteType = SiteNamed then namedSiteD ev else NameRoot)"
  obtain ra rs1 where rel: "rs_Release X (en_pools E 1) (en_clocks E 1) (ev_pubkey ev) name rs = (ra, rs1)"
    by force
  have i1: "rs_inv X rs1" using rs_Release_inv [OF assms(2,5,7)] rel by (metis snd_conv)
  define s1 where "s1 = set_resolver rs1 s"
  have f1: "fine X A ds s s1" using srv_inv_resolver [OF assms(1) i1] by (simp add: s1_def fine_def)
  have fs1: "s_fs s1 = s_fs s" by (simp add: s1_def set_resolver_def)
  consider (no) "\<And>x. ra \<noteq> Inr (Some x)" | (yes) x where "ra = Inr (Some x)"
    by (cases ra; cases "projr ra") auto
  then show thesis
  proof cases
    case no
    then have "(ans, s') = (None, s1)"
      using assms(8) rel unfolding serveFromNpk_def Let_def name_def [symmetric] s1_def
      by (auto split: sum.splits option.splits)
    then show thesis using that(1) f1 by simp
  next
    case (yes x)
    have good: "good_release X (ev_pubkey ev) name x"
      using rs_Release_good [OF assms(2,5,7)] rel yes by (metis fst_conv)
    note sha_ok = good_release_sha [OF good]
    define opened where "opened s2 = bd_Open (en_os E) npk (SHA256 x) p (s_fs s2)" for s2 :: server
    have page_case: thesis
      if f2: "fine X A ds s s2" and b: "bd_inv X A ds (s_fs s2)"
        and e: "(case opened s2 of Inl e \<Rightarrow> (Some http_NotFound, s2)
          | Inr data \<Rightarrow> (case serveBytes X r sha p data st s2 of (q, s3) \<Rightarrow> (Some q, s3))) = (ans, s')" for s2
    proof (cases "opened s2")
      case (Inl e)
      then show thesis using that that(1) none e by auto
    next
      case (Inr data)
      then have "member_of_release X A (ev_pubkey ev) p data"
        using bd_read_authentic [OF assms(3) b _ sha_ok, of "en_os E" p data] good
        by (auto simp: opened_def member_of_release_def)
      then show thesis
        using member [of data] e Inr fine_then_observe [OF f2] by (auto simp: serveBytes_page)
    qed
    have failed: thesis if "(None, inc_class (s_fetchFailures s1) c s1) = (ans, s')" for c
      using that that(1) pass fine_trans [OF f1 fine_failure] f1 by (auto simp: fine_def)
    define got where "got = fetchFirst X (be_fetcher (s_be s1)) (en_nets E 0)
      (servers_for (en_pools E 2) (Some rs1) ev) (SHA256 x)"
    have eq: "(ans, s') =
      (if bd_Has npk (SHA256 x) (s_fs s1) then
         (case opened s1 of Inl e \<Rightarrow> (Some http_NotFound, s1)
          | Inr data \<Rightarrow> (case serveBytes X r sha p data st s1 of (q, s3) \<Rightarrow> (Some q, s3)))
       else
         (case got of Inl e \<Rightarrow> (None, inc_class (s_fetchFailures s1) (ClassifyFetchError (Some e)) s1)
          | Inr data \<Rightarrow>
              if length data = 0 then (None, inc_class (s_fetchFailures s1) (ClassifyFetchError None) s1)
              else
                (case Unpack X (en_os E) A npk (SHA256 x) data (s_fs s1) of
                   (fs', Inl e) \<Rightarrow> (None, s1\<lparr>s_fs := fs'\<rparr>)
                 | (fs', Inr _) \<Rightarrow>
                     (case opened (s1\<lparr>s_fs := fs'\<rparr>) of Inl e \<Rightarrow> (Some http_NotFound, s1\<lparr>s_fs := fs'\<rparr>)
                      | Inr data' \<Rightarrow>
                          (case serveBytes X r sha p data' st (s1\<lparr>s_fs := fs'\<rparr>) of
                             (q, s3) \<Rightarrow> (Some q, s3))))))"
      using assms(8) [symmetric]
      unfolding serveFromNpk_def Let_def name_def [symmetric] rel yes prod.case sum.case option.case
        assms(6) s1_def opened_def got_def .
    show thesis
    proof (cases "bd_Has npk (SHA256 x) (s_fs s1)")
      case True
      then show thesis using page_case [OF f1] eq assms(4) fs1 by simp
    next
      case False
      show thesis
      proof (cases got)
        case (Inl e)
        then show thesis using failed eq False by auto
      next
        case (Inr data)
        obtain fs' u where unp: "Unpack X (en_os E) A npk (SHA256 x) data (s_fs s1) = (fs', u)" by force
        have b: "bd_inv X A ds fs'"
          using bd_step_inv [OF assms(3,4), of "(en_os E, SHA256 x, data)"] unp fs1 by (simp add: bd_step_def)
        then have f2: "fine X A ds s (s1\<lparr>s_fs := fs'\<rparr>)" by (rule fine_fs [OF f1])
        show thesis
        proof (cases "length data = 0")
          case True
          then show thesis using failed eq False Inr by auto
        next
          case ne: False
          show thesis
          proof (cases u)
            case (Inl e)
            then show thesis using pass f2 eq False \<open>got = Inr data\<close> ne unp by auto
          next
            case (Inr v)
            then show thesis using page_case [OF f2] b eq False \<open>got = Inr data\<close> ne unp by simp
          qed
        qed
      qed
    qed
  qed
qed

subsection \<open>What a site request answers\<close>

definition env_ok :: "'r archive \<Rightarrow> 'r env \<Rightarrow> bool" where
  "env_ok A E \<longleftrightarrow> (\<forall>i. pool_ok (en_pools E i)) \<and> en_archive E = A"

text \<open>Bytes with the digest \<open>sha\<close>, of which a read gave \<open>data\<close>.\<close>

definition read_of :: "ext \<Rightarrow> nat option \<Rightarrow> string \<Rightarrow> bytes \<Rightarrow> bool" where
  "read_of X lim sha data \<longleftrightarrow>
     (\<exists>full. hash_hex X full = sha \<and> (data = full \<or> (\<exists>n. lim = Some n \<and> data = take n full)))"

text \<open>A valid manifest of the asked site.\<close>

definition site_manifest :: "ext \<Rightarrow> server \<Rightarrow> site_type \<Rightarrow> string \<Rightarrow> string \<Rightarrow> event \<Rightarrow> bool" where
  "site_manifest X s siteType pubkey d ev \<longleftrightarrow>
     (\<exists>rs k f. be_resolver (s_be s) = Some rs \<and> v_valid (Validate X ev (rs_options rs)) \<and>
        keyAndFilter siteType pubkey d [] = Inr (k, f) \<and> matches f ev)"

lemma serveSite_cases:
  assumes "sha256_ok X" and "srv_inv X A ds s" and "env_ok A E" and "length pk = 64"
    and "serveSite X E r siteType pk d path s = (resp, s')"
  obtains (none) "resp = http_NotFound" "fine X A ds s s'"
    | (served) ev sha p st data where
        "fine X A ds s s'" "site_manifest X s siteType pk d ev"
        "lookup_path (path_map (ev_tags ev)) path = Some (sha, p, st)"
        "resp = page X r sha p data st"
        "read_of X (en_read E) sha data \<or>
         (be_npk (s_be s) \<noteq> None \<and> member_of_release X A (ev_pubkey ev) p data)"
proof (cases "be_resolver (s_be s)")
  note absent = none
  case None
  then show thesis using that(1) assms(2,5) by (auto simp: serveSite_def fine_def)
next
  note absent = none
  case (Some rs)
  note pools = assms(3) [unfolded env_ok_def]
  have ri: "rs_inv X rs" using srv_invD(2) [OF assms(2) Some] .
  obtain ans rs1 where m: "rs_Manifest X (en_pools E 0) (en_clocks E 0) siteType pk d [] rs = (ans, rs1)"
    by force
  have i1: "rs_inv X rs1" using rs_Manifest_inv [OF ri _ assms(4)] pools m by (metis snd_conv)
  define s1 where "s1 = set_resolver rs1 s"
  have f1: "fine X A ds s s1" using srv_inv_resolver [OF assms(2) i1] by (simp add: s1_def fine_def)
  then have inv1: "srv_inv X A ds s1" by (simp add: fine_def)
  have npk1: "be_npk (s_be s1) = be_npk (s_be s)" "s_fs s1 = s_fs s" by (simp_all add: s1_def set_resolver_def)
  have eq: "(resp, s') =
    (case ans of
       Inr (Some event) \<Rightarrow>
         (case lookup_path (path_map (ev_tags event)) path of
            None \<Rightarrow> (http_NotFound, s1)
          | Some (sha, path', st) \<Rightarrow>
              (case be_npk (s_be s1) of
                 None \<Rightarrow> serveBlob X E r event sha path' st s1
               | Some npk \<Rightarrow>
                   (case serveFromNpk X E r rs1 npk siteType event sha path' st s1 of
                      (Some p, s2) \<Rightarrow> (p, s2)
                    | (None, s2) \<Rightarrow> serveBlob X E r event sha path' st s2)))
     | _ \<Rightarrow> (http_NotFound, s1))"
    using assms(5) [symmetric] Some m
    by (simp add: serveSite_def Let_def s1_def split: sum.splits option.splits)
  consider (no) "\<And>ev. ans \<noteq> Inr (Some ev)" | (ev) ev where "ans = Inr (Some ev)"
    by (cases ans; cases "projr ans") auto
  then show thesis
  proof cases
    case no
    then show thesis using that(1) eq f1 by (auto split: sum.splits option.splits)
  next
    case (ev ev)
    obtain k f where kf: "keyAndFilter siteType pk d [] = Inr (k, f)" "good_manifest X rs f ev"
      using rs_Manifest_good [OF ri _ assms(4)] pools m ev by (metis fst_conv)
    then have site: "site_manifest X s siteType pk d ev"
      using Some by (auto simp: site_manifest_def good_manifest_def rs_options_def)
    have "siteType \<noteq> SiteSnapshot" using kf(1) by (auto simp: keyAndFilter_def)
    then have pk: "ev_pubkey ev = pk"
      using manifest_site [OF assms(1) _ kf(1)] kf(2) by (auto simp: good_manifest_def)
    show thesis
    proof (cases "lookup_path (path_map (ev_tags ev)) path")
      case None
      then show thesis using that(1) eq ev f1 by simp
    next
      case (Some l)
      obtain sha p st where l: "l = (sha, p, st)" by (cases l) auto
      have blob: thesis if f2: "fine X A ds s s2" and b: "serveBlob X E r ev sha p st s2 = (resp, s')" for s2
      proof -
        have "srv_inv X A ds s2" using f2 by (simp add: fine_def)
        from this b show thesis
        proof (cases rule: serveBlob_cases)
          case none
          then show thesis using absent fine_trans [OF f2] by blast
        next
          case (blob data)
          let ?d = "case en_read E of None \<Rightarrow> data | Some n \<Rightarrow> take n data"
          have "read_of X (en_read E) sha ?d"
            using blob(1) by (auto simp: read_of_def split: option.splits)
          then show thesis
            using served [OF fine_trans [OF f2 blob(2)] site] Some l blob(3) by simp
        next
          case (fetched data)
          then have "read_of X (en_read E) sha data" by (auto simp: read_of_def)
          then show thesis
            using served [OF fine_trans [OF f2 fetched(2)] site] Some l fetched(3) by simp
        qed
      qed
      show thesis
      proof (cases "be_npk (s_be s)")
        case None
        then show thesis using blob [OF f1] eq ev Some l npk1 by simp
      next
        case npk: (Some npk)
        obtain a s2 where sf: "serveFromNpk X E r rs1 npk siteType ev sha p st s1 = (a, s2)" by force
        have st: "store_at ds npk" "bd_inv X A ds (s_fs s1)"
          using srv_invD(4) [OF assms(2) npk] npk1 by auto
        have len: "length (ev_pubkey ev) = 64" using pk assms(4) by simp
        have po: "\<And>i. pool_ok (en_pools E i)" and ar: "en_archive E = A" using pools by auto
        from inv1 i1 st po ar len sf show thesis
        proof (cases rule: serveFromNpk_cases)
          case pass
          then show thesis using blob [OF fine_trans [OF f1 pass(2)]] eq ev Some l npk npk1 sf by simp
        next
          case none
          have "resp = http_NotFound" "s' = s2"
            using eq ev Some l npk npk1 sf none(1) by simp_all
          then show thesis using absent fine_trans [OF f1 none(2)] by simp
        next
          case (member data)
          have out: "resp = page X r sha p data st" "s' = s2"
            using eq ev Some l npk npk1 sf member(3) by simp_all
          show thesis
            using served [of ev sha p st data] fine_trans [OF f1 member(2)] site Some l out npk member(1)
            by simp
        qed
      qed
    qed
  qed
qed

subsection \<open>The gate\<close>

text \<open>The site and path a public request is for, when it is for one: not an internal path, not
  the apex, a host that names a site, a site that may be served, a path that normalises.\<close>

definition gate :: "ext \<Rightarrow> server \<Rightarrow> request \<Rightarrow> (site_type \<times> string \<times> string \<times> string) option" where
  "gate X s r =
     (if HasPrefix (rq_path r) ''/internal/'' \<or> isApex X s (rq_host r) then None
      else
        (case parseHost X s (rq_host r) of
           None \<Rightarrow> None
         | Some (label, st, pk, d) \<Rightarrow>
             if allowlisted s st pk then map_option (\<lambda>p. (st, pk, d, p)) (normalisePath (rq_path r))
             else None))"

definition apex_request :: "ext \<Rightarrow> server \<Rightarrow> request \<Rightarrow> bool" where
  "apex_request X s r \<longleftrightarrow> \<not> HasPrefix (rq_path r) ''/internal/'' \<and> isApex X s (rq_host r)"

lemma handlePublic_gate:
  "handlePublic X E r s =
     (if apex_request X s r then (serveApex, inc (s_reqApex s) s)
      else
        (case gate X s r of
           None \<Rightarrow> reject s
         | Some (st, pk, d, path) \<Rightarrow> serveSite X E r st pk d path (inc (s_reqSite s) s)))"
  by (auto simp: handlePublic_def gate_def apex_request_def split: option.splits)

lemma gate_facts:
  assumes "srv_inv X A ds s" and "gate X s r = Some (st, pk, d, path)"
  shows "length pk = 64" and "allowlisted s st pk" and "normalisePath (rq_path r) = Some path"
    and "\<not> HasPrefix (rq_path r) ''/internal/''"
proof -
  obtain label where h: "parseHost X s (rq_host r) = Some (label, st, pk, d)" "allowlisted s st pk"
      "normalisePath (rq_path r) = Some path"
    using assms(2) by (auto simp: gate_def split: if_splits option.splits)
  show "length pk = 64"
    using h(1)
  proof (cases rule: parseHost_cases)
    case site
    then show ?thesis using DecodeLabel_hexID by metis
  next
    case (custom cs)
    then show ?thesis using srv_invD(5) [OF assms(1)] by metis
  qed
  show "allowlisted s st pk" "normalisePath (rq_path r) = Some path" by fact+
  show "\<not> HasPrefix (rq_path r) ''/internal/''" using assms(2) by (auto simp: gate_def split: if_splits)
qed

text \<open>Every outcome of a public request.\<close>

definition counted_as :: "string \<Rightarrow> server \<Rightarrow> server \<Rightarrow> bool" where
  "counted_as cls s s' \<longleftrightarrow>
     (\<forall>c. count_of (s_reg s') (requests_total, [c]) =
        count_of (s_reg s) (requests_total, [c]) + (if c = cls then 1 else 0))"

lemma handlePublic_cases:
  assumes "sha256_ok X" and "srv_inv X A ds s" and "env_ok A E" and "handlePublic X E r s = (resp, s')"
  obtains (apex) "apex_request X s r" "gate X s r = None" "resp = serveApex" "s_be s' = s_be s"
      "s_fs s' = s_fs s" "counted_as ''apex'' s s'" "srv_inv X A ds s'" "same_setup s s'"
    | (rejected) "\<not> apex_request X s r" "gate X s r = None" "resp = http_NotFound" "s_be s' = s_be s"
      "s_fs s' = s_fs s" "counted_as ''reject'' s s'" "srv_inv X A ds s'" "same_setup s s'"
    | (site) st pk d path where "gate X s r = Some (st, pk, d, path)" "counted_as ''site'' s s'"
      "srv_inv X A ds s'" "same_setup s s'"
      "serveSite X E r st pk d path (inc (s_reqSite s) s) = (resp, s')"
proof (cases "apex_request X s r")
  case True
  then have "gate X s r = None" by (simp add: gate_def apex_request_def)
  moreover have "resp = serveApex" "s' = inc (s_reqApex s) s"
    using assms(4) True by (simp_all add: handlePublic_gate)
  ultimately show thesis
    using apex True fine_request [OF assms(2), of "s_reqApex s" "''apex''"] by (simp add: counted_as_def)
next
  case na: False
  show thesis
  proof (cases "gate X s r")
    case None
    have "resp = http_NotFound" "s' = inc (s_reqOther s) s"
      using assms(4) na None by (simp_all add: handlePublic_gate reject_def)
    then show thesis
      using rejected na None fine_request [OF assms(2), of "s_reqOther s" "''reject''"]
      by (simp add: counted_as_def)
  next
    case (Some g)
    obtain st pk d path where g: "g = (st, pk, d, path)" by (cases g) auto
    define s1 where "s1 = inc (s_reqSite s) s"
    have s1: "srv_inv X A ds s1" "same_setup s s1" "counted_as ''site'' s s1"
      using fine_request [OF assms(2), of "s_reqSite s" "''site''"] by (simp_all add: s1_def counted_as_def)
    have e: "serveSite X E r st pk d path s1 = (resp, s')"
      using assms(4) na Some g by (simp add: handlePublic_gate s1_def)
    have "length pk = 64" using gate_facts(1) [OF assms(2)] Some g by simp
    from assms(1) s1(1) assms(3) this e have "fine X A ds s1 s'"
      by (cases rule: serveSite_cases) auto
    then have "srv_inv X A ds s'" "same_setup s s'" "counted_as ''site'' s s'"
      using s1 by (auto simp: fine_def quiet_def counted_as_def intro: same_setup_trans)
    then show thesis using site Some g e by (simp add: s1_def)
  qed
qed

subsection \<open>The server as a state machine\<close>

text \<open>A step is a request on either listener, a configuration swap to a configuration that
  validates, or the installation of new backends, with what preparing them did to the file
  system; the bundle directory of the new backends can be another one.\<close>

inductive srv_step :: "ext \<Rightarrow> 'r archive \<Rightarrow> server \<Rightarrow> server \<Rightarrow> bool"
  for X A where
    public_step: "env_ok A E \<Longrightarrow> handlePublic X E r s = (resp, s') \<Longrightarrow> srv_step X A s s'"
  | internal_step: "env_ok A E \<Longrightarrow> handleInternal X E r s = (resp, s') \<Longrightarrow> srv_step X A s s'"
  | reload_step: "cfg_Validate X loopback cfg = None \<Longrightarrow> srv_step X A s (srv_Reload X cfg s)"
  | configure_step: "be_inv X A ds be fs \<Longrightarrow> srv_step X A s (srv_Configure be (s\<lparr>s_fs := fs\<rparr>))"

inductive srv_reach :: "ext \<Rightarrow> 'r archive \<Rightarrow> server \<Rightarrow> bool"
  for X A where
    start: "cfg_Validate X loopback cfg = None \<Longrightarrow> srv_New X cfg fs = Some s \<Longrightarrow> srv_reach X A s"
  | steps: "srv_reach X A s \<Longrightarrow> srv_step X A s s' \<Longrightarrow> srv_reach X A s'"

lemma handleInternal_state: "snd (handleInternal X E r s) = s"
  by (simp add: handleInternal_def)

lemma custom_keys_valid:
  assumes "cfg_Validate X loopback cfg = None" and "map_of (s_custom (srv_apply X cfg s)) k = Some cs"
  shows "length (cs_pubkey cs) = 64"
  using Validate_custom [OF assms(1)] custom_apply [OF assms(2)]
  by (auto simp: list_all_iff custom_ok_def Let_def)

lemma srv_New_inv:
  assumes "cfg_Validate X loopback cfg = None" and "srv_New X cfg fs = Some s"
  shows "srv_inv X A ds s"
proof -
  obtain s0 where s0: "s = srv_apply X cfg s0" "handles_ok s0" "s_be s0 = no_backends"
    using srv_New_Some [of X cfg fs] assms(2) by auto
  have "be_inv X A ds no_backends (s_fs s0)" by (simp add: be_inv_def no_backends_def)
  then show ?thesis
    using s0 custom_keys_valid [OF assms(1)] by (simp add: srv_inv_def allow_apply)
qed

lemma srv_step_inv:
  assumes "sha256_ok X" and "srv_inv X A ds s" and "srv_step X A s s'"
  shows "\<exists>ds'. srv_inv X A ds' s'"
  using assms(3)
proof (cases rule: srv_step.cases)
  case (public_step E r resp)
  from assms(1,2) public_step have "srv_inv X A ds s'" by (cases rule: handlePublic_cases) auto
  then show ?thesis by blast
next
  case (internal_step E r resp)
  then show ?thesis using handleInternal_state assms(2) by (metis snd_conv)
next
  case (reload_step loopback cfg)
  then have "srv_inv X A ds s'"
    using assms(2) custom_keys_valid [OF reload_step(2)] by (simp add: srv_Reload_def srv_inv_def allow_apply)
  then show ?thesis by blast
next
  case (configure_step ds' be fs)
  moreover have "handles_ok (s\<lparr>s_fs := fs\<rparr>) = handles_ok s" by (simp add: handles_ok_def)
  ultimately have "srv_inv X A ds' s'" using assms(2) by (simp add: srv_inv_def)
  then show ?thesis by blast
qed

lemma srv_reach_inv:
  assumes "sha256_ok X" and "srv_reach X A s"
  shows "\<exists>ds. srv_inv X A ds s"
  using assms(2)
proof induction
  case (start loopback cfg fs s)
  then show ?case using srv_New_inv by blast
next
  case (steps s s')
  then show ?case using srv_step_inv [OF assms(1)] by blast
qed

end
