(* ===== verification/Served.thy ===== *)
theory Served
  imports Serve
begin

section \<open>What the gateway serves: the properties of \<^verbatim>\<open>server.go\<close>\<close>

text \<open>
  The end-to-end properties of the request handlers, over every state the server can reach
  by requests, reloads and new backends, and where the handlers depart from their comments.
\<close>

subsection \<open>Paths of a manifest\<close>

lemma path_map_step:
  "fold (\<lambda>t m. if length t \<ge> 3 \<and> t ! 0 = ''path'' then m(t ! 1 \<mapsto> t ! 2) else m) tags m p = Some h \<Longrightarrow>
     m p = Some h \<or> (\<exists>t \<in> set tags. length t \<ge> 3 \<and> t ! 0 = ''path'' \<and> t ! 1 = p \<and> t ! 2 = h)"
proof (induction tags arbitrary: m)
  case (Cons t tags)
  then show ?case
    by (cases "length t \<ge> 3 \<and> t ! 0 = ''path''") (force split: if_splits)+
qed simp

lemma path_map_tag:
  "path_map tags p = Some h \<Longrightarrow> \<exists>t \<in> set tags. length t \<ge> 3 \<and> t ! 0 = ''path'' \<and> t ! 1 = p \<and> t ! 2 = h"
  using path_map_step by (fastforce simp: path_map_def)

lemma valid_path_tags:
  assumes "sha256_ok X" and "v_valid (Validate X ev opts)" and "path_map (ev_tags ev) p = Some h"
  shows "[''path'', p, h] \<in> set (ev_tags ev)" and "path_ok p" and "hex64 h"
proof -
  obtain t where t: "t \<in> set (ev_tags ev)" "length t \<ge> 3" "t ! 0 = ''path''" "t ! 1 = p" "t ! 2 = h"
    using path_map_tag [OF assms(3)] by blast
  have "manifest_ok X opts ev" using assms(1,2) Validate_valid by blast
  moreover have "tagName t = ''path''" using t(2,3) by (cases t) (auto simp: tagName_def)
  then have "t \<in> set (pathTags_of ev)" using t(1) by (simp add: pathTags_of_def)
  ultimately obtain n where "t = [n, p, h]" "path_ok p" "hex64 h"
    using t by (auto simp: manifest_ok_def Let_def path_tag_ok_def)
  then show "[''path'', p, h] \<in> set (ev_tags ev)" "path_ok p" "hex64 h"
    using t by auto
qed

lemma lookup_path_cases:
  "lookup_path paths path = Some (sha, p, st) \<longleftrightarrow>
     (paths path = Some sha \<and> p = path \<and> st = 200) \<or>
     (paths path = None \<and> paths ''/404.html'' = Some sha \<and> p = ''/404.html'' \<and> st = 404)"
  by (auto simp: lookup_path_def split: option.splits)

lemma lookup_path_tag:
  assumes "sha256_ok X" and "v_valid (Validate X ev opts)"
    and "lookup_path (path_map (ev_tags ev)) path = Some (sha, p, st)"
  shows "[''path'', p, sha] \<in> set (ev_tags ev) \<and> (p = path \<and> st = 200 \<or> p = ''/404.html'' \<and> st = 404)"
  using assms(3) valid_path_tags(1) [OF assms(1,2)] unfolding lookup_path_cases by blast

lemma page_simps [simp]:
  "map_of (rp_headers (page X r sha p data st)) ''ETag'' = Some (etag_of sha)"
  "map_of (rp_headers (page X r sha p data st)) ''Content-Type'' = Some (contentTypeFor X p)"
  "rp_status (page X r sha p data st) = (if rq_ifNoneMatch r = etag_of sha then 304 else st)"
  "rp_body (page X r sha p data st) = (if rq_ifNoneMatch r = etag_of sha then [] else data)"
  by (simp_all add: page_def)

lemma read_of_full: "read_of X None sha data \<longleftrightarrow> hash_hex X data = sha"
  by (auto simp: read_of_def)

text \<open>The author of a site manifest, for the two kinds of site that are served.\<close>

lemma site_manifest_author:
  assumes "sha256_ok X" and "site_manifest X s st pk d ev"
  shows "ev_pubkey ev = pk" and "site_type_of (ev_kind ev) = st" and "st \<noteq> SiteSnapshot"
    and "\<exists>opts. v_valid (Validate X ev opts)"
proof -
  obtain rs k f where m: "v_valid (Validate X ev (rs_options rs))"
      "keyAndFilter st pk d [] = Inr (k, f)" "matches f ev"
    using assms(2) by (auto simp: site_manifest_def)
  show st: "st \<noteq> SiteSnapshot" using m(2) by (auto simp: keyAndFilter_def)
  show "ev_pubkey ev = pk" "site_type_of (ev_kind ev) = st"
    using manifest_site [OF assms(1) m] st by auto
  show "\<exists>opts. v_valid (Validate X ev opts)" using m(1) by blast
qed

subsection \<open>A sample site\<close>

definition blob_digest :: string where
  "blob_digest = hash_hex sample_ext ''abcdef''"

definition site_event :: event where
  "site_event = sample_manifest\<lparr>ev_tags :=
     [[''path'', ''/index.html'', blob_digest], [''server'', ''https://b.example/'']]\<rparr>"

definition site_config :: config where
  "site_config = cfg_Defaults
     \<lparr>cf_Sites := [\<lparr>st_Pubkey = zeros64, st_Kind = 15128, st_D = []\<rparr>],
      cf_CustomDomains := [\<lparr>cd_FQDN = ''a.example'', cd_Pubkey = zeros64, cd_D = []\<rparr>]\<rparr>"

definition site_backends :: backends where
  "site_backends =
     \<lparr>be_resolver = Some sample_resolver, be_fetcher = Some sample_fetcher,
      be_blobs = Some (empty_store 10), be_npk = None\<rparr>"

definition site_server :: server where
  "site_server = srv_Configure site_backends (the (srv_New sample_ext site_config Map.empty))"

definition site_env :: "unit env" where
  "site_env =
     \<lparr>en_pools = (\<lambda>_. relay_of [site_event]), en_clocks = (\<lambda>_ _. 0), en_nets = (\<lambda>_ _. sample_network),
      en_os = reliable_os, en_archive = sample_archive, en_put = all_io, en_rm = (\<lambda>_. True),
      en_rng = id, en_now = 1, en_open = True, en_read = None, en_exposition = (\<lambda>_. http_NotFound), en_quote = id\<rparr>"

definition site_request :: request where
  "site_request = \<lparr>rq_path = ''/'', rq_rawquery = [], rq_host = ''a.example:443'', rq_ifNoneMatch = []\<rparr>"

lemma site_digest: "hex64 blob_digest" "hash_hex sample_ext ''abcdef'' = blob_digest"
  using hash_hex64 [OF sample_ext_ok(1)] by (simp_all add: blob_digest_def)

lemma site_event_ok: "v_valid (Validate sample_ext site_event sample_options)"
proof -
  have "manifest_ok sample_ext sample_options site_event"
    using sample_path_ok zeros64_hex64 site_digest
    by (simp add: manifest_ok_def site_event_def sample_manifest_def sample_options_def sample_ext_def
        kind_defs tagValues_def tagName_def pathTags_of_def filterTags_def path_tag_ok_def
        max_paths_of_def Let_def)
  then show ?thesis using Validate_valid [OF sample_ext_ok(1)] by blast
qed

lemma site_config_valid: "cfg_Validate sample_ext False site_config = None"
proof -
  have "custom_checks sample_ext (Domain cfg_Defaults) {} (cf_CustomDomains site_config) = None"
    by code_simp
  then show ?thesis
    using Defaults_valid unfolding cfg_Validate_def first_error_None list.pred_inject
    by (simp add: all_relays_def site_config_def zeros64_def split: if_splits)
qed

lemma site_server_fields:
  "s_cfg site_server = site_config" "s_be site_server = site_backends" "handles_ok site_server"
  "s_allow site_server = [(zeros64, ())]"
  "s_custom site_server = [(''a.example'', \<lparr>cs_siteType = SiteRoot, cs_pubkey = zeros64, cs_d = []\<rparr>)]"
proof -
  obtain s where s: "srv_New sample_ext site_config Map.empty = Some (srv_apply sample_ext site_config s)"
      "handles_ok s"
    using srv_New_Some by blast
  have n: "norm_fqdn sample_ext ''a.example'' = ''a.example''" by code_simp
  show "s_cfg site_server = site_config" "s_be site_server = site_backends" "handles_ok site_server"
    using s by (simp_all add: site_server_def)
  show "s_allow site_server = [(zeros64, ())]"
    "s_custom site_server = [(''a.example'', \<lparr>cs_siteType = SiteRoot, cs_pubkey = zeros64, cs_d = []\<rparr>)]"
    using s by (simp_all add: site_server_def srv_apply_def site_config_def n)
qed

lemma site_reach: "srv_reach sample_ext sample_archive site_server"
proof -
  obtain s where s: "srv_New sample_ext site_config Map.empty = Some s" using srv_New_Some by blast
  have "be_inv sample_ext sample_archive [] site_backends (s_fs s)"
    using rs_New_inv empty_store_inv by (simp add: be_inv_def site_backends_def sample_resolver_def)
  from srv_step.configure_step [OF this, of s]
  have "srv_step sample_ext sample_archive s (srv_Configure site_backends s)" by simp
  then show ?thesis
    using srv_reach.start [OF site_config_valid s] srv_reach.steps s by (simp add: site_server_def) blast
qed

lemma site_env_ok: "env_ok sample_archive site_env"
  by (simp add: env_ok_def site_env_def relay_of_ok)

lemma site_gate:
  "\<not> apex_request sample_ext site_server site_request"
  "gate sample_ext site_server site_request = Some (SiteRoot, zeros64, [], ''/index.html'')"
proof -
  have h: "request_host sample_ext ''a.example:443'' = ''a.example''"
    using request_host_plain(2) [of "''a.example''" "''443''"] by (simp add: host_char_def ascii_defs)
  have n: "normalisePath ''/'' = Some ''/index.html''" by code_simp
  have d: "Domain site_config = ''sites.example.org''" by (simp add: site_config_def cfg_Defaults_def)
  have suf: "\<not> suffix (''.'' @ ''sites.example.org'') ''a.example''" by code_simp
  show "\<not> apex_request sample_ext site_server site_request"
    by (simp add: apex_request_def isApex_def site_request_def h site_server_fields d)
  show "gate sample_ext site_server site_request = Some (SiteRoot, zeros64, [], ''/index.html'')"
    using h n d suf
    by (simp add: gate_def isApex_def parseHost_def site_request_def site_server_fields
        allowlisted_def prefix_def site_config_def)
qed

lemma site_manifest_answer:
  "fst (rs_Manifest sample_ext (relay_of [site_event]) (\<lambda>_. 0) SiteRoot zeros64 [] [] sample_resolver) =
     Inr (Some site_event)"
proof -
  let ?f = "empty_filter\<lparr>f_kinds := [KindRoot], f_authors := [zeros64]\<rparr>"
  have "matches ?f site_event"
    by (simp add: matches_def empty_filter_def site_event_def sample_manifest_def)
  then have n: "newestEvent (relay_of [site_event]) [''wss://r''] ?f True = Some site_event"
    by (simp add: newestEvent_def relay_of_def newest_hit_def newer_simps)
  have v: "v_valid (Validate sample_ext site_event \<lparr>ForbiddenPubkeys = {}, MaxPaths = 0\<rparr>)"
    using site_event_ok by (simp add: sample_options_def)
  show ?thesis
    by (simp add: rs_Manifest_def keyAndFilter_def sample_resolver_def rs_New_def NewManifestCache_def
        mc_Get_def mc_Negative_def n v)
qed

lemma site_paths:
  "path_map (ev_tags site_event) = [''/index.html'' \<mapsto> blob_digest]"
  "serverHints (ev_tags site_event) = [''https://b.example/'']"
  by (simp_all add: path_map_def site_event_def serverHints_def)

lemma site_fetch:
  "fetchFirst sample_ext (Some sample_fetcher) (\<lambda>_. sample_network) [''https://b.example/''] blob_digest = Inr ''abcdef''"
  using sample_fetch by (simp add: fetchFirst_def blob_digest_def blob_sha_def)

lemma site_served:
  "fst (handlePublic sample_ext site_env site_request site_server) =
     page sample_ext site_request blob_digest ''/index.html'' ''abcdef'' 200"
proof -
  define s1 where "s1 = inc (s_reqSite site_server) site_server"
  have be: "s_be s1 = site_backends"
    using handles_usable(2) [OF site_server_fields(3)] inc_usable [of "s_reqSite site_server" site_server]
    by (metis s1_def server.select_convs(4) server.surjective server.update_convs(6) site_server_fields(2))
  obtain rs1 where m: "rs_Manifest sample_ext (relay_of [site_event]) (\<lambda>_. 0) SiteRoot zeros64 [] [] sample_resolver =
      (Inr (Some site_event), rs1)"
    using site_manifest_answer by (metis prod.collapse)
  have l: "lookup_path (path_map (ev_tags site_event)) ''/index.html'' = Some (blob_digest, ''/index.html'', 200)"
    by (simp add: lookup_path_def site_paths)
  have "serveSite sample_ext site_env site_request SiteRoot zeros64 [] ''/index.html'' s1 =
      serveBlob sample_ext site_env site_request site_event blob_digest ''/index.html'' 200 (set_resolver rs1 s1)"
    using m l by (simp add: serveSite_def be site_backends_def site_env_def set_resolver_def)
  moreover have "fst (serveBlob sample_ext site_env site_request site_event blob_digest ''/index.html'' 200
      (set_resolver rs1 s1)) = page sample_ext site_request blob_digest ''/index.html'' ''abcdef'' 200"
    using site_fetch
    by (simp add: serveBlob_def be site_backends_def site_env_def set_resolver_def bs_Has_def size_of_def
        empty_store_def servers_for_def site_paths serveBytes_page Let_def)
  ultimately show ?thesis
    using site_gate by (simp add: handlePublic_gate s1_def)
qed

subsection \<open>Properties\<close>

text \<open>C1: What a visitor gets is what the site's author signed. In every reachable state, with
  relays that deliver anything matching the filters, any servers, any failures and any
  contents of the caches, when reads are complete: a response other than the apex page and
  the bounded 404 comes from a valid manifest of exactly the site the host names, by the key
  the host names; its ETag is the digest which that manifest gives for the path served; and
  its body, unless the client has it already, has that digest or, when the bundle store is
  on, is the member for that path of an archive whose digest a release of the same key
  carries.\<close>

theorem served_content_signed:
  assumes "sha256_ok X" and "srv_reach X A s" and "env_ok A E" and "en_read E = None"
    and "handlePublic X E r s = (resp, s')" and "resp \<noteq> http_NotFound" and "\<not> apex_request X s r"
  shows "\<exists>st pk d path ev p sha.
    gate X s r = Some (st, pk, d, path) \<and> site_manifest X s st pk d ev \<and> ev_pubkey ev = pk \<and>
    [''path'', p, sha] \<in> set (ev_tags ev) \<and>
    (p = path \<and> rp_status resp \<in> {200, 304} \<or> p = ''/404.html'' \<and> rp_status resp \<in> {404, 304}) \<and>
    map_of (rp_headers resp) ''ETag'' = Some (etag_of sha) \<and>
    (rp_status resp = 304 \<longrightarrow> rp_body resp = []) \<and>
    (rp_status resp \<noteq> 304 \<longrightarrow> hash_hex X (rp_body resp) = sha \<or>
       (be_npk (s_be s) \<noteq> None \<and> member_of_release X A pk p (rp_body resp)))"
proof -
  obtain ds where inv: "srv_inv X A ds s" using srv_reach_inv [OF assms(1,2)] by blast
  from assms(1) inv assms(3,5) show ?thesis
  proof (cases rule: handlePublic_cases)
    case (site st pk d path)
    have len: "length pk = 64" using gate_facts(1) [OF inv site(1)] .
    have i1: "srv_inv X A ds (inc (s_reqSite s) s)" and be: "s_be (inc (s_reqSite s) s) = s_be s"
      using fine_request [OF inv, of "s_reqSite s" "''site''"] by auto
    from assms(1) i1 assms(3) len site(5) show ?thesis
    proof (cases rule: serveSite_cases)
      case (served ev sha p st' data)
      have m: "site_manifest X s st pk d ev" using served(2) be by (simp add: site_manifest_def)
      note a = site_manifest_author [OF assms(1) m]
      have tag: "[''path'', p, sha] \<in> set (ev_tags ev)" "p = path \<and> st' = 200 \<or> p = ''/404.html'' \<and> st' = 404"
        using a(4) lookup_path_tag [OF assms(1) _ served(3)] by blast+
      have dig: "hash_hex X data = sha \<or> (be_npk (s_be s) \<noteq> None \<and> member_of_release X A pk p data)"
        using served(5) assms(4) be a(1) by (simp add: read_of_full)
      show ?thesis
      proof (intro exI conjI)
        show "gate X s r = Some (st, pk, d, path)" by (rule site(1))
        show "site_manifest X s st pk d ev" by (rule m)
        show "ev_pubkey ev = pk" by (rule a(1))
        show "[''path'', p, sha] \<in> set (ev_tags ev)" by (rule tag(1))
        show "p = path \<and> rp_status resp \<in> {200, 304} \<or> p = ''/404.html'' \<and> rp_status resp \<in> {404, 304}"
          using tag(2) served(4) by auto
        show "rp_status resp = 304 \<longrightarrow> rp_body resp = []" "rp_status resp \<noteq> 304 \<longrightarrow> hash_hex X (rp_body resp) = sha \<or>
            (be_npk (s_be s) \<noteq> None \<and> member_of_release X A pk p (rp_body resp))"
          using tag(2) served(4) dig by auto
      qed (simp add: served(4))
    qed (use assms(6) in auto)
  qed (use assms(6,7) in auto)
qed

theorem served_content_signed_witness:
  "\<exists>ev p. site_manifest sample_ext site_server SiteRoot zeros64 [] ev \<and>
     [''path'', p, hash_hex sample_ext ''abcdef''] \<in> set (ev_tags ev)"
proof -
  obtain s' where h: "handlePublic sample_ext site_env site_request site_server =
      (page sample_ext site_request blob_digest ''/index.html'' ''abcdef'' 200, s')"
    using site_served by (metis prod.collapse)
  have ne: "page sample_ext site_request blob_digest ''/index.html'' ''abcdef'' 200 \<noteq> http_NotFound"
    by (simp add: page_def http_NotFound_def http_Error_def)
  have st: "en_read site_env = None" by (simp add: site_env_def)
  have npk: "be_npk (s_be site_server) = None" by (simp add: site_server_fields site_backends_def)
  have "rp_status (page sample_ext site_request blob_digest ''/index.html'' ''abcdef'' 200) \<noteq> 304"
    by (simp add: site_request_def etag_of_def)
  then obtain ev p where "site_manifest sample_ext site_server SiteRoot zeros64 [] ev"
      "[''path'', p, hash_hex sample_ext ''abcdef''] \<in> set (ev_tags ev)"
    using served_content_signed [OF sample_ext_ok(1) site_reach site_env_ok st h ne site_gate(1)] site_gate(2) npk
    by (auto simp: site_request_def etag_of_def)
  then show ?thesis by blast
qed

text \<open>C2: Admission. In every reachable state each public request is exactly one of three kinds,
  and its counter says which: the apex page; a bounded 404 that touches neither a backend
  nor a file; or a request for a site, and then the path is safe and, outside open mode, the
  site is a root or named site whose key the configuration lists. Nothing under
  \<open>/internal/\<close> is ever more than a 404.\<close>

theorem public_admission:
  assumes "sha256_ok X" and "srv_reach X A s" and "env_ok A E"
    and "handlePublic X E r s = (resp, s')"
  shows "case gate X s r of
      None \<Rightarrow>
        s_be s' = s_be s \<and> s_fs s' = s_fs s \<and>
        (if apex_request X s r then resp = serveApex \<and> counted_as ''apex'' s s'
         else resp = http_NotFound \<and> counted_as ''reject'' s s')
    | Some (st, pk, d, path) \<Rightarrow>
        counted_as ''site'' s s' \<and> safe_path path \<and> \<not> HasPrefix (rq_path r) ''/internal/'' \<and>
        (Mode (s_cfg s) \<noteq> ''open'' \<longrightarrow>
           (st = SiteRoot \<or> st = SiteNamed) \<and> pk \<in> st_Pubkey ` set (cf_Sites (s_cfg s)))"
proof -
  obtain ds where inv: "srv_inv X A ds s" using srv_reach_inv [OF assms(1,2)] by blast
  from assms(1) inv assms(3,4) show ?thesis
  proof (cases rule: handlePublic_cases)
    case (site st pk d path)
    note g = gate_facts [OF inv site(1)]
    have "(st = SiteRoot \<or> st = SiteNamed) \<and> pk \<in> st_Pubkey ` set (cf_Sites (s_cfg s))"
      if "Mode (s_cfg s) \<noteq> ''open''"
      using g(2) that inv by (cases st) (auto simp: allowlisted_def srv_inv_def)
    then show ?thesis
      using site(1,2) g(3,4) normalisePath_safe by auto
  qed simp_all
qed

theorem public_admission_witness:
  "counted_as ''site'' site_server (snd (handlePublic sample_ext site_env site_request site_server)) \<and>
   zeros64 \<in> st_Pubkey ` set (cf_Sites (s_cfg site_server))"
proof -
  have "Mode (s_cfg site_server) \<noteq> ''open''"
    by (simp add: site_server_fields site_config_def cfg_Defaults_def)
  moreover obtain resp s' where h: "handlePublic sample_ext site_env site_request site_server = (resp, s')"
    by force
  ultimately show ?thesis
    using public_admission [OF sample_ext_ok(1) site_reach site_env_ok h] site_gate(2) by simp
qed

text \<open>C27: The certificate gate agrees with the public gate. The on-demand TLS question for a host
  is answered 200 exactly when a request to that host for any path that normalises would be
  admitted, snapshots in open mode excepted; every other question is answered 403. So in
  hosted mode no certificate is issued for a host that serves nothing, and none is refused
  for a host that does.\<close>

theorem tls_ask_agrees:
  assumes "QueryGet (rq_rawquery ask) ''domain'' = rq_host r" and "rq_host r \<noteq> []"
    and "\<not> HasPrefix (rq_path r) ''/internal/''" and "normalisePath (rq_path r) \<noteq> None"
  shows "rp_status (handleTLSAsk X ask s) =
    (if apex_request X s r \<or>
        (case gate X s r of None \<Rightarrow> False | Some (st, _) \<Rightarrow> st = SiteRoot \<or> st = SiteNamed)
     then 200 else 403)"
proof (cases "isApex X s (rq_host r)")
  case True
  then show ?thesis using assms by (simp add: handleTLSAsk_def apex_request_def Let_def)
next
  case False
  obtain path where p: "normalisePath (rq_path r) = Some path" using assms(4) by auto
  show ?thesis
  proof (cases "parseHost X s (rq_host r)")
    case None
    then show ?thesis
      using False assms by (simp add: handleTLSAsk_def apex_request_def gate_def http_Error_def Let_def)
  next
    case (Some h)
    obtain label st pk d where "h = (label, st, pk, d)" by (cases h) auto
    then show ?thesis
      using Some False assms(1-3) p
      by (simp add: handleTLSAsk_def apex_request_def gate_def http_Error_def Let_def)
  qed
qed

theorem tls_ask_agrees_witness:
  "rp_status (handleTLSAsk sample_ext (site_request\<lparr>rq_rawquery := ''domain=a.example:443''\<rparr>) site_server) = 200"
proof -
  have "QueryGet ''domain=a.example:443'' ''domain'' = ''a.example:443''" by code_simp
  moreover have "normalisePath ''/'' \<noteq> None" by code_simp
  ultimately show ?thesis
    using tls_ask_agrees [of "site_request\<lparr>rq_rawquery := ''domain=a.example:443''\<rparr>" site_request sample_ext site_server]
      site_gate
    by (simp add: site_request_def prefix_def)
qed

text \<open>C28: The server stays well-formed: in every reachable state the metrics instruments are the
  ones \<open>New\<close> made, which are of the registered kinds, so no call of the metrics library has
  panicked (other panics are not recorded in the state), the allowlist is exactly the set of
  keys of the current configuration, and attached domains map to 64-character keys.\<close>

theorem reachable_well_formed:
  assumes "sha256_ok X" and "srv_reach X A s"
  shows "handles_ok s \<and> \<not> s_panicked s \<and>
    fst ` set (s_allow s) = st_Pubkey ` set (cf_Sites (s_cfg s)) \<and>
    (case map_of (s_custom s) host of None \<Rightarrow> True | Some cs \<Rightarrow> length (cs_pubkey cs) = 64)"
  using srv_reach_inv [OF assms] by (auto simp: srv_inv_def handles_ok_def split: option.splits)

theorem reachable_well_formed_witness: "handles_ok site_server \<and> \<not> s_panicked site_server"
  using reachable_well_formed [OF sample_ext_ok(1) site_reach] by blast






subsection \<open>Where the code departs from its comments\<close>

text \<open>What a bundle holds is served whatever the manifest's digest is: the ETag claims a digest
  that nothing compares with the bytes.\<close>

lemma bundle_bytes_unchecked:
  assumes "fst (rs_Release X (en_pools E 1) (en_clocks E 1) (ev_pubkey ev)
      (if st = SiteNamed then namedSiteD ev else NameRoot) rs) = Inr (Some rel)"
    and "bd_Has npk (SHA256 rel) (s_fs s)" and "bd_Open (en_os E) npk (SHA256 rel) path (s_fs s) = Inr data"
  shows "fst (serveFromNpk X E r rs npk st ev sha path code s) = Some (page X r sha path data code)"
proof -
  obtain rs1 where "rs_Release X (en_pools E 1) (en_clocks E 1) (ev_pubkey ev)
      (if st = SiteNamed then namedSiteD ev else NameRoot) rs = (Inr (Some rel), rs1)"
    using assms(1) by (metis prod.collapse)
  then show ?thesis
    using assms(2,3) by (simp add: serveFromNpk_def set_resolver_def serveBytes_page)
qed

text \<open>A read of a cached file that ends early is served as if it were complete.\<close>

lemma short_read_served:
  assumes "bs_disk b sha = Some f" and "en_open E" and "en_read E = Some n"
  shows "fst (serveCached X E r b sha path code s) = page X r sha path (take n f) code"
  using assms by (simp add: serveCached_def bs_Open_def serveBytes_page)

text \<open>A blob the cache lists but whose file does not open is not found: nothing falls back to the
  servers, and the entry stays, so every later request for it fails in the same way.\<close>

lemma cached_open_failure:
  assumes "be_blobs (s_be s) = Some b" and "bs_Has b sha" and "\<not> en_open E"
  shows "fst (serveBlob X E r ev sha path code s) = http_NotFound"
    and "be_blobs (s_be (snd (serveBlob X E r ev sha path code s))) = Some b"
  using assms by (simp_all add: serveBlob_def serveCached_def bs_Open_def set_blobs_def)

text \<open>Snapshots are admitted in open mode, but their manifest is asked for without its id, which
  is always an error: no snapshot is ever served.\<close>

lemma snapshot_never_served: "fst (serveSite X E r SiteSnapshot pk d path s) = http_NotFound"
  by (auto simp: serveSite_def rs_Manifest_def keyAndFilter_def split: option.splits)

text \<open>The allowlist entries' kind and identifier play no role: listing a key for one named site
  admits its root site and all its named sites.\<close>

lemma allowlist_by_key_only:
  assumes "site \<in> set (cf_Sites cfg)" and "st = SiteRoot \<or> st = SiteNamed"
  shows "allowlisted (srv_apply X cfg s) st (st_Pubkey site)"
  using assms by (auto simp: allowlisted_def allow_apply)

end
