(* ===== verification/Base64.thy ===== *)
theory Base64
  imports Codec
begin

section \<open>\<^verbatim>\<open>encoding/base64\<close>: unpadded base64url\<close>

text \<open>
  \<open>RawURLEncoding\<close>, which the upload authorization header of the local Blossom server uses.
  \<open>Raw_DecodeString\<close> is the decoder (\<open>None\<close> is its error): line breaks are skipped, any other
  character outside the alphabet (the padding character included) is an error, and so is a
  single character left at the end; unused bits at the end are ignored. \<open>Raw_EncodeToString\<close>
  is the encoder the clients use, for the round trip.
\<close>

definition b64_val :: "char \<Rightarrow> nat option" where
  "b64_val c =
     (if is_upper c then Some (byte c - 65)
      else if is_lower c then Some (byte c - 71)
      else if is_digit c then Some (byte c + 4)
      else if c = CHR ''-'' then Some 62
      else if c = CHR ''_'' then Some 63
      else None)"

definition b64_char :: "nat \<Rightarrow> char" where
  "b64_char v =
     (if v < 26 then chr8 (65 + v)
      else if v < 52 then chr8 (71 + v)
      else if v < 62 then chr8 (v - 4)
      else if v = 62 then CHR ''-'' else CHR ''_'')"

fun b64_bytes :: "nat list \<Rightarrow> bytes option" where
  "b64_bytes [] = Some []"
| "b64_bytes [a] = None"
| "b64_bytes [a, b] = Some [chr8 (a * 4 + b div 16)]"
| "b64_bytes [a, b, c] = Some [chr8 (a * 4 + b div 16), chr8 ((b mod 16) * 16 + c div 4)]"
| "b64_bytes (a # b # c # d # vs) =
     map_option (\<lambda>bs. chr8 (a * 4 + b div 16) # chr8 ((b mod 16) * 16 + c div 4) #
         chr8 ((c mod 4) * 64 + d) # bs)
       (b64_bytes vs)"

fun b64_vals :: "bytes \<Rightarrow> nat list" where
  "b64_vals [] = []"
| "b64_vals [x] = [byte x div 4, (byte x mod 4) * 16]"
| "b64_vals [x, y] = [byte x div 4, (byte x mod 4) * 16 + byte y div 16, (byte y mod 16) * 4]"
| "b64_vals (x # y # z # bs) =
     [byte x div 4, (byte x mod 4) * 16 + byte y div 16, (byte y mod 16) * 4 + byte z div 64,
      byte z mod 64] @ b64_vals bs"

fun all_vals :: "string \<Rightarrow> nat list option" where
  "all_vals [] = Some []"
| "all_vals (c # cs) =
     (case (b64_val c, all_vals cs) of (Some v, Some vs) \<Rightarrow> Some (v # vs) | _ \<Rightarrow> None)"

definition Raw_DecodeString :: "string \<Rightarrow> bytes option" where
  "Raw_DecodeString s =
     Option.bind (all_vals (filter (\<lambda>c. c \<noteq> CHR 0x0A \<and> c \<noteq> CHR 0x0D) s)) b64_bytes"

definition Raw_EncodeToString :: "bytes \<Rightarrow> string" where
  "Raw_EncodeToString bs = map b64_char (b64_vals bs)"

subsection \<open>Round trip\<close>

lemma b64_val_char: "v < 64 \<Longrightarrow> b64_val (b64_char v) = Some v"
  by (auto simp: b64_val_def b64_char_def ascii_defs)

lemma b64_char_plain: "v < 64 \<Longrightarrow> b64_char v \<noteq> CHR 0x0A \<and> b64_char v \<noteq> CHR 0x0D \<and> b64_char v \<noteq> CHR ''=''"
  using b64_val_char [of v] by (auto simp: b64_val_def ascii_defs)

lemma byte_less: "byte c < 256"
  by (rule nat_of_char_less_256)

lemma byte_quotients: "byte c div 4 < 64" "byte c div 16 < 16" "byte c div 64 < 4"
  using byte_less [of c] by (simp_all add: div_less_iff_less_mult)

lemma b64_vals_less: "v \<in> set (b64_vals bs) \<Longrightarrow> v < 64"
proof -
  have sums: "a mod 4 * 16 + byte c div 16 < 64" "a mod 16 * 4 + byte c div 64 < 64"
    "a mod 4 * 16 < 64" "a mod 16 * 4 < 64" "a mod 64 < 64" for a c
    using byte_quotients [of c] mod_less_divisor [of 4 a] mod_less_divisor [of 16 a] by linarith+
  show "v \<in> set (b64_vals bs) \<Longrightarrow> v < 64"
    by (induction bs rule: b64_vals.induct) (auto simp: byte_quotients sums)
qed

text \<open>Three bytes from four sextets.\<close>

lemma sextets:
  "a div 4 * 4 + (a mod 4 * 16 + byte y div 16) div 16 = a"
  "(a mod 4 * 16 + byte y div 16) mod 16 * 16 + (byte y mod 16 * 4 + byte z div 64) div 4 = byte y"
  "(byte y mod 16 * 4 + byte z div 64) mod 4 * 64 + byte z mod 64 = byte z"
  "a div 4 * 4 + (a mod 4 * 16) div 16 = a"
  "(a mod 4 * 16 + byte y div 16) mod 16 * 16 + (byte y mod 16 * 4) div 4 = byte y"
  using byte_quotients [of y] byte_quotients [of z] by simp_all

lemma b64_bytes_vals: "b64_bytes (b64_vals bs) = Some bs"
  by (induction bs rule: b64_vals.induct) (simp_all only: b64_vals.simps b64_bytes.simps sextets
      append.simps option.map char_of_char)

lemma all_vals_map: "(\<And>v. v \<in> set vs \<Longrightarrow> v < 64) \<Longrightarrow> all_vals (map b64_char vs) = Some vs"
  by (induction vs) (simp_all add: b64_val_char)

lemma Raw_plain: "c \<in> set (Raw_EncodeToString bs) \<Longrightarrow> c \<noteq> CHR 0x0A \<and> c \<noteq> CHR 0x0D \<and> c \<noteq> CHR ''=''"
  using b64_char_plain b64_vals_less by (auto simp: Raw_EncodeToString_def)

lemma Raw_roundtrip: "Raw_DecodeString (Raw_EncodeToString bs) = Some bs"
proof -
  have "filter (\<lambda>c. c \<noteq> CHR 0x0A \<and> c \<noteq> CHR 0x0D) (Raw_EncodeToString bs) = Raw_EncodeToString bs"
    using Raw_plain by (intro filter_True) blast
  then show ?thesis
    using all_vals_map [of "b64_vals bs"] b64_vals_less b64_bytes_vals
    by (simp add: Raw_DecodeString_def Raw_EncodeToString_def)
qed

interpretation b64c: codec "\<lambda>_. True" Raw_EncodeToString Raw_DecodeString
  by unfold_locales (rule Raw_roundtrip)

end
