(* ===== verification/BlossomSrv.thy ===== *)
theory BlossomSrv
  imports Http Base64 GoPath GoUrl Contracts "HOL-Library.List_Lexorder"
begin

section \<open>The local Blossom server (\<^verbatim>\<open>internal/blossomsrv/server.go\<close>)\<close>

text \<open>
  A content-addressed store behind HTTP: \<open>bl_Put\<close> stores an authorized upload under its
  digest, \<open>bl_Get\<close> reads it, \<open>bl_Sweep\<close> drops what is older than the retention window, and a
  byte counter enforces a quota; \<open>bl_Handler\<close> is the HTTP front.
  The state holds the files of the directory with their modification times, and the names
  of its subdirectories. What the operating system decides is an argument: the listing
  \<open>ReadDir\<close> gives, whether \<open>Stat\<close>, \<open>Info\<close> and \<open>Remove\<close> work, and how a write ends. A request
  body is its bytes and the error that follows them, if any. Each call is one step; theory
  \<open>Uploads\<close> cuts \<open>Put\<close> at its mutex and at each piece it writes.
\<close>

record blob_file =
  bf_body :: bytes
  bf_mtime :: int

record blossom_srv =
  bl_dir :: string
  bl_quota :: int
  bl_maxBlob :: int
  bl_retain :: int
  bl_allow :: "string set"
  bl_used :: int
  bl_files :: "(string, blob_file) gomap"
  bl_dirs :: "string set"

record bl_options =
  bo_Dir :: string
  bo_QuotaBytes :: int
  bo_MaxBlobBytes :: int
  bo_Retention :: int
  bo_AllowPubkeys :: "string list"

datatype bl_error =
  NoDir | OsFail string | InvalidSha | NotExist
| NoAuth | AuthKind int | AuthBadId | AuthBadSig | AuthNotAdmitted | AuthNotCovering string
| BodyFail string | TooBig int | UploadMismatch string | QuotaExceeded int
| AuthPrefix | AuthBase64 string | AuthJson string

datatype write_result = Written | NotOpened string | Partly nat string

type_synonym body_stream = "bytes \<times> string option"

text \<open>The constant \<^verbatim>\<open>nostr.KindBlobs\<close>.\<close>

definition KindBlobs :: int where
  "KindBlobs = 24242"

definition validSHA :: "string \<Rightarrow> bool" where
  "validSHA sha = (if length sha \<noteq> 64 then False else (case DecodeString sha of None \<Rightarrow> False | Some _ \<Rightarrow> True))"

subsection \<open>Construction and accounting\<close>

text \<open>The entries of a listing that the server counts, with their files.\<close>

definition blob_entry :: "(string \<Rightarrow> bool) \<Rightarrow> blossom_srv \<Rightarrow> string \<Rightarrow> blob_file option" where
  "blob_entry info s name =
     (if name \<in> bl_dirs s \<or> \<not> validSHA name then None
      else if info name then map_of (bl_files s) name else None)"

definition bl_path :: "blossom_srv \<Rightarrow> string \<Rightarrow> string" where
  "bl_path s sha = PathJoin (bl_dir s) sha"

lemma bl_path_inj:
  assumes "bl_dir s = abs_path ds" and "normal ds" and "ds \<noteq> []" and "normal_seg a" and "normal_seg b"
  shows "bl_path s a = bl_path s b \<longleftrightarrow> a = b"
proof
  assume "bl_path s a = bl_path s b"
  then have "abs_path (ds @ [a]) = abs_path (ds @ [b])" using assms by (simp add: bl_path_def PathJoin_name)
  then have "ds @ [a] = ds @ [b]" using assms by (intro abs_path_inj) simp_all
  then show "a = b" by simp
qed simp

definition bl_scan :: "string list option \<Rightarrow> (string \<Rightarrow> bool) \<Rightarrow> blossom_srv \<Rightarrow> bl_error + blossom_srv" where
  "bl_scan entries info s =
     (case entries of
        None \<Rightarrow> Inl (OsFail ''readdir'')
      | Some names \<Rightarrow>
          Inr (fold (\<lambda>name s.
              case blob_entry info s name of
                None \<Rightarrow> s | Some f \<Rightarrow> s\<lparr>bl_used := bl_used s + int (length (bf_body f))\<rparr>)
            names s))"

definition bl_New ::
  "bool \<Rightarrow> string list option \<Rightarrow> (string \<Rightarrow> bool) \<Rightarrow> (string, blob_file) gomap \<Rightarrow> string set \<Rightarrow> bl_options \<Rightarrow>
     bl_error + blossom_srv" where
  "bl_New mkdir_ok entries info files dirs opts =
     (if bo_Dir opts = [] then Inl NoDir
      else if \<not> mkdir_ok then Inl (OsFail ''mkdir'')
      else
        bl_scan entries info
          \<lparr>bl_dir = bo_Dir opts, bl_quota = bo_QuotaBytes opts, bl_maxBlob = bo_MaxBlobBytes opts,
           bl_retain = bo_Retention opts, bl_allow = set (bo_AllowPubkeys opts), bl_used = 0,
           bl_files = files, bl_dirs = dirs\<rparr>)"

definition bl_Used :: "blossom_srv \<Rightarrow> int" where
  "bl_Used s = bl_used s"

definition bl_BlobCount :: "string list \<Rightarrow> blossom_srv \<Rightarrow> nat" where
  "bl_BlobCount entries s = length (filter (\<lambda>e. e \<notin> bl_dirs s \<and> validSHA e) entries)"

definition bl_SortedSHAs :: "string list option \<Rightarrow> blossom_srv \<Rightarrow> string list" where
  "bl_SortedSHAs entries s =
     (case entries of
        None \<Rightarrow> [] | Some names \<Rightarrow> sort (filter (\<lambda>e. e \<notin> bl_dirs s \<and> validSHA e) names))"

subsection \<open>Reading\<close>

definition present :: "blossom_srv \<Rightarrow> string \<Rightarrow> bool" where
  "present s sha \<longleftrightarrow> sha \<in> bl_dirs s \<or> map_of (bl_files s) sha \<noteq> None"

definition bl_Has :: "bool \<Rightarrow> blossom_srv \<Rightarrow> string \<Rightarrow> bool" where
  "bl_Has stat_ok s sha = (if \<not> validSHA sha then False else stat_ok \<and> present s sha)"

definition bl_Get :: "string option \<Rightarrow> blossom_srv \<Rightarrow> string \<Rightarrow> bl_error + bytes" where
  "bl_Get read_err s sha =
     (if \<not> validSHA sha then Inl InvalidSha
      else
        (case map_of (bl_files s) sha of
           None \<Rightarrow> Inl (if sha \<in> bl_dirs s then OsFail ''is a directory'' else NotExist)
         | Some f \<Rightarrow> (case read_err of Some e \<Rightarrow> Inl (OsFail e) | None \<Rightarrow> Inr (bf_body f))))"

subsection \<open>Writing\<close>

text \<open>\<open>authorize\<close>: the error, or nothing when the event admits the upload.\<close>

definition authorize :: "ext \<Rightarrow> blossom_srv \<Rightarrow> event option \<Rightarrow> string \<Rightarrow> bl_error option" where
  "authorize X s evo sha =
     (case evo of
        None \<Rightarrow> Some NoAuth
      | Some ev \<Rightarrow>
          if ev_kind ev \<noteq> KindBlobs then Some (AuthKind (ev_kind ev))
          else if \<not> check_id X ev then Some AuthBadId
          else if \<not> check_sig X ev then Some AuthBadSig
          else if bl_allow s \<noteq> {} \<and> ev_pubkey ev \<notin> bl_allow s then Some AuthNotAdmitted
          else if \<not> list_ex (\<lambda>t. length t \<ge> 2 \<and> t ! 0 = ''x'' \<and> t ! 1 = sha) (ev_tags ev)
          then Some (AuthNotCovering sha)
          else None)"

definition read_upload :: "int \<Rightarrow> body_stream \<Rightarrow> bl_error + bytes" where
  "read_upload maxBlob stream =
     (case stream of
        (data, err) \<Rightarrow>
          if maxBlob > 0 \<and> int (length data) > maxBlob then Inl (TooBig maxBlob)
          else (case err of Some e \<Rightarrow> Inl (BodyFail e) | None \<Rightarrow> Inr data))"

definition store_file :: "string \<Rightarrow> bytes \<Rightarrow> int \<Rightarrow> blossom_srv \<Rightarrow> blossom_srv" where
  "store_file sha data now s =
     s\<lparr>bl_files := AList.update sha \<lparr>bf_body = data, bf_mtime = now\<rparr> (bl_files s)\<rparr>"

definition bl_Put ::
  "ext \<Rightarrow> bool \<Rightarrow> write_result \<Rightarrow> int \<Rightarrow> string \<Rightarrow> body_stream \<Rightarrow> event option \<Rightarrow> blossom_srv \<Rightarrow>
     (bl_error + int) \<times> blossom_srv" where
  "bl_Put X stat_ok wr now sha stream auth s =
     (if \<not> validSHA sha then (Inl InvalidSha, s)
      else
        (case authorize X s auth sha of
           Some e \<Rightarrow> (Inl e, s)
         | None \<Rightarrow>
             (case read_upload (bl_maxBlob s) stream of
                Inl e \<Rightarrow> (Inl e, s)
              | Inr data \<Rightarrow>
                  if hash_hex X data \<noteq> sha then (Inl (UploadMismatch sha), s)
                  else if stat_ok \<and> present s sha then (Inr (int (length data)), s)
                  else if bl_quota s > 0 \<and> bl_used s + int (length data) > bl_quota s
                  then (Inl (QuotaExceeded (bl_quota s)), s)
                  else
                    (case (if sha \<in> bl_dirs s then NotOpened ''is a directory'' else wr) of
                       NotOpened e \<Rightarrow> (Inl (OsFail e), s)
                     | Partly n e \<Rightarrow> (Inl (OsFail e), store_file sha (take n data) now s)
                     | Written \<Rightarrow>
                         (Inr (int (length data)),
                          (store_file sha data now s)\<lparr>bl_used := bl_used s + int (length data)\<rparr>)))))"

subsection \<open>Retention\<close>

definition sweep_entry ::
  "(string \<Rightarrow> bool) \<Rightarrow> (string \<Rightarrow> bool) \<Rightarrow> int \<Rightarrow> string \<Rightarrow> nat \<times> blossom_srv \<Rightarrow> nat \<times> blossom_srv" where
  "sweep_entry info rm cutoff name st =
     (case st of
        (removed, s) \<Rightarrow>
          (case blob_entry info s name of
             None \<Rightarrow> (removed, s)
           | Some f \<Rightarrow>
               if bf_mtime f < cutoff \<and> rm name
               then (removed + 1,
                     s\<lparr>bl_files := AList.delete name (bl_files s),
                       bl_used := bl_used s - int (length (bf_body f))\<rparr>)
               else (removed, s)))"

definition bl_Sweep ::
  "int \<Rightarrow> string list option \<Rightarrow> (string \<Rightarrow> bool) \<Rightarrow> (string \<Rightarrow> bool) \<Rightarrow> blossom_srv \<Rightarrow> nat \<times> blossom_srv" where
  "bl_Sweep now entries info rm s =
     (if bl_retain s \<le> 0 then (0, s)
      else
        (case entries of
           None \<Rightarrow> (0, s)
         | Some names \<Rightarrow> fold (sweep_entry info rm (now - bl_retain s)) names (0, s)))"


subsection \<open>What the store holds\<close>

text \<open>
  The abstract state: the bytes and the time of storing under each digest. Files whose name is
  no digest do not count. \<open>spec_used\<close> is what a quota should measure; \<open>slack\<close> is by how
  much the counter exceeds it.
\<close>

type_synonym blob_map = "string \<rightharpoonup> bytes \<times> int"

definition bl_abs :: "blossom_srv \<Rightarrow> blob_map" where
  "bl_abs s k =
     (if validSHA k then map_option (\<lambda>f. (bf_body f, bf_mtime f)) (map_of (bl_files s) k) else None)"

definition spec_used :: "blob_map \<Rightarrow> int" where
  "spec_used m = (\<Sum>k\<in>dom m. int (length (fst (the (m k)))))"

definition slack :: "blossom_srv \<Rightarrow> int" where
  "slack s = bl_used s - spec_used (bl_abs s)"

text \<open>No directory stands where a blob would.\<close>

definition bl_wf :: "blossom_srv \<Rightarrow> bool" where
  "bl_wf s \<longleftrightarrow> finite (bl_dirs s) \<and> (\<forall>d\<in>bl_dirs s. \<not> validSHA d)"

lemma finite_bl_abs [simp]: "finite (dom (bl_abs s))"
  by (rule finite_subset [of _ "dom (map_of (bl_files s))"])
    (auto simp: bl_abs_def finite_dom_map_of split: if_splits)

lemma bl_abs_valid: "bl_abs s k = Some v \<Longrightarrow> validSHA k"
  by (simp add: bl_abs_def split: if_splits)

lemma bl_abs_used [simp]: "bl_abs (bl_used_update f s) = bl_abs s"
  by (simp add: bl_abs_def fun_eq_iff)

lemma spec_used_insert:
  "finite (dom m) \<Longrightarrow> m k = None \<Longrightarrow> spec_used (m(k \<mapsto> v)) = spec_used m + int (length (fst v))"
proof -
  assume fin: "finite (dom m)" and absent: "m k = None"
  then have "k \<notin> dom m" by auto
  then have "(\<Sum>j\<in>dom m. int (length (fst (the ((m(k \<mapsto> v)) j))))) = spec_used m"
    unfolding spec_used_def by (intro sum.cong) auto
  with fin \<open>k \<notin> dom m\<close> show ?thesis by (simp add: spec_used_def)
qed

lemma spec_used_remove:
  assumes "finite (dom m)" and "m k = Some v"
  shows "spec_used (m(k := None)) = spec_used m - int (length (fst v))"
proof -
  have "m = (m(k := None))(k \<mapsto> v)" using assms(2) by (simp add: fun_upd_idem)
  then have "spec_used m = spec_used (m(k := None)) + int (length (fst v))"
    using spec_used_insert [of "m(k := None)" k v] assms(1) by simp
  then show ?thesis by simp
qed

lemma spec_used_update:
  "finite (dom m) \<Longrightarrow>
     spec_used (m(k \<mapsto> v)) =
       spec_used m - (case m k of None \<Rightarrow> 0 | Some w \<Rightarrow> int (length (fst w))) + int (length (fst v))"
  using spec_used_insert [of "m(k := None)" k v] spec_used_remove [of m k]
  by (cases "m k") (simp_all add: spec_used_insert)

lemma spec_used_nonneg: "0 \<le> spec_used m"
  by (simp add: spec_used_def sum_nonneg)

lemma abs_store_file:
  "validSHA sha \<Longrightarrow> bl_abs (store_file sha data now s) = (bl_abs s)(sha \<mapsto> (data, now))"
  by (auto simp: bl_abs_def store_file_def update_conv' fun_eq_iff)

lemma abs_delete:
  "bl_abs (s\<lparr>bl_files := AList.delete k (bl_files s)\<rparr>) = (bl_abs s)(k := None)"
  by (auto simp: bl_abs_def delete_conv' fun_eq_iff)

lemma blob_entry_Some:
  "blob_entry info s name = Some f \<Longrightarrow>
     validSHA name \<and> info name \<and> bl_abs s name = Some (bf_body f, bf_mtime f)"
  by (simp add: blob_entry_def bl_abs_def split: if_splits)

lemma blob_entry_abs:
  "bl_wf s \<Longrightarrow> info name \<Longrightarrow>
     map_option (\<lambda>f. (bf_body f, bf_mtime f)) (blob_entry info s name) = bl_abs s name"
  by (auto simp: blob_entry_def bl_abs_def bl_wf_def)

subsection \<open>What each operation does to it\<close>

text \<open>The branches of \<open>Put\<close>, for case analysis.\<close>

lemma bl_Put_cases:
  obtains (invalid) "\<not> validSHA sha" "bl_Put X stat_ok wr now sha stream auth s = (Inl InvalidSha, s)"
  | (unauthorized) e where "validSHA sha" "authorize X s auth sha = Some e"
      "bl_Put X stat_ok wr now sha stream auth s = (Inl e, s)"
  | (unread) e where "validSHA sha" "authorize X s auth sha = None"
      "read_upload (bl_maxBlob s) stream = Inl e"
      "bl_Put X stat_ok wr now sha stream auth s = (Inl e, s)"
  | (mismatch) data where "validSHA sha" "authorize X s auth sha = None"
      "read_upload (bl_maxBlob s) stream = Inr data" "hash_hex X data \<noteq> sha"
      "bl_Put X stat_ok wr now sha stream auth s = (Inl (UploadMismatch sha), s)"
  | (kept) data where "validSHA sha" "authorize X s auth sha = None"
      "read_upload (bl_maxBlob s) stream = Inr data" "hash_hex X data = sha" "stat_ok" "present s sha"
      "bl_Put X stat_ok wr now sha stream auth s = (Inr (int (length data)), s)"
  | (full) data where "validSHA sha" "authorize X s auth sha = None"
      "read_upload (bl_maxBlob s) stream = Inr data" "hash_hex X data = sha"
      "\<not> (stat_ok \<and> present s sha)" "0 < bl_quota s" "bl_quota s < bl_used s + int (length data)"
      "bl_Put X stat_ok wr now sha stream auth s = (Inl (QuotaExceeded (bl_quota s)), s)"
  | (unopened) data e where "validSHA sha" "authorize X s auth sha = None"
      "read_upload (bl_maxBlob s) stream = Inr data" "hash_hex X data = sha"
      "\<not> (stat_ok \<and> present s sha)" "bl_quota s \<le> 0 \<or> bl_used s + int (length data) \<le> bl_quota s"
      "sha \<in> bl_dirs s \<or> wr = NotOpened e"
      "bl_Put X stat_ok wr now sha stream auth s = (Inl (OsFail e), s)"
  | (cut) data n e where "validSHA sha" "authorize X s auth sha = None"
      "read_upload (bl_maxBlob s) stream = Inr data" "hash_hex X data = sha"
      "\<not> (stat_ok \<and> present s sha)" "bl_quota s \<le> 0 \<or> bl_used s + int (length data) \<le> bl_quota s"
      "sha \<notin> bl_dirs s" "wr = Partly n e"
      "bl_Put X stat_ok wr now sha stream auth s = (Inl (OsFail e), store_file sha (take n data) now s)"
  | (stored) data where "validSHA sha" "authorize X s auth sha = None"
      "read_upload (bl_maxBlob s) stream = Inr data" "hash_hex X data = sha"
      "\<not> (stat_ok \<and> present s sha)" "bl_quota s \<le> 0 \<or> bl_used s + int (length data) \<le> bl_quota s"
      "sha \<notin> bl_dirs s" "wr = Written"
      "bl_Put X stat_ok wr now sha stream auth s =
         (Inr (int (length data)), (store_file sha data now s)\<lparr>bl_used := bl_used s + int (length data)\<rparr>)"
proof (cases "validSHA sha")
  case valid: True
  show thesis
  proof (cases "authorize X s auth sha")
    case admitted: None
    show thesis
    proof (cases "read_upload (bl_maxBlob s) stream")
      case (Inl e)
      with valid admitted show thesis by (intro unread [of e]) (simp_all add: bl_Put_def)
    next
      case (Inr data)
      note facts = valid admitted Inr
      show thesis
      proof (cases "hash_hex X data = sha")
        case False
        with facts show thesis by (intro mismatch [of data]) (simp_all add: bl_Put_def)
      next
        case digest: True
        consider (k) "stat_ok \<and> present s sha"
          | (f) "\<not> (stat_ok \<and> present s sha)" "0 < bl_quota s" "bl_quota s < bl_used s + int (length data)"
          | (w) "\<not> (stat_ok \<and> present s sha)" "bl_quota s \<le> 0 \<or> bl_used s + int (length data) \<le> bl_quota s"
          by linarith
        then show thesis
        proof cases
          case k
          with facts digest show thesis by (intro kept [of data]) (simp_all add: bl_Put_def)
        next
          case f
          with facts digest show thesis by (intro full [of data]) (auto simp: bl_Put_def)
        next
          case w
          then have room: "\<not> (0 < bl_quota s \<and> bl_quota s < bl_used s + int (length data))" by auto
          show thesis
          proof (cases "sha \<in> bl_dirs s")
            case True
            with facts digest w room show thesis
              by (intro unopened [of data "''is a directory''"]) (auto simp: bl_Put_def)
          next
            case False
            note rest = facts digest w room False
            show thesis
            proof (cases wr)
              case Written
              with rest show thesis by (intro stored [of data]) (auto simp: bl_Put_def)
            next
              case (NotOpened e)
              with rest show thesis by (intro unopened [of data e]) (auto simp: bl_Put_def)
            next
              case (Partly n e)
              with rest show thesis by (intro cut [of data n e]) (auto simp: bl_Put_def)
            qed
          qed
        qed
      qed
    qed
  next
    case (Some e)
    with valid show thesis by (intro unauthorized [of e]) (simp_all add: bl_Put_def)
  qed
next
  case False
  then show thesis by (intro invalid) (simp_all add: bl_Put_def)
qed


text \<open>What stays fixed over every operation.\<close>

definition kept_setup :: "blossom_srv \<Rightarrow> blossom_srv \<Rightarrow> bool" where
  "kept_setup s s' \<longleftrightarrow>
     bl_dir s' = bl_dir s \<and> bl_quota s' = bl_quota s \<and> bl_maxBlob s' = bl_maxBlob s \<and>
     bl_retain s' = bl_retain s \<and> bl_allow s' = bl_allow s \<and> bl_dirs s' = bl_dirs s"

lemma kept_setup_refl [simp]: "kept_setup s s"
  by (simp add: kept_setup_def)

lemma kept_setup_trans: "kept_setup s s' \<Longrightarrow> kept_setup s' s'' \<Longrightarrow> kept_setup s s''"
  by (simp add: kept_setup_def)

lemma kept_setup_wf: "kept_setup s s' \<Longrightarrow> bl_wf s' \<longleftrightarrow> bl_wf s"
  by (simp add: kept_setup_def bl_wf_def)

lemma bl_Put_setup: "kept_setup s (snd (bl_Put X stat_ok wr now sha stream auth s))"
  by (rule bl_Put_cases [of sha X stat_ok wr now stream auth s]) (simp_all add: kept_setup_def store_file_def)

text \<open>One entry of a sweep: it keeps the slack of the counter and trades one blob for one count.\<close>

lemma sweep_entry_facts:
  assumes "sweep_entry info rm cutoff name (n, s) = (n', s')"
  shows "kept_setup s s'" and "slack s' = slack s"
    and "n' + card (dom (bl_abs s')) = n + card (dom (bl_abs s))"
    and "bl_abs s' k = bl_abs s k \<or> (bl_abs s' k = None \<and> (\<exists>v. bl_abs s k = Some v \<and> snd v < cutoff))"
    and "k \<noteq> name \<Longrightarrow> bl_abs s' k = bl_abs s k"
    and "bl_wf s \<Longrightarrow> info name \<Longrightarrow> rm name \<Longrightarrow>
           bl_abs s' name = (case bl_abs s name of None \<Rightarrow> None
                             | Some v \<Rightarrow> if snd v < cutoff then None else Some v)"
proof -
  consider (gone) f where "blob_entry info s name = Some f" "bf_mtime f < cutoff" "rm name" "n' = n + 1"
      "s' = s\<lparr>bl_files := AList.delete name (bl_files s), bl_used := bl_used s - int (length (bf_body f))\<rparr>"
    | (kept) "n' = n" "s' = s"
        "\<And>f. blob_entry info s name = Some f \<Longrightarrow> rm name \<Longrightarrow> \<not> bf_mtime f < cutoff"
    using assms by (auto simp: sweep_entry_def split: option.splits if_splits)
  note split_cases = this
  show "kept_setup s s'"
    by (cases rule: split_cases) (simp_all add: kept_setup_def)
  show "slack s' = slack s"
  proof (cases rule: split_cases)
    case gone
    note at = blob_entry_Some [OF gone(1)]
    then have "spec_used ((bl_abs s)(name := None)) = spec_used (bl_abs s) - int (length (bf_body f))"
      by (subst spec_used_remove) auto
    with gone show ?thesis by (simp add: slack_def abs_delete)
  qed simp
  show "n' + card (dom (bl_abs s')) = n + card (dom (bl_abs s))"
  proof (cases rule: split_cases)
    case gone
    then have "name \<in> dom (bl_abs s)" using blob_entry_Some by blast
    then have "Suc (card (dom (bl_abs s) - {name})) = card (dom (bl_abs s))"
      by (intro card_Suc_Diff1) simp_all
    with gone show ?thesis by (simp add: abs_delete)
  qed simp
  show "bl_abs s' k = bl_abs s k \<or> (bl_abs s' k = None \<and> (\<exists>v. bl_abs s k = Some v \<and> snd v < cutoff))"
    by (cases rule: split_cases) (auto simp: abs_delete dest: blob_entry_Some)
  show "bl_abs s' k = bl_abs s k" if "k \<noteq> name"
    by (cases rule: split_cases) (use that in \<open>auto simp: abs_delete\<close>)
  show "bl_abs s' name = (case bl_abs s name of None \<Rightarrow> None
                          | Some v \<Rightarrow> if snd v < cutoff then None else Some v)"
    if "bl_wf s" "info name" "rm name"
    using blob_entry_abs [of s info name] that(1,2)
    by (cases rule: split_cases; cases "blob_entry info s name")
      (use that(3) in \<open>auto simp: abs_delete split: option.splits\<close>)
qed

lemma sweep_entries_facts:
  assumes "fold (sweep_entry info rm cutoff) names (n, s) = (n', s')"
  shows "kept_setup s s' \<and> slack s' = slack s \<and>
    n' + card (dom (bl_abs s')) = n + card (dom (bl_abs s)) \<and>
    (\<forall>k. bl_abs s' k = bl_abs s k \<or> (bl_abs s' k = None \<and> (\<exists>v. bl_abs s k = Some v \<and> snd v < cutoff))) \<and>
    (bl_wf s \<longrightarrow> (\<forall>k. info k \<and> rm k) \<longrightarrow>
      (\<forall>k\<in>set names. \<forall>v. bl_abs s' k = Some v \<longrightarrow> cutoff \<le> snd v))"
  using assms
proof (induction names arbitrary: n s)
  case (Cons name names)
  obtain m u where one: "sweep_entry info rm cutoff name (n, s) = (m, u)" by force
  note first = sweep_entry_facts [OF one]
  from Cons.prems one have "fold (sweep_entry info rm cutoff) names (m, u) = (n', s')" by simp
  note rest = Cons.IH [OF this]
  have gone: "\<forall>k. bl_abs s' k = bl_abs s k \<or>
      (bl_abs s' k = None \<and> (\<exists>v. bl_abs s k = Some v \<and> snd v < cutoff))"
    using first(4) rest by metis
  have "cutoff \<le> snd v" if "bl_wf s" "\<forall>k. info k \<and> rm k" "k \<in> set (name # names)" "bl_abs s' k = Some v" for k v
  proof (cases "k \<in> set names")
    case True
    then show ?thesis using rest that kept_setup_wf [OF first(1)] by blast
  next
    case False
    with that(3) have "k = name" by simp
    moreover have "bl_abs u k = Some v" using rest that(4) by (metis option.distinct(1))
    ultimately show ?thesis using first(6) that(1,2) by (auto split: option.splits if_splits)
  qed
  with first(1-3) rest gone kept_setup_trans show ?case by auto
qed simp

lemma bl_Sweep_cases:
  obtains (off) "bl_Sweep now entries info rm s = (0, s)" "bl_retain s \<le> 0 \<or> entries = None"
  | (on) names where "entries = Some names" "0 < bl_retain s"
      "bl_Sweep now entries info rm s = fold (sweep_entry info rm (now - bl_retain s)) names (0, s)"
  by (cases "bl_retain s \<le> 0"; cases entries) (auto simp: bl_Sweep_def)

lemma bl_Sweep_facts:
  assumes "bl_Sweep now entries info rm s = (n, s')"
  shows "kept_setup s s'" and "slack s' = slack s"
    and "n + card (dom (bl_abs s')) = card (dom (bl_abs s))"
    and "bl_abs s' k = bl_abs s k \<or>
      (bl_abs s' k = None \<and> (\<exists>v. bl_abs s k = Some v \<and> snd v < now - bl_retain s))"
proof -
  have "kept_setup s s' \<and> slack s' = slack s \<and> n + card (dom (bl_abs s')) = card (dom (bl_abs s)) \<and>
    (\<forall>k. bl_abs s' k = bl_abs s k \<or>
       (bl_abs s' k = None \<and> (\<exists>v. bl_abs s k = Some v \<and> snd v < now - bl_retain s)))"
  proof (cases rule: bl_Sweep_cases [of now entries info rm s])
    case off
    with assms show ?thesis by simp
  next
    case (on names)
    with assms have "fold (sweep_entry info rm (now - bl_retain s)) names (0, s) = (n, s')" by simp
    from sweep_entries_facts [OF this] show ?thesis by simp
  qed
  then show "kept_setup s s'" "slack s' = slack s" "n + card (dom (bl_abs s')) = card (dom (bl_abs s))"
    "bl_abs s' k = bl_abs s k \<or>
      (bl_abs s' k = None \<and> (\<exists>v. bl_abs s k = Some v \<and> snd v < now - bl_retain s))"
    by auto
qed


subsection \<open>Opening a directory\<close>

lemma bl_scan_used:
  "fold (\<lambda>name s. case blob_entry info s name of
       None \<Rightarrow> s | Some f \<Rightarrow> s\<lparr>bl_used := bl_used s + int (length (bf_body f))\<rparr>) names s =
     s\<lparr>bl_used := bl_used s +
        (\<Sum>name\<leftarrow>names. case blob_entry info s name of None \<Rightarrow> 0 | Some f \<Rightarrow> int (length (bf_body f)))\<rparr>"
  (is "fold ?count names s = _")
proof (induction names arbitrary: s)
  case (Cons name names)
  have entries: "blob_entry info (s\<lparr>bl_used := u\<rparr>) k = blob_entry info s k" for u k
    by (simp add: blob_entry_def)
  show ?case
    using Cons.IH [of "?count name s"] by (cases "blob_entry info s name") (simp_all add: entries)
qed simp

text \<open>A complete listing of a directory in which nothing but files carries a digest's name.\<close>

definition full_listing :: "string list \<Rightarrow> (string, blob_file) gomap \<Rightarrow> string set \<Rightarrow> bool" where
  "full_listing names files dirs \<longleftrightarrow>
     distinct names \<and> set names = fst ` set files \<union> dirs \<and> (\<forall>d\<in>dirs. \<not> validSHA d)"

lemma bl_New_facts:
  assumes "bl_New ok (Some names) (\<lambda>_. True) files dirs opts = Inr s"
    and "full_listing names files dirs"
  shows "bl_wf s" and "slack s = 0" and "bl_files s = files"
    and "bl_quota s = bo_QuotaBytes opts" "bl_maxBlob s = bo_MaxBlobBytes opts"
    "bl_retain s = bo_Retention opts" "bl_allow s = set (bo_AllowPubkeys opts)"
proof -
  define s0 where "s0 =
    \<lparr>bl_dir = bo_Dir opts, bl_quota = bo_QuotaBytes opts, bl_maxBlob = bo_MaxBlobBytes opts,
     bl_retain = bo_Retention opts, bl_allow = set (bo_AllowPubkeys opts), bl_used = 0,
     bl_files = files, bl_dirs = dirs\<rparr>"
  define size where "size name = (case blob_entry (\<lambda>_. True) s0 name of
    None \<Rightarrow> 0 | Some f \<Rightarrow> int (length (bf_body f)))" for name
  have s: "s = s0\<lparr>bl_used := (\<Sum>name\<leftarrow>names. size name)\<rparr>"
    using assms(1) by (auto simp: bl_New_def bl_scan_def bl_scan_used s0_def size_def split: if_splits)
  have "finite dirs" using assms(2) unfolding full_listing_def by (metis List.finite_set finite_Un)
  then have wf: "bl_wf s0" using assms(2) by (simp add: bl_wf_def s0_def full_listing_def)
  have sized: "size name = (case bl_abs s0 name of None \<Rightarrow> 0 | Some v \<Rightarrow> int (length (fst v)))" for name
    using blob_entry_abs [OF wf, of "\<lambda>_. True" name]
    by (cases "blob_entry (\<lambda>_. True) s0 name") (auto simp: size_def split: option.splits)
  have "dom (bl_abs s0) \<subseteq> set names"
    using assms(2) by (auto simp: bl_abs_def full_listing_def s0_def split: if_splits)
      (metis fst_conv imageI map_of_SomeD)
  then have "(\<Sum>name\<in>set names. size name) = spec_used (bl_abs s0)"
    unfolding spec_used_def
    by (intro sum.mono_neutral_cong_right) (auto simp: sized split: option.splits)
  moreover have "(\<Sum>name\<leftarrow>names. size name) = (\<Sum>name\<in>set names. size name)"
    using assms(2) by (simp add: full_listing_def sum_list_distinct_conv_sum_set)
  ultimately show "slack s = 0" by (simp add: slack_def s)
  show "bl_wf s" using wf by (simp add: s bl_wf_def)
qed (use assms(1) in \<open>auto simp: bl_New_def bl_scan_def bl_scan_used split: if_splits\<close>)

subsection \<open>The store keeps its contract\<close>

text \<open>The calls that change the store, with every failure of the operating system but one: a
  write that stops in the middle (\<open>partial_write_poisons\<close> shows what that one does).\<close>

datatype bl_op =
    BlPut bool "string option" int string body_stream "event option"
  | BlSweep int "string list option" "string \<Rightarrow> bool" "string \<Rightarrow> bool"

definition whole_write :: "string option \<Rightarrow> write_result" where
  "whole_write failure = (case failure of None \<Rightarrow> Written | Some e \<Rightarrow> NotOpened e)"

fun bl_step :: "ext \<Rightarrow> bl_op \<Rightarrow> blossom_srv \<Rightarrow> blossom_srv" where
  "bl_step X (BlPut stat_ok failure now sha stream auth) s =
     snd (bl_Put X stat_ok (whole_write failure) now sha stream auth s)"
| "bl_step X (BlSweep now entries info rm) s = snd (bl_Sweep now entries info rm s)"

definition bl_verified :: "ext \<Rightarrow> blossom_srv \<Rightarrow> bool" where
  "bl_verified X s \<longleftrightarrow> (\<forall>k v. bl_abs s k = Some v \<longrightarrow> hash_hex X (fst v) = k)"

definition bl_within :: "blossom_srv \<Rightarrow> bool" where
  "bl_within s \<longleftrightarrow> bl_wf s \<and> 0 \<le> slack s \<and> 0 < bl_quota s"

definition bl_read :: "blossom_srv \<Rightarrow> string \<Rightarrow> bytes option" where
  "bl_read s k = (case bl_Get None s k of Inl _ \<Rightarrow> None | Inr b \<Rightarrow> Some b)"

lemma bl_Get_abs: "bl_Get err s k = Inr b \<longleftrightarrow> err = None \<and> (\<exists>t. bl_abs s k = Some (b, t))"
  by (auto simp: bl_Get_def bl_abs_def split: option.splits)

lemma bl_read_abs: "bl_read s k = map_option fst (bl_abs s k)"
  by (auto simp: bl_read_def bl_Get_def bl_abs_def split: option.splits)

lemma whole_write_simps [simp]: "whole_write failure \<noteq> Partly n e"
  "whole_write failure = Written \<longleftrightarrow> failure = None"
  by (simp_all add: whole_write_def split: option.splits)

lemma read_upload_Inr: "read_upload cap (data, err) = Inr b \<longleftrightarrow>
    b = data \<and> err = None \<and> (cap \<le> 0 \<or> int (length data) \<le> cap)"
  by (auto simp: read_upload_def split: option.splits)

text \<open>A \<open>Put\<close> of a whole body: nothing happens, or the body is stored under its digest.\<close>

lemma bl_Put_whole:
  obtains (unchanged) "snd (bl_Put X stat_ok (whole_write failure) now sha stream auth s) = s"
  | (stored) data where "validSHA sha" "hash_hex X data = sha"
      "bl_quota s \<le> 0 \<or> bl_used s + int (length data) \<le> bl_quota s"
      "snd (bl_Put X stat_ok (whole_write failure) now sha stream auth s) =
         (store_file sha data now s)\<lparr>bl_used := bl_used s + int (length data)\<rparr>"
proof (cases rule: bl_Put_cases [of sha X stat_ok "whole_write failure" now stream auth s])
  case (stored data)
  then show thesis using that(2) [of data] by simp
qed (use that(1) in auto)

lemma slack_stored:
  "validSHA sha \<Longrightarrow>
     slack ((store_file sha data now s)\<lparr>bl_used := bl_used s + int (length data)\<rparr>) =
       slack s + (case bl_abs s sha of None \<Rightarrow> 0 | Some w \<Rightarrow> int (length (fst w)))"
  by (simp add: slack_def abs_store_file spec_used_update)

lemma bl_step_setup: "kept_setup s (bl_step X op s)"
  by (cases op) (auto simp: bl_Put_setup intro: bl_Sweep_facts(1) prod.collapse [symmetric])

lemma bl_step_verified: "bl_verified X s \<Longrightarrow> bl_verified X (bl_step X op s)"
proof (cases op)
  case (BlPut stat_ok failure now sha stream auth)
  assume inv: "bl_verified X s"
  show ?thesis
    by (rule bl_Put_whole [of X stat_ok failure now sha stream auth s])
      (use inv BlPut in \<open>auto simp: bl_verified_def abs_store_file\<close>)
next
  case (BlSweep now entries info rm)
  assume inv: "bl_verified X s"
  obtain n s' where "bl_Sweep now entries info rm s = (n, s')" by force
  with bl_Sweep_facts(4) [OF this] inv BlSweep show ?thesis
    by (simp add: bl_verified_def) (metis option.distinct(1))
qed

lemma bl_step_slack: "0 \<le> slack s \<Longrightarrow> 0 \<le> slack (bl_step X op s)"
proof (cases op)
  case (BlPut stat_ok failure now sha stream auth)
  assume inv: "0 \<le> slack s"
  show ?thesis
    by (rule bl_Put_whole [of X stat_ok failure now sha stream auth s])
      (use inv BlPut in \<open>auto simp: slack_stored split: option.splits\<close>)
next
  case (BlSweep now entries info rm)
  assume inv: "0 \<le> slack s"
  obtain n s' where "bl_Sweep now entries info rm s = (n, s')" by force
  with bl_Sweep_facts(2) [OF this] inv BlSweep show ?thesis by simp
qed

lemma bl_step_bounded:
  assumes "bl_within s" and "spec_used (bl_abs s) \<le> bl_quota s"
  shows "spec_used (bl_abs (bl_step X op s)) \<le> bl_quota s"
proof (cases op)
  case (BlPut stat_ok failure now sha stream auth)
  show ?thesis
  proof (rule bl_Put_whole [of X stat_ok failure now sha stream auth s])
    fix data assume new: "validSHA sha" "bl_quota s \<le> 0 \<or> bl_used s + int (length data) \<le> bl_quota s"
      "snd (bl_Put X stat_ok (whole_write failure) now sha stream auth s) =
         (store_file sha data now s)\<lparr>bl_used := bl_used s + int (length data)\<rparr>"
    have "0 \<le> slack (bl_step X op s)"
      using bl_step_slack assms(1) by (simp add: bl_within_def)
    with new assms(1) BlPut show ?thesis by (simp add: slack_def bl_within_def)
  qed (use BlPut assms(2) in simp)
next
  case (BlSweep now entries info rm)
  obtain n s' where run: "bl_Sweep now entries info rm s = (n, s')" by force
  have sub: "bl_abs s' k = bl_abs s k" if "k \<in> dom (bl_abs s')" for k
    using bl_Sweep_facts(4) [OF run, of k] that by auto
  then have "dom (bl_abs s') \<subseteq> dom (bl_abs s)" by (metis domD domI subsetI)
  then have "spec_used (bl_abs s') \<le> spec_used (bl_abs s)"
    unfolding spec_used_def using sub by (simp add: sum_mono2)
  with run BlSweep assms(2) show ?thesis by simp
qed

interpretation local_blobs: verified_store "bl_verified X" bl_read "\<lambda>k b. hash_hex X b = k" "bl_step X" for X
  by unfold_locales (auto simp: bl_read_abs bl_step_verified, auto simp: bl_verified_def)

interpretation local_store: bounded_store
  "\<lambda>s. bl_verified X s \<and> bl_within s" bl_read "\<lambda>k b. hash_hex X b = k" "bl_step X"
  "\<lambda>s. spec_used (bl_abs s)" bl_quota "\<lambda>_. True" for X
proof unfold_locales
  fix op s
  show "bl_quota (bl_step X op s) = bl_quota s"
    using bl_step_setup by (simp add: kept_setup_def)
  then show "bl_verified X (bl_step X op s) \<and> bl_within (bl_step X op s)"
    if "bl_verified X s \<and> bl_within s"
    using that bl_step_verified bl_step_slack kept_setup_wf [OF bl_step_setup]
    by (simp add: bl_within_def)
  show "spec_used (bl_abs (bl_step X op s)) \<le> bl_quota s"
    if "bl_verified X s \<and> bl_within s" "spec_used (bl_abs s) \<le> bl_quota s"
    using that bl_step_bounded by blast
qed (use local_blobs.get_verified in blast)

end
