(* ===== verification/BlossomSpec.thy ===== *)
theory BlossomSpec
  imports BlossomSrv
begin

section \<open>What the local Blossom server promises\<close>

text \<open>
  An abstract specification of the store and the proof that \<open>BlossomSrv\<close> implements it when
  no system call fails. The specification's state is a finite map from digests to bytes with
  their time of storing; there is no byte counter (the quota measures what the map holds), no
  directory listing, no order of checks: an upload has one condition, a sweep one set of
  expired digests, the listing is the domain. \<open>spec_run\<close> and \<open>client_run\<close> give the replies
  to a sequence of calls on either side.
\<close>

datatype client_op =
    CPut int string body_stream "event option"
  | CGet string
  | CHas string
  | CSweep int
  | CUsed
  | CCount
  | CList

datatype client_reply =
    RPut "int option"
  | RGet "bytes option"
  | RHas bool
  | RSweep nat
  | RUsed int
  | RCount nat
  | RList "string list"

subsection \<open>The specification\<close>

definition spec_admits :: "ext \<Rightarrow> bl_options \<Rightarrow> event option \<Rightarrow> string \<Rightarrow> bool" where
  "spec_admits X opts auth sha \<longleftrightarrow>
     (\<exists>ev. auth = Some ev \<and> ev_kind ev = 24242 \<and> check_id X ev \<and> check_sig X ev \<and>
        (bo_AllowPubkeys opts = [] \<or> ev_pubkey ev \<in> set (bo_AllowPubkeys opts)) \<and>
        (\<exists>t\<in>set (ev_tags ev). \<exists>rest. t = ''x'' # sha # rest))"

text \<open>The upload is complete, within the cap, and has the digest it was announced under.\<close>

definition spec_upload :: "ext \<Rightarrow> bl_options \<Rightarrow> body_stream \<Rightarrow> string \<Rightarrow> bool" where
  "spec_upload X opts stream sha \<longleftrightarrow>
     validSHA sha \<and> snd stream = None \<and> hash_hex X (fst stream) = sha \<and>
     (0 < bo_MaxBlobBytes opts \<longrightarrow> int (length (fst stream)) \<le> bo_MaxBlobBytes opts)"

definition spec_fits :: "bl_options \<Rightarrow> bytes \<Rightarrow> blob_map \<Rightarrow> bool" where
  "spec_fits opts data m \<longleftrightarrow>
     (0 < bo_QuotaBytes opts \<longrightarrow> spec_used m + int (length data) \<le> bo_QuotaBytes opts)"

definition expired :: "bl_options \<Rightarrow> int \<Rightarrow> blob_map \<Rightarrow> string set" where
  "expired opts now m =
     (if 0 < bo_Retention opts
      then {k. \<exists>v. m k = Some v \<and> snd v < now - bo_Retention opts} else {})"

fun spec_do :: "ext \<Rightarrow> bl_options \<Rightarrow> client_op \<Rightarrow> blob_map \<Rightarrow> client_reply \<times> blob_map" where
  "spec_do X opts (CPut now sha stream auth) m =
     (let size = int (length (fst stream))
      in if \<not> spec_admits X opts auth sha \<or> \<not> spec_upload X opts stream sha then (RPut None, m)
         else if sha \<in> dom m then (RPut (Some size), m)
         else if \<not> spec_fits opts (fst stream) m then (RPut None, m)
         else (RPut (Some size), m(sha \<mapsto> (fst stream, now))))"
| "spec_do X opts (CGet sha) m = (RGet (map_option fst (m sha)), m)"
| "spec_do X opts (CHas sha) m = (RHas (sha \<in> dom m), m)"
| "spec_do X opts (CSweep now) m =
     (RSweep (card (expired opts now m)), m |` (- expired opts now m))"
| "spec_do X opts CUsed m = (RUsed (spec_used m), m)"
| "spec_do X opts CCount m = (RCount (card (dom m)), m)"
| "spec_do X opts CList m = (RList (sorted_list_of_set (dom m)), m)"

subsection \<open>The implementation without failures\<close>

definition result :: "bl_error + 'a \<Rightarrow> 'a option" where
  "result r = (case r of Inl _ \<Rightarrow> None | Inr x \<Rightarrow> Some x)"

text \<open>\<open>ReadDir\<close> lists the directory in the order of the names.\<close>

definition names_of :: "blossom_srv \<Rightarrow> string list" where
  "names_of s = sorted_list_of_set (fst ` set (bl_files s) \<union> bl_dirs s)"

fun client_do :: "ext \<Rightarrow> client_op \<Rightarrow> blossom_srv \<Rightarrow> client_reply \<times> blossom_srv" where
  "client_do X (CPut now sha stream auth) s =
     (case bl_Put X True Written now sha stream auth s of (r, s') \<Rightarrow> (RPut (result r), s'))"
| "client_do X (CGet sha) s = (RGet (result (bl_Get None s sha)), s)"
| "client_do X (CHas sha) s = (RHas (bl_Has True s sha), s)"
| "client_do X (CSweep now) s =
     (case bl_Sweep now (Some (names_of s)) (\<lambda>_. True) (\<lambda>_. True) s of (n, s') \<Rightarrow> (RSweep n, s'))"
| "client_do X CUsed s = (RUsed (bl_Used s), s)"
| "client_do X CCount s = (RCount (bl_BlobCount (names_of s) s), s)"
| "client_do X CList s = (RList (bl_SortedSHAs (Some (names_of s)) s), s)"

subsection \<open>Simulation\<close>

definition set_up :: "bl_options \<Rightarrow> blossom_srv \<Rightarrow> bool" where
  "set_up opts s \<longleftrightarrow>
     bl_quota s = bo_QuotaBytes opts \<and> bl_maxBlob s = bo_MaxBlobBytes opts \<and>
     bl_retain s = bo_Retention opts \<and> bl_allow s = set (bo_AllowPubkeys opts)"

definition refines :: "bl_options \<Rightarrow> blossom_srv \<Rightarrow> blob_map \<Rightarrow> bool" where
  "refines opts s m \<longleftrightarrow> set_up opts s \<and> bl_wf s \<and> slack s = 0 \<and> m = bl_abs s"

lemma result_simps [simp]: "result (Inl e) = None" "result (Inr x) = Some x"
  by (simp_all add: result_def)

lemma kept_setup_set_up: "kept_setup s s' \<Longrightarrow> set_up opts s' = set_up opts s"
  by (simp add: set_up_def kept_setup_def)

lemma names_of_facts:
  assumes "bl_wf s"
  shows "distinct (names_of s)" and "sorted (names_of s)"
    and "set (filter (\<lambda>e. e \<notin> bl_dirs s \<and> validSHA e) (names_of s)) = dom (bl_abs s)"
    and "dom (bl_abs s) \<subseteq> set (names_of s)"
proof -
  have "finite (fst ` set (bl_files s) \<union> bl_dirs s)" using assms by (simp add: bl_wf_def)
  then have all: "set (names_of s) = fst ` set (bl_files s) \<union> bl_dirs s" by (simp add: names_of_def)
  have "dom (bl_abs s) = {e \<in> fst ` set (bl_files s). validSHA e}"
    by (auto simp: bl_abs_def dom_map_of_conv_image_fst [symmetric] split: if_splits)
  moreover have "{e \<in> fst ` set (bl_files s) \<union> bl_dirs s. e \<notin> bl_dirs s \<and> validSHA e} =
      {e \<in> fst ` set (bl_files s). validSHA e}"
    using assms by (auto simp: bl_wf_def)
  ultimately show "set (filter (\<lambda>e. e \<notin> bl_dirs s \<and> validSHA e) (names_of s)) = dom (bl_abs s)"
    and "dom (bl_abs s) \<subseteq> set (names_of s)" by (auto simp: all)
qed (simp_all add: names_of_def)

lemma refines_list:
  assumes "bl_wf s"
  shows "bl_SortedSHAs (Some (names_of s)) s = sorted_list_of_set (dom (bl_abs s))"
proof -
  define found where "found = filter (\<lambda>e. e \<notin> bl_dirs s \<and> validSHA e) (names_of s)"
  have "distinct found" using names_of_facts(1) [OF assms] by (simp add: found_def)
  then have "sort found = sorted_list_of_set (set found)"
    by (simp add: sorted_list_of_set_sort_remdups distinct_remdups_id)
  then show ?thesis
    using names_of_facts(3) [OF assms] by (simp add: bl_SortedSHAs_def found_def del: set_filter)
qed

lemma refines_count:
  assumes "bl_wf s"
  shows "bl_BlobCount (names_of s) s = card (dom (bl_abs s))"
  using distinct_card [of "filter (\<lambda>e. e \<notin> bl_dirs s \<and> validSHA e) (names_of s)"]
    names_of_facts [OF assms]
  by (simp add: bl_BlobCount_def del: set_filter)

lemma present_abs: "bl_wf s \<Longrightarrow> validSHA k \<Longrightarrow> present s k \<longleftrightarrow> k \<in> dom (bl_abs s)"
  by (auto simp: present_def bl_wf_def bl_abs_def)

lemma authorize_admits: "set_up opts s \<Longrightarrow> authorize X s auth sha = None \<longleftrightarrow> spec_admits X opts auth sha"
proof (cases auth)
  case (Some ev)
  have "length t \<ge> 2 \<and> t ! 0 = ''x'' \<and> t ! 1 = sha \<longleftrightarrow> (\<exists>rest. t = ''x'' # sha # rest)" for t
    by (cases t; cases "tl t") auto
  moreover assume "set_up opts s"
  ultimately show ?thesis
    using Some by (auto simp: authorize_def spec_admits_def set_up_def KindBlobs_def list_ex_iff)
qed (simp add: authorize_def spec_admits_def)

lemma read_upload_spec:
  "set_up opts s \<Longrightarrow> validSHA sha \<Longrightarrow>
     spec_upload X opts stream sha \<longleftrightarrow>
       read_upload (bl_maxBlob s) stream = Inr (fst stream) \<and> hash_hex X (fst stream) = sha"
  by (cases stream) (auto simp: spec_upload_def read_upload_Inr set_up_def)

lemma read_upload_whole: "read_upload cap stream = Inr data \<Longrightarrow> data = fst stream"
  by (cases stream) (auto simp: read_upload_Inr)


lemma put_refines:
  assumes "refines opts s m" and "bl_Put X True Written now sha stream auth s = (r, s')"
  shows "spec_do X opts (CPut now sha stream auth) m = (RPut (result r), bl_abs s')" and "refines opts s' (bl_abs s')"
proof -
  note rel = assms(1) [unfolded refines_def]
  have admits: "spec_admits X opts auth sha \<longleftrightarrow> authorize X s auth sha = None"
    using authorize_admits rel by blast
  have upload: "validSHA sha \<Longrightarrow> spec_upload X opts stream sha \<longleftrightarrow>
      read_upload (bl_maxBlob s) stream = Inr (fst stream) \<and> hash_hex X (fst stream) = sha"
    using read_upload_spec rel by blast
  have held: "validSHA sha \<Longrightarrow> present s sha \<longleftrightarrow> sha \<in> dom m"
    using present_abs rel by blast
  have fits: "spec_fits opts data m \<longleftrightarrow> bl_quota s \<le> 0 \<or> bl_used s + int (length data) \<le> bl_quota s" for data
    using rel by (auto simp: spec_fits_def set_up_def slack_def)
  have wf: "validSHA sha \<Longrightarrow> sha \<notin> bl_dirs s" using rel by (auto simp: bl_wf_def)
  show "spec_do X opts (CPut now sha stream auth) m = (RPut (result r), bl_abs s')"
  proof (cases rule: bl_Put_cases [of sha X True Written now stream auth s])
    case invalid
    then have "\<not> spec_upload X opts stream sha" by (simp add: spec_upload_def)
    with invalid assms rel show ?thesis by simp
  next
    case (stored data)
    note data = read_upload_whole [OF stored(3)]
    with stored assms rel show ?thesis
      using admits upload held fits by (auto simp: abs_store_file)
  qed (use assms rel admits upload held fits wf in \<open>auto simp: Let_def dest: read_upload_whole\<close>)
  have "kept_setup s s'" using bl_Put_setup [of s X True Written now sha stream auth] assms(2) by simp
  moreover have "slack s' = 0"
  proof (cases rule: bl_Put_cases [of sha X True Written now stream auth s])
    case (stored data)
    then have "bl_abs s sha = None" using held rel by auto
    with stored assms(2) rel show ?thesis by (auto simp: slack_stored)
  qed (use assms(2) rel in auto)
  ultimately show "refines opts s' (bl_abs s')"
    using rel by (simp add: refines_def kept_setup_set_up kept_setup_wf)
qed

lemma sweep_refines:
  assumes "refines opts s m" and "bl_Sweep now (Some (names_of s)) (\<lambda>_. True) (\<lambda>_. True) s = (n, s')"
  shows "spec_do X opts (CSweep now) m = (RSweep n, bl_abs s')" and "refines opts s' (bl_abs s')"
proof -
  note rel = assms(1) [unfolded refines_def]
  note facts = bl_Sweep_facts [OF assms(2)]
  have retain: "bl_retain s = bo_Retention opts" using rel by (simp add: set_up_def)
  have left: "bl_abs s' = m |` (- expired opts now m)"
  proof (cases rule: bl_Sweep_cases [of now "Some (names_of s)" "\<lambda>_. True" "\<lambda>_. True" s])
    case off
    with assms(2) rel retain show ?thesis by (simp add: expired_def restrict_map_def)
  next
    case (on names)
    with assms(2) have run: "fold (sweep_entry (\<lambda>_. True) (\<lambda>_. True) (now - bl_retain s)) names (0, s) = (n, s')"
      by simp
    have kept: "now - bl_retain s \<le> snd v" if "bl_abs s' k = Some v" for k v
    proof -
      have "bl_abs s k = Some v" using facts(4) [of k] that by auto
      then have "k \<in> set names" using names_of_facts(4) [of s] rel on(1) by blast
      with sweep_entries_facts [OF run] rel that show ?thesis by blast
    qed
    show ?thesis
    proof
      fix k
      show "bl_abs s' k = (m |` (- expired opts now m)) k"
        using facts(4) [of k] kept [of k] rel on(2) retain
        by (cases "bl_abs s' k") (auto simp: expired_def restrict_map_def)
    qed
  qed
  have "expired opts now m \<subseteq> dom m" by (auto simp: expired_def)
  moreover have "finite (dom m)" using rel by simp
  ultimately have "card (dom m) = card (expired opts now m) + card (dom (bl_abs s'))"
    by (metis Diff_eq card_Diff_subset card_mono dom_restrict finite_subset le_add_diff_inverse left)
  with facts(3) rel have "n = card (expired opts now m)" by simp
  with left show "spec_do X opts (CSweep now) m = (RSweep n, bl_abs s')" by simp
  show "refines opts s' (bl_abs s')"
    using facts(1,2) rel by (simp add: refines_def kept_setup_set_up kept_setup_wf)
qed

lemma client_refines:
  assumes "refines opts s m" and "client_do X op s = (r, s')"
  shows "spec_do X opts op m = (r, bl_abs s')" and "refines opts s' (bl_abs s')"
proof -
  note rel = assms(1) [unfolded refines_def]
  have "spec_do X opts op m = (r, bl_abs s') \<and> refines opts s' (bl_abs s')"
  proof (cases op)
    case (CPut now sha stream auth)
    with assms put_refines [OF assms(1)] show ?thesis by (auto split: prod.splits)
  next
    case (CSweep now)
    with assms sweep_refines [OF assms(1)] show ?thesis by (auto split: prod.splits)
  next
    case (CGet sha)
    have "result (bl_Get None s sha) = map_option fst (bl_abs s sha)"
      by (auto simp: bl_Get_def bl_abs_def split: option.splits)
    with CGet assms rel show ?thesis by auto
  next
    case (CHas sha)
    have "bl_Has True s sha \<longleftrightarrow> sha \<in> dom m"
      using present_abs rel bl_abs_valid by (auto simp: bl_Has_def)
    with CHas assms rel show ?thesis by auto
  qed (use assms rel in \<open>auto simp: bl_Used_def slack_def refines_list refines_count\<close>)
  then show "spec_do X opts op m = (r, bl_abs s')" "refines opts s' (bl_abs s')" by simp_all
qed

interpretation local_spec: simulation
  "\<lambda>s. refines opts s (bl_abs s)" bl_abs "client_do X" "spec_do X opts" for X opts
  by unfold_locales (blast intro: client_refines)

subsection \<open>A sample store\<close>

text \<open>A blob whose digest under \<open>sample_ext\<close> is written out, and an event that admits it.\<close>

definition sample_blob :: bytes where
  "sample_blob = ''hello''"

definition up_sha :: string where
  "up_sha = ''68656c6c6f303030303030303030303030303030303030303030303030303030''"

definition sample_auth :: event where
  "sample_auth =
     \<lparr>ev_id = ''id'', ev_pubkey = ''alice'', ev_created_at = 5, ev_kind = 24242,
      ev_tags = [[''t'', ''upload''], [''x'', up_sha]], ev_content = '''', ev_sig = ''sig''\<rparr>"

definition sample_opts :: bl_options where
  "sample_opts =
     \<lparr>bo_Dir = ''/var/blobs'', bo_QuotaBytes = 100, bo_MaxBlobBytes = 10, bo_Retention = 50,
      bo_AllowPubkeys = [''alice'']\<rparr>"

definition sample_srv :: blossom_srv where
  "sample_srv =
     \<lparr>bl_dir = ''/var/blobs'', bl_quota = 100, bl_maxBlob = 10, bl_retain = 50, bl_allow = {''alice''},
      bl_used = 0, bl_files = [], bl_dirs = {}\<rparr>"

lemma sample_digest: "hash_hex sample_ext sample_blob = up_sha"
  by code_simp

lemma up_sha_valid: "validSHA up_sha"
  by code_simp

lemma sample_New: "bl_New True (Some []) (\<lambda>_. True) [] {} sample_opts = Inr sample_srv"
  by (simp add: bl_New_def bl_scan_def sample_opts_def sample_srv_def)

lemma sample_authorized: "authorize sample_ext sample_srv (Some sample_auth) up_sha = None"
  by (simp add: authorize_def sample_auth_def sample_srv_def KindBlobs_def sample_ext_def)

lemma sample_Put:
  "bl_Put sample_ext True Written 7 up_sha (sample_blob, None) (Some sample_auth) sample_srv =
     (Inr 5, sample_srv\<lparr>bl_files := [(up_sha, \<lparr>bf_body = sample_blob, bf_mtime = 7\<rparr>)], bl_used := 5\<rparr>)"
  using sample_authorized
  by (simp add: bl_Put_def up_sha_valid sample_digest)
    (simp add: read_upload_def sample_srv_def sample_blob_def present_def store_file_def sample_digest
      [unfolded sample_blob_def])

subsection \<open>Properties\<close>

text \<open>C10: With no failing system call, the store is indistinguishable from its specification:
  any sequence of uploads, reads, sweeps and queries on a server opened over a fully listed
  directory gets the replies the map-based specification gives, and ends in the same contents.\<close>

theorem local_store_refines:
  assumes "bl_New True (Some names) (\<lambda>_. True) files dirs opts = Inr s"
    and "full_listing names files dirs"
  shows "run_all (spec_do X opts) ops (bl_abs s) = map_prod (\<lambda>rs. rs) bl_abs (run_all (client_do X) ops s)"
proof -
  have "refines opts s (bl_abs s)"
    using bl_New_facts [OF assms] by (simp add: refines_def set_up_def)
  then show ?thesis by (rule local_spec.run_abs)
qed

theorem local_store_refines_witness:
  "run_all (spec_do sample_ext sample_opts)
     [CPut 7 up_sha (sample_blob, None) (Some sample_auth), CGet up_sha, CUsed] (bl_abs sample_srv) =
   ([RPut (Some 5), RGet (Some sample_blob), RUsed 5],
    bl_abs (sample_srv\<lparr>bl_files := [(up_sha, \<lparr>bf_body = sample_blob, bf_mtime = 7\<rparr>)], bl_used := 5\<rparr>))"
proof -
  have "full_listing [] [] {}" by (simp add: full_listing_def)
  show ?thesis
    by (simp only: local_store_refines [OF sample_New \<open>full_listing [] [] {}\<close>])
      (simp add: sample_Put bl_Get_def up_sha_valid bl_Used_def)
qed

definition clean_dir :: "ext \<Rightarrow> string list \<Rightarrow> (string, blob_file) gomap \<Rightarrow> string set \<Rightarrow> bool" where
  "clean_dir X names files dirs \<longleftrightarrow>
     full_listing names files dirs \<and>
     (\<forall>k f. map_of files k = Some f \<longrightarrow> validSHA k \<longrightarrow> hash_hex X (bf_body f) = k)"

lemma bl_New_clean:
  assumes "bl_New ok (Some names) (\<lambda>_. True) files dirs opts = Inr s" and "clean_dir X names files dirs"
  shows "bl_verified X s" and "bl_wf s" and "slack s = 0" and "bl_quota s = bo_QuotaBytes opts"
  using bl_New_facts [OF assms(1)] assms(2)
  by (auto simp: clean_dir_def bl_verified_def bl_abs_def split: if_splits)

text \<open>C29: Whatever the local server hands out has the digest it was asked for, after any uploads
  and sweeps, with any failure of the system calls but a write cut short, provided the
  directory it opened held only such blobs.\<close>

theorem local_store_verified:
  assumes "bl_New ok (Some names) (\<lambda>_. True) files dirs opts = Inr s" and "clean_dir X names files dirs"
    and "bl_Get err (fold (bl_step X) ops s) sha = Inr data"
  shows "hash_hex X data = sha"
proof -
  have "bl_read (fold (bl_step X) ops s) sha = Some data"
    using assms(3) by (auto simp: bl_Get_abs bl_read_abs)
  then show ?thesis
    using local_blobs.run_verified bl_New_clean(1) [OF assms(1,2)] by blast
qed

theorem local_store_verified_witness:
  "hash_hex sample_ext sample_blob = up_sha \<and>
   bl_Get None (fold (bl_step sample_ext)
     [BlPut True None 7 up_sha (sample_blob, None) (Some sample_auth)] sample_srv) up_sha = Inr sample_blob"
proof -
  have got: "bl_Get None (fold (bl_step sample_ext)
      [BlPut True None 7 up_sha (sample_blob, None) (Some sample_auth)] sample_srv) up_sha = Inr sample_blob"
    by (simp add: whole_write_def sample_Put bl_Get_def up_sha_valid)
  have "clean_dir sample_ext [] [] {}" by (simp add: clean_dir_def full_listing_def)
  from local_store_verified [OF sample_New this got] got show ?thesis by simp
qed

text \<open>C30: The bytes on disk never exceed the quota, and the byte counter never falls below
  them, after any uploads and sweeps, whatever system calls fail (a write cut short apart), if the
  directory was within the quota when it was opened.\<close>

theorem local_store_quota:
  assumes "bl_New ok (Some names) (\<lambda>_. True) files dirs opts = Inr s" and "clean_dir X names files dirs"
    and "0 < bo_QuotaBytes opts" and "bl_Used s \<le> bo_QuotaBytes opts"
  shows "spec_used (bl_abs (fold (bl_step X) ops s)) \<le> bo_QuotaBytes opts \<and>
    spec_used (bl_abs (fold (bl_step X) ops s)) \<le> bl_Used (fold (bl_step X) ops s)"
proof
  note opened = bl_New_clean [OF assms(1,2)]
  then have inv: "bl_verified X s \<and> bl_within s" using assms(3) by (simp add: bl_within_def)
  have "spec_used (bl_abs s) \<le> bl_quota s"
    using opened assms(4) by (simp add: slack_def bl_Used_def)
  from local_store.run_bounded [OF inv _ this, of ops] opened(4)
  show "spec_used (bl_abs (fold (bl_step X) ops s)) \<le> bo_QuotaBytes opts" by (simp add: list_all_iff)
  from local_store.run_inv [OF inv, of ops]
  show "spec_used (bl_abs (fold (bl_step X) ops s)) \<le> bl_Used (fold (bl_step X) ops s)"
    by (simp add: bl_within_def slack_def bl_Used_def)
qed

theorem local_store_quota_witness:
  "spec_used (bl_abs (fold (bl_step sample_ext)
     [BlPut True None 7 up_sha (sample_blob, None) (Some sample_auth)] sample_srv)) \<le> bo_QuotaBytes sample_opts"
proof -
  have dir: "clean_dir sample_ext [] [] {}" by (simp add: clean_dir_def full_listing_def)
  have "0 < bo_QuotaBytes sample_opts" "bl_Used sample_srv \<le> bo_QuotaBytes sample_opts"
    by (simp_all add: sample_opts_def sample_srv_def bl_Used_def)
  from local_store_quota [OF sample_New dir this] show ?thesis by (rule conjunct1)
qed

subsection \<open>What a write cut short leaves behind\<close>

text \<open>\<open>WriteFile\<close> creates the file before it writes, so a full disk leaves a prefix of the blob under
  the blob's digest, uncharged. The failed \<open>Put\<close> does not remove it, a later \<open>Put\<close> of the same
  blob reports success without writing, and \<open>Get\<close> hands out the prefix.\<close>

lemma partial_write_poisons:
  assumes "validSHA sha" and "authorize X s auth sha = None" and "hash_hex X data = sha"
    and "read_upload (bl_maxBlob s) (data, None) = Inr data"
    and "\<not> present s sha" and "bl_quota s \<le> 0 \<or> bl_used s + int (length data) \<le> bl_quota s"
    and "bl_Put X True (Partly n e) now sha (data, None) auth s = (r, s')"
  shows "r = Inl (OsFail e)" and "bl_used s' = bl_used s" and "bl_Get None s' sha = Inr (take n data)"
    and "bl_Put X True Written later sha (data, None) auth s' = (Inr (int (length data)), s')"
proof -
  have s': "r = Inl (OsFail e)" "s' = store_file sha (take n data) now s"
    using assms by (auto simp: bl_Put_def present_def)
  then show "r = Inl (OsFail e)" "bl_used s' = bl_used s" "bl_Get None s' sha = Inr (take n data)"
    using assms(1,5) by (simp_all add: store_file_def bl_Get_def update_conv')
  have "authorize X s' auth sha = None" "bl_maxBlob s' = bl_maxBlob s" "present s' sha"
    using assms(2) s'(2) by (auto simp: authorize_def store_file_def present_def update_conv' split: option.splits if_splits)
  then show "bl_Put X True Written later sha (data, None) auth s' = (Inr (int (length data)), s')"
    using assms(1,3,4) by (simp add: bl_Put_def)
qed

end
