(* ===== verification/BlossomHttp.thy ===== *)
theory BlossomHttp
  imports BlossomSpec Base64
begin

section \<open>The HTTP front of the local Blossom server\<close>

text \<open>
  \<open>bl_Handler\<close> from the request to the response and the store after it: the health and status
  pages, \<open>handleUpload\<close> with the authorization header, and \<open>handleBlob\<close>. What the operating
  system does during a request is a record \<open>blio\<close>. The decoder of \<^verbatim>\<open>go-nostr\<close>'s \<open>Event\<close> is
  the parameter \<open>json_event\<close>, with the text of its error. What \<open>ServeMux\<close> itself
  answers to an unclean path (a redirect) is a parameter too: the program never sees such a request.
  Bodies of responses are what the handler writes; the server drops them for \<open>HEAD\<close>.
\<close>

record bl_request =
  br_method :: string
  br_path :: string
  br_escaped :: string
  br_rawquery :: string
  br_host :: string
  br_auth :: string
  br_forwarded :: string
  br_tls :: bool
  br_body :: body_stream

record blio =
  io_stat :: bool
  io_write :: write_result
  io_now :: int
  io_read :: "string option"
  io_names :: "string list"

subsection \<open>\<^verbatim>\<open>encoding/json\<close>: strings and objects\<close>

text \<open>The length of the UTF-8 sequence a string starts with, if it is a valid one.\<close>

definition cont :: "nat \<Rightarrow> nat \<Rightarrow> char \<Rightarrow> bool" where
  "cont lo hi c \<longleftrightarrow> lo \<le> byte c \<and> byte c \<le> hi"

definition rune_len :: "string \<Rightarrow> nat option" where
  "rune_len s =
     (case s of
        [] \<Rightarrow> None
      | a # t \<Rightarrow>
          let b = byte a;
              second = (if b = 0xE0 then cont 0xA0 0xBF else if b = 0xED then cont 0x80 0x9F
                else if b = 0xF0 then cont 0x90 0xBF else if b = 0xF4 then cont 0x80 0x8F
                else cont 0x80 0xBF);
              n = (if b < 0x80 then 1 else if b < 0xC2 then 0 else if b < 0xE0 then 2
                else if b < 0xF0 then 3 else if b < 0xF5 then 4 else 0)
          in if n = 1 then Some 1
             else if 2 \<le> n \<and> n - 1 \<le> length t \<and> second (hd t) \<and>
               list_all (cont 0x80 0xBF) (take (n - 2) (tl t))
             then Some n else None)"

text \<open>\<open>appendString\<close> with HTML escaping, as \<open>Marshal\<close> calls it.\<close>

definition json_char :: "char \<Rightarrow> string" where
  "json_char c =
     (if c = CHR 0x22 \<or> c = CHR 0x5C then [CHR 0x5C, c]
      else if c = CHR 8 then [CHR 0x5C, CHR ''b''] else if c = CHR 0x0C then [CHR 0x5C, CHR ''f'']
      else if c = CHR 0x0A then [CHR 0x5C, CHR ''n''] else if c = CHR 0x0D then [CHR 0x5C, CHR ''r'']
      else if c = CHR 9 then [CHR 0x5C, CHR ''t'']
      else if byte c < 32 \<or> c \<in> set ''<>&'' then
        CHR 0x5C # ''u00'' @ [digit_char (byte c div 16), digit_char (byte c mod 16)]
      else [c])"

function json_runes :: "string \<Rightarrow> string" where
  "json_runes [] = []"
| "json_runes (c # s) =
     (case rune_len (c # s) of
        None \<Rightarrow> CHR 0x5C # ''ufffd'' @ json_runes s
      | Some n \<Rightarrow>
          if n \<le> 1 then json_char c @ json_runes s
          else
            (let rune = take n (c # s)
             in (if rune = map chr8 [0xE2, 0x80, 0xA8] then CHR 0x5C # ''u2028''
                 else if rune = map chr8 [0xE2, 0x80, 0xA9] then CHR 0x5C # ''u2029'' else rune) @
                json_runes (drop n (c # s))))"
  by pat_completeness auto
termination by (relation "measure length") auto

definition json_string :: "string \<Rightarrow> string" where
  "json_string s = CHR 0x22 # json_runes s @ [CHR 0x22]"

text \<open>A map is written with its keys sorted.\<close>

definition json_object :: "(string \<times> string) list \<Rightarrow> string" where
  "json_object kvs =
     CHR ''{'' # Join (map (\<lambda>(k, v). json_string k @ '':'' @ v) (sort_key fst kvs)) '','' @ ''}''"

subsection \<open>The authorization header\<close>

definition decodeURLBase64 :: "string \<Rightarrow> bytes option" where
  "decodeURLBase64 s = Raw_DecodeString (TrimRightByte s (CHR ''=''))"

text \<open>Where \<open>CorruptInputError\<close> puts the fault: at the first character outside the alphabet, or
  at the last one when a single character is left over.\<close>

definition corrupt_at :: "string \<Rightarrow> nat" where
  "corrupt_at s =
     (let bad = (\<lambda>c. c \<noteq> CHR 0x0A \<and> c \<noteq> CHR 0x0D \<and> b64_val c = None)
      in if list_ex bad s then length (takeWhile (\<lambda>c. \<not> bad c) s) else length s - 1)"

definition parseAuthHeader :: "(bytes \<Rightarrow> string + event) \<Rightarrow> string \<Rightarrow> bl_error + event" where
  "parseAuthHeader json_event header =
     (if \<not> HasPrefix header ''Nostr '' then Inl AuthPrefix
      else
        (let coded = TrimPrefix header ''Nostr ''
         in case decodeURLBase64 coded of
              None \<Rightarrow>
                Inl (AuthBase64 (''illegal base64 data at input byte '' @
                  show_dec (corrupt_at (TrimRightByte coded (CHR ''='')))))
            | Some raw \<Rightarrow>
                (case json_event raw of Inl e \<Rightarrow> Inl (AuthJson e) | Inr ev \<Rightarrow> Inr ev)))"

subsection \<open>Error texts\<close>

fun Error :: "bl_error \<Rightarrow> string" where
  "Error NoDir = ''blossom: dir is required''"
| "Error (OsFail e) = e"
| "Error InvalidSha = ''blossom: invalid sha''"
| "Error NotExist = ''file does not exist''"
| "Error NoAuth = ''blossom: missing Authorization header (Nostr <base64 kind-24242 event>)''"
| "Error (AuthKind k) = ''blossom: auth event kind must be '' @ show_int KindBlobs @ '', got '' @ show_int k"
| "Error AuthBadId = ''blossom: auth event id mismatch''"
| "Error AuthBadSig = ''blossom: auth event signature invalid''"
| "Error AuthNotAdmitted = ''blossom: auth signer not admitted''"
| "Error (AuthNotCovering sha) = ''blossom: auth event does not cover sha '' @ sha"
| "Error (BodyFail e) = e"
| "Error (TooBig n) = ''blossom: blob exceeds '' @ show_int n @ '' bytes''"
| "Error (UploadMismatch sha) = ''blossom: upload hash mismatch: expected '' @ sha"
| "Error (QuotaExceeded n) = ''blossom: store quota exceeded ('' @ show_int n @ '' bytes)''"
| "Error AuthPrefix = ''blossom: Authorization must start with '' @ [CHR 0x27] @ ''Nostr '' @ [CHR 0x27]"
| "Error (AuthBase64 e) = ''blossom: bad auth header: '' @ e"
| "Error (AuthJson e) = ''blossom: bad auth event: '' @ e"

subsection \<open>The handlers\<close>

definition not_allowed :: response where
  "not_allowed = http_Error ''method not allowed'' 405"

definition bl_healthz :: "bl_request \<Rightarrow> response" where
  "bl_healthz r =
     (if br_method r \<noteq> ''GET'' \<and> br_method r \<noteq> ''HEAD'' then not_allowed
      else
        \<lparr>rp_status = 200, rp_headers = [(''Content-Type'', ''text/plain'')],
         rp_body = (if br_method r = ''GET'' then ''ok'' @ [newline] else [])\<rparr>)"

definition bl_status :: "blio \<Rightarrow> bl_request \<Rightarrow> blossom_srv \<Rightarrow> response" where
  "bl_status io r s =
     (if br_method r \<noteq> ''GET'' then not_allowed
      else
        ok_page ''application/json''
          (json_object
            [(''used_bytes'', show_int (bl_Used s)), (''blobs'', show_dec (bl_BlobCount (io_names io) s)),
             (''quota_bytes'', show_int (bl_quota s))]))"

definition blob_headers :: "string \<Rightarrow> nat \<Rightarrow> (string \<times> string) list" where
  "blob_headers sha len =
     [(''Content-Type'', ''application/octet-stream''), (''Content-Length'', show_dec len),
      (''ETag'', CHR 0x22 # sha @ [CHR 0x22]), (''Cache-Control'', ''public, max-age=3600'')]"

definition handleBlob :: "blio \<Rightarrow> bl_request \<Rightarrow> blossom_srv \<Rightarrow> response" where
  "handleBlob io r s =
     (if br_method r \<noteq> ''GET'' \<and> br_method r \<noteq> ''HEAD'' then not_allowed
      else
        (let sha = TrimPrefix (br_path r) ''/''
         in if \<not> validSHA sha then http_NotFound
            else
              (case bl_Get (io_read io) s sha of
                 Inl e \<Rightarrow> http_NotFound
               | Inr data \<Rightarrow>
                   \<lparr>rp_status = 200, rp_headers = blob_headers sha (length data),
                    rp_body = (if br_method r = ''HEAD'' then [] else data)\<rparr>)))"

definition upload_url :: "bl_request \<Rightarrow> string \<Rightarrow> string" where
  "upload_url r sha =
     (let fwd = TrimSuffix (br_forwarded r) ''/'';
          base = (if fwd = [] then br_host r else fwd);
          scheme = (if br_tls r then ''https'' else ''http'')
      in scheme @ ''://'' @ base @ ''/'' @ sha)"

definition handleUpload ::
  "ext \<Rightarrow> (bytes \<Rightarrow> string + event) \<Rightarrow> blio \<Rightarrow> bl_request \<Rightarrow> blossom_srv \<Rightarrow> response \<times> blossom_srv" where
  "handleUpload X json_event io r s =
     (if br_method r \<noteq> ''PUT'' then (not_allowed, s)
      else
        (let sha = QueryGet (br_rawquery r) ''sha256''
         in if \<not> validSHA sha then (http_Error ''invalid or missing sha256 query parameter'' 400, s)
            else
              (case parseAuthHeader json_event (br_auth r) of
                 Inl e \<Rightarrow> (http_Error (Error e) 401, s)
               | Inr auth \<Rightarrow>
                   (case bl_Put X (io_stat io) (io_write io) (io_now io) sha (br_body r) (Some auth) s of
                      (Inl e, s') \<Rightarrow> (http_Error (Error e) 400, s')
                    | (Inr n, s') \<Rightarrow>
                        (ok_page ''application/json''
                           (json_object
                              [(''url'', json_string (upload_url r sha)), (''sha256'', json_string sha),
                               (''size'', show_int n)]), s')))))"

text \<open>\<open>ServeMux\<close>: an unclean path is redirected (except for \<open>CONNECT\<close>), the three names are
  matched on the decoded segment, and everything else goes to \<open>/\<close>.\<close>

definition cleanPath :: "string \<Rightarrow> string" where
  "cleanPath p0 =
     (let p = (if HasPrefix p0 ''/'' then p0 else ''/'' @ p0);
          np = Clean p
      in if last p = CHR ''/'' \<and> np \<noteq> ''/'' then np @ ''/'' else np)"

definition route_name :: "string \<Rightarrow> string" where
  "route_name escaped =
     (case Split (TrimPrefix escaped ''/'') ''/'' of
        [seg] \<Rightarrow> (case PathUnescape seg of Some n \<Rightarrow> n | None \<Rightarrow> seg)
      | _ \<Rightarrow> [])"

definition bl_Handler ::
  "ext \<Rightarrow> (bytes \<Rightarrow> string + event) \<Rightarrow> (bl_request \<Rightarrow> response) \<Rightarrow> blio \<Rightarrow> bl_request \<Rightarrow> blossom_srv \<Rightarrow>
     response \<times> blossom_srv" where
  "bl_Handler X json_event redirect io r s =
     (if br_escaped r = [] \<or> br_method r \<noteq> ''CONNECT'' \<and> cleanPath (br_escaped r) \<noteq> br_escaped r
      then (redirect r, s)
      else if route_name (br_escaped r) = ''healthz'' then (bl_healthz r, s)
      else if route_name (br_escaped r) = ''status'' then (bl_status io r s, s)
      else if route_name (br_escaped r) = ''upload'' then handleUpload X json_event io r s
      else (handleBlob io r s, s))"


subsection \<open>Names and headers\<close>

lemma DecodeString_hex: "DecodeString s \<noteq> None \<Longrightarrow> list_all (\<lambda>c. hex_val c \<noteq> None) s"
  by (induction s rule: DecodeString.induct) (auto split: option.splits)

lemma validSHA_hex: "validSHA sha \<Longrightarrow> list_all (\<lambda>c. hex_val c \<noteq> None) sha \<and> length sha = 64"
  using DecodeString_hex [of sha] by (auto simp: validSHA_def split: if_splits option.splits)

lemma hex_plain: "hex_val c \<noteq> None \<Longrightarrow> c \<notin> set ''%+;&=/.''"
  by (auto simp: hex_val_def digit_val_def ascii_defs split: option.splits if_splits)

lemma validSHA_plain:
  assumes "validSHA sha" and "c \<in> set ''%+;&=/.''"
  shows "c \<notin> set sha"
proof
  assume "c \<in> set sha"
  with validSHA_hex [OF assms(1)] have "hex_val c \<noteq> None" by (simp add: list_all_iff)
  with hex_plain assms(2) show False by blast
qed

lemma unescape_query_id: "CHR ''%'' \<notin> set s \<Longrightarrow> CHR ''+'' \<notin> set s \<Longrightarrow> unescape EncQueryComponent s = Some s"
  by (induction s) auto

lemma Cut_at: "c \<notin> set a \<Longrightarrow> Cut (a @ c # b) c = (a, b, True)"
  by (induction a) auto

lemma QueryGet_sha:
  assumes "validSHA sha"
  shows "QueryGet (''sha256='' @ sha) ''sha256'' = sha"
proof -
  note plain = validSHA_plain [OF assms]
  have "Split (''sha256='' @ sha) ''&'' = [''sha256='' @ sha]"
    using plain by (intro Split_byte_id) auto
  moreover have "query_pair (''sha256='' @ sha) = Some (''sha256'', sha)"
  proof -
    have "Cut (''sha256='' @ sha) (CHR ''='') = (''sha256'', sha, True)"
      using Cut_at [of "CHR ''=''" "''sha256''" sha] by simp
    then show ?thesis using plain by (simp add: query_pair_def unescape_query_id)
  qed
  ultimately show ?thesis by (simp add: QueryGet_def List.map_filter_def)
qed

lemma cleanPath_segment: "normal_seg seg \<Longrightarrow> cleanPath (''/'' @ seg) = ''/'' @ seg"
  by (auto simp: cleanPath_def Clean_def IsAbs_def Split_byte_Cons normal_seg_def Split_byte_id Let_def)
    (metis last_in_set)

lemma sha_segment: "validSHA sha \<Longrightarrow> normal_seg sha"
proof -
  assume valid: "validSHA sha"
  then have "CHR ''/'' \<notin> set sha" "CHR ''.'' \<notin> set sha" using validSHA_plain by simp_all
  moreover have "sha \<noteq> []" using validSHA_hex [OF valid] by force
  ultimately show ?thesis by (auto simp: normal_seg_def)
qed

lemma route_segment:
  assumes "normal_seg seg" and "CHR ''%'' \<notin> set seg"
  shows "route_name (''/'' @ seg) = seg"
  using assms TrimPrefix_append [of "''/''" seg]
  by (simp add: route_name_def normal_seg_def Split_byte_id PathUnescape_def unescape_no_escape)

lemma Trim_padding: "c \<notin> set s \<Longrightarrow> TrimRightByte (s @ replicate n c) c = s"
proof -
  assume absent: "c \<notin> set s"
  have "dropWhile (\<lambda>x. x = c) (replicate n c @ rev s) = rev s"
    using absent by (induction n; cases s rule: rev_cases) auto
  then show ?thesis by (simp add: TrimRightByte_def)
qed

lemma decodeURLBase64_padded:
  "decodeURLBase64 (Raw_EncodeToString raw @ replicate n (CHR ''='')) = Some raw"
proof -
  have "CHR ''='' \<notin> set (Raw_EncodeToString raw)" using Raw_plain by blast
  then show ?thesis by (simp add: decodeURLBase64_def Trim_padding b64c.dec_enc)
qed

lemma parseAuthHeader_padded:
  "json_event raw = Inr ev \<Longrightarrow>
     parseAuthHeader json_event (''Nostr '' @ Raw_EncodeToString raw @ replicate n (CHR ''='')) = Inr ev"
  using TrimPrefix_append [of "''Nostr ''"] by (simp add: parseAuthHeader_def decodeURLBase64_padded)

subsection \<open>What a request can do\<close>

lemma handleUpload_cases:
  obtains (refused) code msg where "handleUpload X J io r s = (http_Error msg code, s)"
      "code = 405 \<and> br_method r \<noteq> ''PUT'' \<or> code = 400 \<and> \<not> validSHA (QueryGet (br_rawquery r) ''sha256'') \<or>
       code = 401 \<and> (\<exists>e. parseAuthHeader J (br_auth r) = Inl e)"
  | (failed) sha ev e s' where "br_method r = ''PUT''" "sha = QueryGet (br_rawquery r) ''sha256''" "validSHA sha"
      "parseAuthHeader J (br_auth r) = Inr ev"
      "bl_Put X (io_stat io) (io_write io) (io_now io) sha (br_body r) (Some ev) s = (Inl e, s')"
      "handleUpload X J io r s = (http_Error (Error e) 400, s')"
  | (accepted) sha ev n s' where "br_method r = ''PUT''" "sha = QueryGet (br_rawquery r) ''sha256''" "validSHA sha"
      "parseAuthHeader J (br_auth r) = Inr ev"
      "bl_Put X (io_stat io) (io_write io) (io_now io) sha (br_body r) (Some ev) s = (Inr n, s')"
      "handleUpload X J io r s =
         (ok_page ''application/json''
            (json_object [(''url'', json_string (upload_url r sha)), (''sha256'', json_string sha),
                          (''size'', show_int n)]), s')"
proof (cases "br_method r = ''PUT''")
  case put: True
  define sha where "sha = QueryGet (br_rawquery r) ''sha256''"
  show thesis
  proof (cases "validSHA sha")
    case valid: True
    show thesis
    proof (cases "parseAuthHeader J (br_auth r)")
      case (Inl e)
      with put valid show thesis by (intro refused) (auto simp: handleUpload_def sha_def)
    next
      case (Inr ev)
      obtain res s' where run:
        "bl_Put X (io_stat io) (io_write io) (io_now io) sha (br_body r) (Some ev) s = (res, s')" by force
      show thesis
      proof (cases res)
        case (Inl e)
        show thesis
          by (rule failed [OF put sha_def valid \<open>_ = Inr ev\<close> run [unfolded Inl]])
            (use put valid \<open>_ = Inr ev\<close> run Inl in \<open>simp add: handleUpload_def sha_def Let_def\<close>)
      next
        case (Inr n)
        show thesis
          by (rule accepted [OF put sha_def valid \<open>_ = Inr ev\<close> run [unfolded Inr]])
            (use put valid \<open>_ = Inr ev\<close> run Inr in \<open>simp add: handleUpload_def sha_def Let_def\<close>)
      qed
    qed
  next
    case False
    with put show thesis by (intro refused [of "''invalid or missing sha256 query parameter''" 400])
      (auto simp: handleUpload_def sha_def)
  qed
next
  case False
  then show thesis by (intro refused [of "''method not allowed''" 405])
    (auto simp: handleUpload_def not_allowed_def)
qed

lemma bl_Handler_cases:
  obtains (upload) "route_name (br_escaped r) = ''upload''"
      "bl_Handler X J red io r s = handleUpload X J io r s"
  | (reading) resp where "bl_Handler X J red io r s = (resp, s)"
proof (cases "\<exists>resp. bl_Handler X J red io r s = (resp, s)")
  case True
  then show thesis using reading by blast
next
  case False
  then show thesis by (intro upload) (auto simp: bl_Handler_def split: if_splits)
qed


lemma authorize_None:
  "authorize X s (Some ev) sha = None \<longleftrightarrow>
     ev_kind ev = 24242 \<and> check_id X ev \<and> check_sig X ev \<and>
     (bl_allow s = {} \<or> ev_pubkey ev \<in> bl_allow s) \<and> (\<exists>t\<in>set (ev_tags ev). \<exists>rest. t = ''x'' # sha # rest)"
proof -
  have "length t \<ge> 2 \<and> t ! 0 = ''x'' \<and> t ! 1 = sha \<longleftrightarrow> (\<exists>rest. t = ''x'' # sha # rest)" for t
    by (cases t; cases "tl t") auto
  then show ?thesis by (auto simp: authorize_def KindBlobs_def list_ex_iff)
qed

text \<open>A \<open>Put\<close> that changes the store, even by a write cut short.\<close>

lemma bl_Put_changes:
  assumes "bl_Put X stat_ok wr now sha stream auth s = (r, s')" and "s' \<noteq> s"
  shows "authorize X s auth sha = None" and "snd stream = None" and "hash_hex X (fst stream) = sha"
    and "k \<noteq> sha \<Longrightarrow> bl_abs s' k = bl_abs s k"
    and "0 < bl_quota s \<Longrightarrow> bl_used s \<le> bl_used s' \<and> bl_used s' \<le> bl_quota s"
    and "r = Inr n \<Longrightarrow> bl_abs s' sha = Some (fst stream, now)"
proof -
  have "authorize X s auth sha = None \<and> snd stream = None \<and> hash_hex X (fst stream) = sha \<and>
    (k \<noteq> sha \<longrightarrow> bl_abs s' k = bl_abs s k) \<and>
    (0 < bl_quota s \<longrightarrow> bl_used s \<le> bl_used s' \<and> bl_used s' \<le> bl_quota s) \<and>
    (r = Inr n \<longrightarrow> bl_abs s' sha = Some (fst stream, now))"
  proof (cases rule: bl_Put_cases [of sha X stat_ok wr now stream auth s])
    case (cut data n' e)
    with assms(1) have "s' = store_file sha (take n' data) now s" "r = Inl (OsFail e)" by simp_all
    moreover have "bl_used (store_file sha (take n' data) now s) = bl_used s" by (simp add: store_file_def)
    ultimately show ?thesis using cut(1-6)
      by (cases stream) (auto simp: abs_store_file read_upload_Inr)
  next
    case (stored data)
    with assms(1) have "s' = (store_file sha data now s)\<lparr>bl_used := bl_used s + int (length data)\<rparr>" by simp
    with stored(1-6) show ?thesis by (cases stream) (auto simp: abs_store_file read_upload_Inr)
  qed (use assms in auto)
  then show "authorize X s auth sha = None" "snd stream = None" "hash_hex X (fst stream) = sha"
    "k \<noteq> sha \<Longrightarrow> bl_abs s' k = bl_abs s k"
    "0 < bl_quota s \<Longrightarrow> bl_used s \<le> bl_used s' \<and> bl_used s' \<le> bl_quota s"
    "r = Inr n \<Longrightarrow> bl_abs s' sha = Some (fst stream, now)" by blast+
qed

subsection \<open>Sample requests\<close>

definition upload_request :: "string \<Rightarrow> string \<Rightarrow> body_stream \<Rightarrow> bl_request" where
  "upload_request sha header stream =
     \<lparr>br_method = ''PUT'', br_path = ''/upload'', br_escaped = ''/upload'', br_rawquery = ''sha256='' @ sha,
      br_host = ''127.0.0.1:8090'', br_auth = header, br_forwarded = '''', br_tls = False, br_body = stream\<rparr>"

definition blob_request :: "string \<Rightarrow> bl_request" where
  "blob_request sha =
     \<lparr>br_method = ''GET'', br_path = ''/'' @ sha, br_escaped = ''/'' @ sha, br_rawquery = '''',
      br_host = ''127.0.0.1:8090'', br_auth = '''', br_forwarded = '''', br_tls = False, br_body = ([], None)\<rparr>"

lemma route_literal:
  "cleanPath ''/upload'' = ''/upload''" "route_name ''/upload'' = ''upload''"
  using cleanPath_segment [of "''upload''"] route_segment [of "''upload''"] by (simp_all add: normal_seg_def)

lemma blob_route:
  assumes "validSHA sha"
  shows "bl_Handler X J red io (blob_request sha) s = (handleBlob io (blob_request sha) s, s)"
proof -
  have "CHR ''%'' \<notin> set sha" using validSHA_plain [OF assms] by simp
  then have "route_name (''/'' @ sha) = sha" using route_segment sha_segment [OF assms] by blast
  moreover have "length sha = 64" using validSHA_hex [OF assms] by simp
  then have "sha \<noteq> ''healthz''" "sha \<noteq> ''status''" "sha \<noteq> ''upload''" by auto
  moreover have "cleanPath (''/'' @ sha) = ''/'' @ sha" by (rule cleanPath_segment [OF sha_segment [OF assms]])
  ultimately show ?thesis by (simp add: bl_Handler_def blob_request_def)
qed

definition sample_io :: blio where
  "sample_io = \<lparr>io_stat = True, io_write = Written, io_now = 7, io_read = None, io_names = []\<rparr>"

definition sample_request :: bl_request where
  "sample_request =
     upload_request up_sha (''Nostr '' @ Raw_EncodeToString ''{}'' @ replicate 2 (CHR ''='')) (sample_blob, None)"

definition sample_stored :: blossom_srv where
  "sample_stored =
     sample_srv\<lparr>bl_files := [(up_sha, \<lparr>bf_body = sample_blob, bf_mtime = 7\<rparr>)], bl_used := 5\<rparr>"

definition sample_response :: response where
  "sample_response =
     ok_page ''application/json''
       (json_object
         [(''url'', json_string (upload_url sample_request up_sha)), (''sha256'', json_string up_sha),
          (''size'', show_int 5)])"

lemma sample_upload:
  "bl_Handler sample_ext (\<lambda>_. Inr sample_auth) (\<lambda>_. http_NotFound) sample_io sample_request sample_srv =
     (sample_response, sample_stored)"
  using QueryGet_sha [OF up_sha_valid] parseAuthHeader_padded [of "\<lambda>_. Inr sample_auth" "''{}''" sample_auth 2]
  by (simp add: bl_Handler_def handleUpload_def sample_request_def upload_request_def route_literal up_sha_valid
      sample_io_def sample_Put sample_stored_def sample_response_def del: append.simps)

subsection \<open>Properties\<close>

text \<open>C12: A request changes the store only as an authorized upload: it is a \<open>PUT\<close> whose header
  decodes to a signed event of kind 24242 by an admitted key that names the digest, its body
  has exactly that digest, no blob under another digest changes, and the byte counter only
  grows and stays within the quota.\<close>

theorem http_write_authorized:
  assumes "bl_Handler X json_event redirect io r s = (resp, s')" and "s' \<noteq> s"
  shows "\<exists>ev. br_method r = ''PUT'' \<and> parseAuthHeader json_event (br_auth r) = Inr ev \<and>
    ev_kind ev = 24242 \<and> check_id X ev \<and> check_sig X ev \<and>
    (bl_allow s = {} \<or> ev_pubkey ev \<in> bl_allow s) \<and>
    (\<exists>t\<in>set (ev_tags ev). \<exists>rest. t = ''x'' # hash_hex X (fst (br_body r)) # rest) \<and>
    (\<forall>k. k = hash_hex X (fst (br_body r)) \<or> bl_abs s' k = bl_abs s k) \<and> kept_setup s s' \<and>
    (bl_quota s \<le> 0 \<or> bl_used s \<le> bl_used s' \<and> bl_used s' \<le> bl_quota s)"
proof -
  have up: "handleUpload X json_event io r s = (resp, s')"
    by (rule bl_Handler_cases [of r X json_event redirect io s]) (use assms in auto)
  obtain sha ev res where put: "br_method r = ''PUT''" "parseAuthHeader json_event (br_auth r) = Inr ev"
      "bl_Put X (io_stat io) (io_write io) (io_now io) sha (br_body r) (Some ev) s = (res, s')"
    by (rule handleUpload_cases [of X json_event io r s]) (use up assms(2) in auto)
  note changes = bl_Put_changes [OF put(3) assms(2)]
  have "kept_setup s s'"
    using bl_Put_setup [of s X "io_stat io" "io_write io" "io_now io" sha "br_body r" "Some ev"] put(3) by simp
  then show ?thesis
    using put(1,2) changes(1) [unfolded authorize_None] changes(3,4,5) by (intro exI [of _ ev]) auto
qed

theorem http_write_authorized_witness:
  "sample_stored \<noteq> sample_srv \<and> kept_setup sample_srv sample_stored \<and>
   bl_used sample_stored \<le> bl_quota sample_srv"
proof -
  have new: "sample_stored \<noteq> sample_srv" by (simp add: sample_stored_def sample_srv_def)
  show ?thesis
    using http_write_authorized [OF sample_upload new] new by (auto simp: sample_srv_def)
qed

text \<open>C33: What an upload leaves, by its status, which is 200, 400, 401 or 405. With 200 the whole body
  was read and has the digest asked for, and either a blob was there under it and the store is
  unchanged, or exactly the body is stored under it, all other blobs stay and its length is
  charged; in both cases a blob can be read there, with that digest if the store was verified
  before. With any other status the store is unchanged, with one exception, a write the disk
  cut short: it leaves the first bytes of the body, uncharged, and nothing else changes
  (\<open>partial_write_poisons\<close>).\<close>

theorem upload_outcomes:
  assumes "handleUpload X json_event io r s = (resp, s')" and "bl_wf s"
    and "sha = QueryGet (br_rawquery r) ''sha256''"
  shows "rp_status resp \<in> {200, 400, 401, 405} \<and>
    (if rp_status resp = 200 then
       hash_hex X (fst (br_body r)) = sha \<and> snd (br_body r) = None \<and>
       (bl_abs s sha \<noteq> None \<and> s' = s \<or>
        bl_abs s' = (bl_abs s)(sha \<mapsto> (fst (br_body r), io_now io)) \<and>
        bl_used s' = bl_used s + int (length (fst (br_body r)))) \<and>
       (\<exists>data t. bl_abs s' sha = Some (data, t) \<and> (bl_verified X s \<longrightarrow> hash_hex X data = sha))
     else
       s' = s \<or>
       (\<exists>n e. io_write io = Partly n e \<and> hash_hex X (fst (br_body r)) = sha \<and>
          bl_abs s' = (bl_abs s)(sha \<mapsto> (take n (fst (br_body r)), io_now io)) \<and> bl_used s' = bl_used s))"
proof (cases rule: handleUpload_cases [of X json_event io r s])
  case (refused code msg)
  with assms show ?thesis by (auto simp: http_Error_def)
next
  case (failed sha' ev e t)
  have "t = s \<or> (\<exists>n e. io_write io = Partly n e \<and> hash_hex X (fst (br_body r)) = sha' \<and>
      t = store_file sha' (take n (fst (br_body r))) (io_now io) s)"
    by (rule bl_Put_cases [of sha' X "io_stat io" "io_write io" "io_now io" "br_body r" "Some ev" s];
        cases "br_body r") (use failed(5) in \<open>auto simp: read_upload_Inr\<close>)
  moreover have "bl_used (store_file k d now s) = bl_used s" for k d now by (simp add: store_file_def)
  ultimately show ?thesis
    using failed(2,3,6) assms(1,3) by (auto simp: http_Error_def abs_store_file)
next
  case (accepted sha' ev n t)
  have "hash_hex X (fst (br_body r)) = sha' \<and> snd (br_body r) = None \<and>
      (bl_abs s sha' \<noteq> None \<and> t = s \<or>
       bl_abs t = (bl_abs s)(sha' \<mapsto> (fst (br_body r), io_now io)) \<and>
       bl_used t = bl_used s + int (length (fst (br_body r))))"
    by (rule bl_Put_cases [of sha' X "io_stat io" "io_write io" "io_now io" "br_body r" "Some ev" s];
        cases "br_body r")
      (use accepted(5) assms(2) in \<open>auto simp: read_upload_Inr abs_store_file present_abs\<close>)
  with accepted(2,6) assms(1,3) show ?thesis by (auto simp: ok_page_def bl_verified_def)
qed

theorem upload_outcomes_witness:
  "bl_abs sample_stored up_sha = Some (sample_blob, 7) \<and> bl_used sample_stored = bl_used sample_srv + 5"
proof -
  have run: "handleUpload sample_ext (\<lambda>_. Inr sample_auth) sample_io sample_request sample_srv =
      (sample_response, sample_stored)"
    using sample_upload by (simp add: bl_Handler_def sample_request_def upload_request_def route_literal)
  have wf: "bl_wf sample_srv" "bl_abs sample_srv up_sha = None"
    by (simp_all add: bl_wf_def bl_abs_def sample_srv_def)
  have "rp_status sample_response = 200" by (simp add: sample_response_def ok_page_def)
  moreover have "up_sha = QueryGet (br_rawquery sample_request) ''sha256''"
    using QueryGet_sha [OF up_sha_valid] by (simp add: sample_request_def upload_request_def)
  moreover have "fst (br_body sample_request) = sample_blob" "length sample_blob = 5" "io_now sample_io = 7"
    by (simp_all add: sample_request_def upload_request_def sample_blob_def sample_io_def)
  ultimately show ?thesis
    using upload_outcomes [OF run wf(1)] wf(2) by simp
qed

text \<open>C24: Upload, then download. An authorized \<open>PUT /upload\<close> of a new blob that fits, its event
  in base64url with any padding, is answered with 200, and a \<open>GET\<close> of the digest then
  gives exactly the uploaded bytes, with their length and the digest as the ETag.\<close>

theorem upload_then_download:
  assumes "validSHA sha" and "hash_hex X data = sha" and "json_event raw = Inr ev"
    and "authorize X s (Some ev) sha = None" and "bl_abs s sha = None" and "bl_wf s"
    and "bl_maxBlob s \<le> 0 \<or> int (length data) \<le> bl_maxBlob s"
    and "bl_quota s \<le> 0 \<or> bl_used s + int (length data) \<le> bl_quota s"
    and "io_write io = Written" and "io_read io' = None"
    and "bl_Handler X json_event redirect io
           (upload_request sha (''Nostr '' @ Raw_EncodeToString raw @ replicate n (CHR ''='')) (data, None)) s =
         (resp, s')"
  shows "rp_status resp = 200 \<and>
    bl_Handler X json_event redirect io' (blob_request sha) s' =
      (\<lparr>rp_status = 200, rp_headers = blob_headers sha (length data), rp_body = data\<rparr>, s')"
proof -
  have absent: "\<not> present s sha" using present_abs assms(1,5,6) by auto
  have "read_upload (bl_maxBlob s) (data, None) = Inr data" using assms(7) by (auto simp: read_upload_Inr)
  with absent assms(1,2,4,6,8,9) have put: "bl_Put X (io_stat io) (io_write io) (io_now io) sha (data, None) (Some ev) s =
      (Inr (int (length data)), (store_file sha data (io_now io) s)\<lparr>bl_used := bl_used s + int (length data)\<rparr>)"
    by (auto simp: bl_Put_def bl_wf_def)
  have "bl_Handler X json_event redirect io
      (upload_request sha (''Nostr '' @ Raw_EncodeToString raw @ replicate n (CHR ''='')) (data, None)) s =
    handleUpload X json_event io
      (upload_request sha (''Nostr '' @ Raw_EncodeToString raw @ replicate n (CHR ''='')) (data, None)) s"
    by (simp add: bl_Handler_def upload_request_def route_literal)
  with assms(11) put have s': "rp_status resp = 200"
    "s' = (store_file sha data (io_now io) s)\<lparr>bl_used := bl_used s + int (length data)\<rparr>"
    using QueryGet_sha [OF assms(1)] parseAuthHeader_padded [of json_event raw ev n, OF assms(3)] assms(1)
    by (auto simp: handleUpload_def upload_request_def ok_page_def)
  have "bl_Get None s' sha = Inr data"
    using s'(2) assms(1) by (simp add: bl_Get_def store_file_def update_conv')
  moreover have "TrimPrefix (''/'' @ sha) ''/'' = sha" by (rule TrimPrefix_append)
  ultimately have "handleBlob io' (blob_request sha) s' =
      \<lparr>rp_status = 200, rp_headers = blob_headers sha (length data), rp_body = data\<rparr>"
    using assms(1,10) by (simp add: handleBlob_def blob_request_def)
  with s'(1) blob_route [OF assms(1)] show ?thesis by metis
qed

theorem upload_then_download_witness:
  "bl_Handler sample_ext (\<lambda>_. Inr sample_auth) (\<lambda>_. http_NotFound) sample_io (blob_request up_sha) sample_stored =
     (\<lparr>rp_status = 200, rp_headers = blob_headers up_sha (length sample_blob), rp_body = sample_blob\<rparr>, sample_stored)"
proof -
  have "bl_abs sample_srv up_sha = None" "bl_wf sample_srv"
    "bl_maxBlob sample_srv \<le> 0 \<or> int (length sample_blob) \<le> bl_maxBlob sample_srv"
    "bl_quota sample_srv \<le> 0 \<or> bl_used sample_srv + int (length sample_blob) \<le> bl_quota sample_srv"
    "io_write sample_io = Written" "io_read sample_io = None"
    by (simp_all add: bl_abs_def bl_wf_def sample_srv_def sample_blob_def sample_io_def)
  from upload_then_download [OF up_sha_valid sample_digest _ sample_authorized this, of "\<lambda>_. Inr sample_auth"
      "''{}''" "\<lambda>_. http_NotFound" 2 sample_response sample_stored] sample_upload
  show ?thesis by (simp add: sample_request_def)
qed

subsection \<open>Where the code departs from its comments\<close>

text \<open>The authorization event's verb and its expiration are not looked at: an event that authorizes a
  deletion, expired since the epoch, admits an upload.\<close>

lemma expired_delete_admits_upload:
  assumes "ev_kind ev = 24242" and "check_id X ev" and "check_sig X ev"
    and "ev_tags ev = [[''t'', ''delete''], [''expiration'', ''1''], [''x'', sha]]" and "bl_allow s = {}"
  shows "authorize X s (Some ev) sha = None"
  unfolding authorize_None using assms by auto

text \<open>\<open>validSHA\<close> takes uppercase digits, but no digest has them: such an upload is read in full and then
  always refused.\<close>

lemma uppercase_sha_refused:
  "validSHA (replicate 64 (CHR ''A''))"
  "fst (bl_Put X stat_ok wr now (replicate 64 (CHR ''A'')) stream auth s) \<noteq> Inr n"
proof -
  show "validSHA (replicate 64 (CHR ''A''))" by code_simp
  have "hash_hex X data \<noteq> replicate 64 (CHR ''A'')" for data
  proof
    assume "hash_hex X data = replicate 64 (CHR ''A'')"
    then have "lower_hex (replicate 64 (CHR ''A''))"
      using EncodeToString_lower by (metis hash_hex_def)
    moreover have "\<not> lower_hex (replicate 64 (CHR ''A''))" by code_simp
    ultimately show False by contradiction
  qed
  then show "fst (bl_Put X stat_ok wr now (replicate 64 (CHR ''A'')) stream auth s) \<noteq> Inr n"
    by (cases rule: bl_Put_cases [of "replicate 64 (CHR ''A'')" X stat_ok wr now stream auth s]) auto
qed

end
