(* ===== verification/Gateway.thy ===== *)
theory Gateway
  imports Served BlossomHttp
begin

section \<open>The process (\<^verbatim>\<open>cmd/nostrhost-nsite/main.go\<close>)\<close>

text \<open>
  The process puts the parts together: it loads the configuration, builds the server and its
  backends, starts the local Blossom server when the configuration enables it, and repeats this on
  \<open>SIGHUP\<close>. An exit with a code is \<open>Exited\<close>. What the host does is a record \<open>host\<close>: the
  configuration file and its decoder, the directories, the listener. The state keeps the
  addresses the local server's listeners are bound to (\<open>gw_bound\<close>) apart from the variable
  \<open>bs\<close> (\<open>gw_bs\<close>), so that a listener that is lost shows. Durations are 64-bit counts of
  nanoseconds, and a product that does not fit wraps.
\<close>

datatype 'a outcome = Exited nat | Running 'a

record local_server =
  ls_addr :: string
  ls_store :: blossom_srv

record host =
  h_raw :: "bytes option"
  h_toml :: "config \<Rightarrow> bytes \<Rightarrow> config option"
  h_loopback :: bool
  h_now :: int
  h_cache_mkdir :: bool
  h_cache_entries :: "dirent list option"
  h_cache_disk :: "string \<rightharpoonup> bytes"
  h_os :: os
  h_json :: "bytes \<Rightarrow> catalogue option"
  h_catalogue :: "string \<Rightarrow> read_outcome"
  h_listen :: "string \<Rightarrow> bool"
  h_bl_mkdir :: bool
  h_bl_names :: "string list option"
  h_bl_info :: "string \<Rightarrow> bool"
  h_bl_rm :: "string \<Rightarrow> bool"
  h_bl_files :: "string \<Rightarrow> (string, blob_file) gomap"
  h_bl_dirs :: "string \<Rightarrow> string set"

record gateway =
  gw_srv :: server
  gw_bs :: "local_server option"
  gw_bound :: "string set"

definition Duration :: "int \<Rightarrow> int \<Rightarrow> int" where
  "Duration n unit_ns = signed_take_bit 63 (n * unit_ns)"

abbreviation Second :: int where "Second \<equiv> 10 ^ 9"
abbreviation Hour :: int where "Hour \<equiv> 3600 * 10 ^ 9"

abbreviation local_cfg :: "config \<Rightarrow> local_config" where
  "local_cfg cfg \<equiv> bc_Local (cf_Blossom cfg)"

subsection \<open>The local Blossom server's life\<close>

definition local_opts :: "config \<Rightarrow> bl_options" where
  "local_opts cfg =
     \<lparr>bo_Dir = bl_DataDir (local_cfg cfg), bo_QuotaBytes = bl_QuotaBytes (local_cfg cfg),
      bo_MaxBlobBytes = bl_MaxBlobBytes (local_cfg cfg),
      bo_Retention = Duration (bl_RetentionDays (local_cfg cfg) * 24) Hour,
      bo_AllowPubkeys = bl_AllowPubkeys (local_cfg cfg)\<rparr>"

definition startBlossom ::
  "host \<Rightarrow> config \<Rightarrow> string set \<Rightarrow> (local_server option \<times> string set) outcome" where
  "startBlossom H cfg bound =
     (if \<not> bl_Enabled (local_cfg cfg) then Running (None, bound)
      else
        (let addr = bl_Listen (local_cfg cfg);
             dir = bl_DataDir (local_cfg cfg)
         in if \<not> h_listen H addr then Exited 1
            else
              (case bl_New (h_bl_mkdir H) (h_bl_names H) (h_bl_info H) (h_bl_files H dir) (h_bl_dirs H dir)
                      (local_opts cfg) of
                 Inl e \<Rightarrow> Exited 1
               | Inr st \<Rightarrow>
                   Running
                     (Some \<lparr>ls_addr = addr,
                            ls_store = snd (bl_Sweep (h_now H) (h_bl_names H) (h_bl_info H) (h_bl_rm H) st)\<rparr>,
                      insert addr bound))))"

definition stopBlossom :: "local_server option \<Rightarrow> string set \<Rightarrow> string set" where
  "stopBlossom bs bound = (case bs of None \<Rightarrow> bound | Some b \<Rightarrow> bound - {ls_addr b})"

definition reloadBlossom ::
  "host \<Rightarrow> local_server option \<Rightarrow> config \<Rightarrow> string set \<Rightarrow> (local_server option \<times> string set) outcome" where
  "reloadBlossom H cur cfg bound =
     (if bl_Enabled (local_cfg cfg)
      then (case cur of None \<Rightarrow> startBlossom H cfg bound | Some _ \<Rightarrow> Running (cur, bound))
      else Running (None, if cur \<noteq> None then stopBlossom cur bound else bound))"

subsection \<open>The backends\<close>

definition localBlossomAddrs :: "config \<Rightarrow> string list" where
  "localBlossomAddrs cfg = (if \<not> bl_Enabled (local_cfg cfg) then [] else [bl_Listen (local_cfg cfg)])"

definition fetcher_of :: "host \<Rightarrow> config \<Rightarrow> fetcher" where
  "fetcher_of H cfg =
     fetch_New
       \<lparr>AllowHTTP = bc_AllowHTTP (cf_Blossom cfg), AllowLoopback = h_loopback H,
        AllowLoopbackAddrs = localBlossomAddrs cfg, MaxBytes = li_MaxBlobBytes (cf_Limits cfg),
        Timeout = Duration (li_FetchTimeoutSeconds (cf_Limits cfg)) Second,
        MaxRedirects = li_MaxRedirects (cf_Limits cfg)\<rparr>"

definition load_catalogue :: "host \<Rightarrow> config \<Rightarrow> catalogue option" where
  "load_catalogue H cfg =
     (if np_CataloguePath (cf_Npk cfg) = [] then None
      else
        (case LoadCatalogue (h_json H) (h_catalogue H (np_CataloguePath (cf_Npk cfg))) of
           Inl e \<Rightarrow> None | Inr c \<Rightarrow> c))"

definition resolver_of :: "host \<Rightarrow> config \<Rightarrow> resolver" where
  "resolver_of H cfg =
     (let relays = Lookup (cf_Relays cfg) @ Extra (cf_Relays cfg);
          mcache = NewManifestCache (Duration (ManifestTTLSeconds (cf_Relays cfg)) Second)
            (Duration (NegativeTTLSeconds (cf_Relays cfg)) Second)
      in rs_New relays mcache {} (li_MaxPathsPerManifest (cf_Limits cfg)) [load_catalogue H cfg])"

definition open_bundles :: "host \<Rightarrow> config \<Rightarrow> fsys \<Rightarrow> (fsys \<times> bundle_store option) outcome" where
  "open_bundles H cfg fs =
     (if \<not> np_Enabled (cf_Npk cfg) then Running (fs, None)
      else
        (case NewBundleStore (h_os H) (np_CachePath (cf_Npk cfg)) fs of
           (fs', Inl e) \<Rightarrow> Exited 1
         | (fs', Inr st) \<Rightarrow> Running (fs', Some st)))"

definition applyBackends :: "host \<Rightarrow> config \<Rightarrow> server \<Rightarrow> server outcome" where
  "applyBackends H cfg srv =
     (case NewBlobStore (h_cache_mkdir H) (h_cache_entries H) (h_cache_disk H)
             (li_CacheQuotaBytes (cf_Limits cfg)) of
        Inl e \<Rightarrow> Exited 1
      | Inr blobs \<Rightarrow>
          (case open_bundles H cfg (s_fs srv) of
             Exited c \<Rightarrow> Exited c
           | Running (fs', npk) \<Rightarrow>
               Running
                 (srv_Configure
                    \<lparr>be_resolver = Some (resolver_of H cfg), be_fetcher = Some (fetcher_of H cfg),
                     be_blobs = Some blobs, be_npk = npk\<rparr>
                    (srv\<lparr>s_fs := fs'\<rparr>))))"

subsection \<open>Start, reload, stop\<close>

text \<open>\<open>main\<close> up to \<open>srv.Start\<close>; the flag \<^verbatim>\<open>-check-config\<close> ends it after the load.\<close>

definition gw_main :: "ext \<Rightarrow> host \<Rightarrow> bool \<Rightarrow> fsys \<Rightarrow> gateway outcome" where
  "gw_main X H checkOnly fs =
     (case cfg_Load X (h_loopback H) (h_toml H) (h_raw H) of
        Inl e \<Rightarrow> Exited 1
      | Inr cfg \<Rightarrow>
          if checkOnly then Exited 0
          else
            (case srv_New X cfg fs of
               None \<Rightarrow> Exited 2
             | Some srv \<Rightarrow>
                 (case applyBackends H cfg srv of
                    Exited c \<Rightarrow> Exited c
                  | Running srv' \<Rightarrow>
                      (case startBlossom H cfg {} of
                         Exited c \<Rightarrow> Exited c
                       | Running (bs, bound) \<Rightarrow>
                           Running \<lparr>gw_srv = srv', gw_bs = bs, gw_bound = bound\<rparr>))))"

text \<open>The body of the loop on \<open>SIGHUP\<close>.\<close>

definition sighup :: "ext \<Rightarrow> host \<Rightarrow> gateway \<Rightarrow> gateway outcome" where
  "sighup X H g =
     (case cfg_Load X (h_loopback H) (h_toml H) (h_raw H) of
        Inl e \<Rightarrow> Running g
      | Inr cfg \<Rightarrow>
          (case applyBackends H cfg (srv_Reload X cfg (gw_srv g)) of
             Exited c \<Rightarrow> Exited c
           | Running srv' \<Rightarrow>
               (case reloadBlossom H (gw_bs g) cfg (gw_bound g) of
                  Exited c \<Rightarrow> Exited c
                | Running (bs, bound) \<Rightarrow>
                    Running \<lparr>gw_srv = srv', gw_bs = bs, gw_bound = bound\<rparr>)))"

subsection \<open>What requests leave alone\<close>

text \<open>No request replaces the configuration, the fetcher or the bundle store.\<close>

definition wiring :: "server \<Rightarrow> config \<times> fetcher option \<times> bundle_store option" where
  "wiring s = (s_cfg s, be_fetcher (s_be s), be_npk (s_be s))"

lemma wiring_updates [simp]:
  "wiring (inc h s) = wiring s" "wiring (inc_class h cls s) = wiring s" "wiring (observe hg n s) = wiring s"
  "wiring (set_blobs b s) = wiring s" "wiring (set_resolver rs s) = wiring s" "wiring (s\<lparr>s_fs := fs\<rparr>) = wiring s"
  by (auto simp: wiring_def inc_def inc_class_def observe_def set_blobs_def set_resolver_def
      split: option.splits prod.splits)

lemma wiring_serveBytes [simp]: "wiring (snd (serveBytes X r sha ct data code s)) = wiring s"
  by (simp add: serveBytes_def Let_def)

lemma wiring_serveCached [simp]: "wiring (snd (serveCached X E r b sha ct code s)) = wiring s"
proof (cases "bs_Open (en_open E) (en_now E) sha b")
  case (Pair f b')
  then show ?thesis by (cases f) (simp_all add: serveCached_def)
qed

lemma wiring_serveBlob [simp]: "wiring (snd (serveBlob X E r ev sha ct code s)) = wiring s"
  by (simp add: serveBlob_def Let_def split: option.split sum.split)

lemma wiring_serveFromNpk [simp]: "wiring (snd (serveFromNpk X E r rs npk st ev sha path code s)) = wiring s"
proof -
  define name where "name = (if st = SiteNamed then namedSiteD ev else NameRoot)"
  obtain res rs1 where rel: "rs_Release X (en_pools E 1) (en_clocks E 1) (ev_pubkey ev) name rs = (res, rs1)"
    by force
  have page: "wiring (snd (case serveBytes X r sha path data code t of (p, u) \<Rightarrow> (Some p, u))) = wiring t" for data t
    using wiring_serveBytes by (simp add: split_beta)
  note unfolded = serveFromNpk_def [of X E r rs npk st ev sha path code s, folded name_def, unfolded rel Let_def]
  show ?thesis
  proof (cases "\<exists>r1. res = Inr (Some r1)")
    case False
    then show ?thesis by (cases res) (auto simp: unfolded split: option.splits)
  next
    case True
    then obtain r1 where some: "res = Inr (Some r1)" by blast
    define s1 where "s1 = set_resolver rs1 s"
    have w1: "wiring s1 = wiring s" by (simp add: s1_def)
    note opened = unfolded [unfolded some prod.case sum.case option.case, folded s1_def]
    show ?thesis
    proof (cases "bd_Has npk (SHA256 r1) (s_fs s1)")
      case True
      then show ?thesis
        by (cases "bd_Open (en_os E) npk (SHA256 r1) path (s_fs s1)") (simp_all add: opened page w1)
    next
      case False
      note fetching = opened [unfolded if_not_P [OF False]]
      show ?thesis
      proof (cases "fetchFirst X (be_fetcher (s_be s1)) (en_nets E 0)
          (servers_for (en_pools E 2) (Some rs1) ev) (SHA256 r1)")
        case (Inl e)
        then show ?thesis by (simp add: fetching w1)
      next
        case (Inr data)
        obtain fs' u where "Unpack X (en_os E) (en_archive E) npk (SHA256 r1) data (s_fs s1) = (fs', u)" by force
        with Inr show ?thesis
          by (cases u; cases "bd_Open (en_os E) npk (SHA256 r1) path fs'") (simp_all add: fetching page w1)
      qed
    qed
  qed
qed

lemma wiring_serveSite [simp]: "wiring (snd (serveSite X E r st pk d path s)) = wiring s"
proof (cases "be_resolver (s_be s)")
  case (Some rs)
  obtain res rs1 where ask: "rs_Manifest X (en_pools E 0) (en_clocks E 0) st pk d [] rs = (res, rs1)" by force
  note unfolded = serveSite_def [of X E r st pk d path s, unfolded Some ask Let_def option.case]
  show ?thesis
  proof (cases "\<exists>ev. res = Inr (Some ev)")
    case False
    then show ?thesis by (cases res) (auto simp: unfolded split: option.splits)
  next
    case True
    then obtain ev where some: "res = Inr (Some ev)" by blast
    define s1 where "s1 = set_resolver rs1 s"
    note opened = unfolded [unfolded some prod.case sum.case option.case, folded s1_def]
    have w1: "wiring s1 = wiring s" by (simp add: s1_def)
    show ?thesis
    proof (cases "lookup_path (path_map (ev_tags ev)) path")
      case None
      then show ?thesis by (simp add: opened w1)
    next
      case (Some hit)
      obtain sha path' code where hit: "hit = (sha, path', code)" by (cases hit) auto
      show ?thesis
      proof (cases "be_npk (s_be s1)")
        case None
        with Some hit show ?thesis by (simp add: opened w1)
      next
        case (Some npk)
        obtain a t where "serveFromNpk X E r rs1 npk st ev sha path' code s1 = (a, t)" by force
        moreover from this have "wiring t = wiring s1" using wiring_serveFromNpk by (metis snd_conv)
        ultimately show ?thesis
          using Some \<open>_ = Some hit\<close> hit by (cases a) (simp_all add: opened w1)
      qed
    qed
  qed
qed (simp add: serveSite_def)

lemma wiring_handlePublic [simp]: "wiring (snd (handlePublic X E r s)) = wiring s"
  by (simp add: handlePublic_def reject_def split: option.split prod.split)


subsection \<open>The process as a state machine\<close>

text \<open>A step is a request on one of the three listeners or a \<open>SIGHUP\<close> the process survives.\<close>

inductive gw_step ::
  "ext \<Rightarrow> (bytes \<Rightarrow> string + event) \<Rightarrow> (bl_request \<Rightarrow> response) \<Rightarrow> 'r archive \<Rightarrow> (host \<Rightarrow> fsys \<Rightarrow> bool) \<Rightarrow>
     gateway \<Rightarrow> gateway \<Rightarrow> bool"
  for X J redirect A ok where
    public: "env_ok A E \<Longrightarrow> handlePublic X E r (gw_srv g) = (resp, s') \<Longrightarrow>
      gw_step X J redirect A ok g (g\<lparr>gw_srv := s'\<rparr>)"
  | internal: "env_ok A E \<Longrightarrow> handleInternal X E r (gw_srv g) = (resp, s') \<Longrightarrow>
      gw_step X J redirect A ok g (g\<lparr>gw_srv := s'\<rparr>)"
  | local: "gw_bs g = Some b \<Longrightarrow> bl_Handler X J redirect io r (ls_store b) = (resp, st') \<Longrightarrow>
      gw_step X J redirect A ok g (g\<lparr>gw_bs := Some (b\<lparr>ls_store := st'\<rparr>)\<rparr>)"
  | hup: "ok H (s_fs (gw_srv g)) \<Longrightarrow> sighup X H g = Running g' \<Longrightarrow>
      gw_step X J redirect A ok g g'"

inductive gw_reach ::
  "ext \<Rightarrow> (bytes \<Rightarrow> string + event) \<Rightarrow> (bl_request \<Rightarrow> response) \<Rightarrow> 'r archive \<Rightarrow> (host \<Rightarrow> fsys \<Rightarrow> bool) \<Rightarrow>
     gateway \<Rightarrow> bool"
  for X J redirect A ok where
    boot: "ok H fs \<Longrightarrow> gw_main X H False fs = Running g \<Longrightarrow> gw_reach X J redirect A ok g"
  | more: "gw_reach X J redirect A ok g \<Longrightarrow> gw_step X J redirect A ok g g' \<Longrightarrow> gw_reach X J redirect A ok g'"

inductive_cases gw_stepE: "gw_step X J redirect A ok g g'"

lemma applyBackends_Running:
  assumes "applyBackends H cfg srv = Running srv'"
  obtains be fs' blobs where "srv' = srv_Configure be (srv\<lparr>s_fs := fs'\<rparr>)"
    "be_fetcher be = Some (fetcher_of H cfg)" "be_blobs be = Some blobs"
    "NewBlobStore (h_cache_mkdir H) (h_cache_entries H) (h_cache_disk H) (li_CacheQuotaBytes (cf_Limits cfg)) = Inr blobs"
    "open_bundles H cfg (s_fs srv) = Running (fs', be_npk be)"
    "be_resolver be = Some (resolver_of H cfg)"
proof -
  from assms obtain blobs fs' npk where parts:
    "NewBlobStore (h_cache_mkdir H) (h_cache_entries H) (h_cache_disk H) (li_CacheQuotaBytes (cf_Limits cfg)) = Inr blobs"
    "open_bundles H cfg (s_fs srv) = Running (fs', npk)"
    "srv' = srv_Configure \<lparr>be_resolver = Some (resolver_of H cfg), be_fetcher = Some (fetcher_of H cfg),
       be_blobs = Some blobs, be_npk = npk\<rparr> (srv\<lparr>s_fs := fs'\<rparr>)"
    by (auto simp: applyBackends_def split: sum.splits outcome.splits prod.splits)
  show thesis by (rule that [OF parts(3)]) (use parts(1,2) in simp_all)
qed

lemma sighup_Running:
  assumes "sighup X H g = Running g'"
  obtains (kept) e where "cfg_Load X (h_loopback H) (h_toml H) (h_raw H) = Inl e" "g' = g"
  | (reloaded) cfg srv' bs bound where "cfg_Load X (h_loopback H) (h_toml H) (h_raw H) = Inr cfg"
      "applyBackends H cfg (srv_Reload X cfg (gw_srv g)) = Running srv'"
      "reloadBlossom H (gw_bs g) cfg (gw_bound g) = Running (bs, bound)"
      "g' = \<lparr>gw_srv = srv', gw_bs = bs, gw_bound = bound\<rparr>"
  using assms by (auto simp: sighup_def split: sum.splits outcome.splits prod.splits)

lemma gw_main_Running:
  assumes "gw_main X H c fs = Running g"
  obtains cfg srv srv' bs bound where "cfg_Load X (h_loopback H) (h_toml H) (h_raw H) = Inr cfg"
    "srv_New X cfg fs = Some srv" "applyBackends H cfg srv = Running srv'"
    "startBlossom H cfg {} = Running (bs, bound)" "g = \<lparr>gw_srv = srv', gw_bs = bs, gw_bound = bound\<rparr>"
  using assms by (auto simp: gw_main_def split: sum.splits option.splits outcome.splits prod.splits if_splits)

lemma Load_valid: "cfg_Load X loopback toml raw = Inr cfg \<Longrightarrow> cfg_Validate X loopback cfg = None"
  using load_validates by blast

lemma startBlossom_Running:
  "startBlossom H cfg bound = Running (bs, bound') \<Longrightarrow>
     if bl_Enabled (local_cfg cfg)
     then \<exists>b. bs = Some b \<and> ls_addr b = bl_Listen (local_cfg cfg) \<and> bound' = insert (ls_addr b) bound
     else bs = None \<and> bound' = bound"
  by (auto simp: startBlossom_def Let_def split: if_splits sum.splits)

lemma reloadBlossom_Running:
  assumes "reloadBlossom H cur cfg bound = Running (bs, bound')"
    and "bound = (case cur of None \<Rightarrow> {} | Some b \<Rightarrow> {ls_addr b})"
  shows "(bs \<noteq> None \<longleftrightarrow> bl_Enabled (local_cfg cfg)) \<and> bound' = (case bs of None \<Rightarrow> {} | Some b \<Rightarrow> {ls_addr b})"
proof (cases "bl_Enabled (local_cfg cfg)")
  case True
  show ?thesis
  proof (cases cur)
    case None
    with assms True have "startBlossom H cfg {} = Running (bs, bound')" by (simp add: reloadBlossom_def)
    from startBlossom_Running [OF this] True show ?thesis by auto
  qed (use assms True in \<open>auto simp: reloadBlossom_def\<close>)
next
  case False
  then show ?thesis
    using assms by (cases cur) (auto simp: reloadBlossom_def stopBlossom_def)
qed

subsection \<open>The invariant of the process\<close>

text \<open>The configuration in force was accepted; the local server runs exactly when it enables it,
  and its address is the only one bound; and the fetcher allows no loopback address but the
  one configured for it (unless the test bed's variable was set).\<close>

definition gw_inv :: "ext \<Rightarrow> gateway \<Rightarrow> bool" where
  "gw_inv X g \<longleftrightarrow>
     (let cfg = s_cfg (gw_srv g)
      in (\<exists>H. cfg_Validate X (h_loopback H) cfg = None \<and>
            be_fetcher (s_be (gw_srv g)) = Some (fetcher_of H cfg)) \<and>
         (gw_bs g \<noteq> None \<longleftrightarrow> bl_Enabled (local_cfg cfg)) \<and>
         gw_bound g = (case gw_bs g of None \<Rightarrow> {} | Some b \<Rightarrow> {ls_addr b}))"

lemma gw_inv_boot:
  assumes "gw_main X H c fs = Running g"
  shows "gw_inv X g"
proof -
  obtain cfg srv srv' bs bound where run: "cfg_Load X (h_loopback H) (h_toml H) (h_raw H) = Inr cfg"
      "srv_New X cfg fs = Some srv" "applyBackends H cfg srv = Running srv'"
      "startBlossom H cfg {} = Running (bs, bound)" "g = \<lparr>gw_srv = srv', gw_bs = bs, gw_bound = bound\<rparr>"
    using gw_main_Running [OF assms] by metis
  obtain be fs' where be: "srv' = srv_Configure be (srv\<lparr>s_fs := fs'\<rparr>)" "be_fetcher be = Some (fetcher_of H cfg)"
    using applyBackends_Running [OF run(3)] by metis
  have "s_cfg srv = cfg" using srv_New_Some [of X cfg fs] run(2) by auto
  with be have "s_cfg srv' = cfg" "be_fetcher (s_be srv') = Some (fetcher_of H cfg)" by simp_all
  with run Load_valid [OF run(1)] startBlossom_Running [OF run(4)] show ?thesis
    by (auto simp: gw_inv_def Let_def split: if_splits option.splits)
qed

lemma gw_inv_hup:
  assumes "gw_inv X g" and "sighup X H g = Running g'"
  shows "gw_inv X g'"
  using assms(2)
proof (cases rule: sighup_Running)
  case (reloaded cfg srv' bs bound)
  obtain be fs' where be: "srv' = srv_Configure be ((srv_Reload X cfg (gw_srv g))\<lparr>s_fs := fs'\<rparr>)"
      "be_fetcher be = Some (fetcher_of H cfg)"
    using applyBackends_Running [OF reloaded(2)] by metis
  then have "s_cfg srv' = cfg" "be_fetcher (s_be srv') = Some (fetcher_of H cfg)"
    by (simp_all add: srv_Reload_def)
  moreover have "(bs \<noteq> None \<longleftrightarrow> bl_Enabled (local_cfg cfg)) \<and>
      bound = (case bs of None \<Rightarrow> {} | Some b \<Rightarrow> {ls_addr b})"
    using reloadBlossom_Running [OF reloaded(3)] assms(1) by (simp add: gw_inv_def Let_def)
  ultimately show ?thesis
    using reloaded(4) Load_valid [OF reloaded(1)] by (auto simp: gw_inv_def Let_def)
qed (use assms(1) in simp)

lemma gw_inv_wiring:
  "wiring s' = wiring (gw_srv g) \<Longrightarrow> gw_inv X (g\<lparr>gw_srv := s'\<rparr>) = gw_inv X g"
  by (simp add: gw_inv_def wiring_def)

lemma gw_inv_step: "gw_inv X g \<Longrightarrow> gw_step X J redirect A ok g g' \<Longrightarrow> gw_inv X g'"
proof (erule gw_stepE)
  fix E r resp s'
  assume inv: "gw_inv X g" and step: "g' = g\<lparr>gw_srv := s'\<rparr>" "handlePublic X E r (gw_srv g) = (resp, s')"
  with wiring_handlePublic [of X E r "gw_srv g"] show "gw_inv X g'" by (simp add: gw_inv_wiring)
next
  fix E r resp s'
  assume inv: "gw_inv X g" and step: "g' = g\<lparr>gw_srv := s'\<rparr>" "handleInternal X E r (gw_srv g) = (resp, s')"
  with handleInternal_state [of X E r "gw_srv g"] show "gw_inv X g'" by simp
next
  fix b io r resp st'
  assume "gw_inv X g" "g' = g\<lparr>gw_bs := Some (b\<lparr>ls_store := st'\<rparr>)\<rparr>" "gw_bs g = Some b"
  then show "gw_inv X g'" by (simp add: gw_inv_def)
next
  fix H assume "gw_inv X g" "sighup X H g = Running g'"
  then show "gw_inv X g'" by (rule gw_inv_hup)
qed

lemma gw_reach_inv: "gw_reach X J redirect A ok g \<Longrightarrow> gw_inv X g"
  by (induction rule: gw_reach.induct) (auto intro: gw_inv_boot gw_inv_step)


subsection \<open>The process runs the server\<close>

text \<open>What the directories hold when the process opens them: a blob cache listed as it is, of
  authentic blobs; and, when packages are enabled, a clean absolute bundle directory, which need
  not exist, any file in which is an authentic archive member. It may differ from one
  configuration to the next. That an entry on the way has a directory for a parent is what
  any file system guarantees.\<close>

definition host_ok :: "ext \<Rightarrow> 'r archive \<Rightarrow> host \<Rightarrow> fsys \<Rightarrow> bool" where
  "host_ok X A H fs \<longleftrightarrow>
     (\<forall>es. h_cache_entries H = Some es \<longrightarrow> dir_ok es (h_cache_disk H)) \<and>
     (\<forall>k b. h_cache_disk H k = Some b \<longrightarrow> hash_hex X b = k) \<and>
     (\<forall>cfg. cfg_Load X (h_loopback H) (h_toml H) (h_raw H) = Inr cfg \<longrightarrow> np_Enabled (cf_Npk cfg) \<longrightarrow>
        (\<exists>ds. normal ds \<and> ds \<noteq> [] \<and> np_CachePath (cf_Npk cfg) = abs_path ds \<and> tree_ok ds fs \<and>
           (\<forall>sha ys p b. isSHA256 sha \<and> ys \<noteq> [] \<and> normal ys \<and>
              fs (abs_path ((ds @ [sha]) @ ys)) = Some (FFile p b) \<longrightarrow> archive_member X A sha (Join ys slash) b)))"

lemma open_bundles_inv:
  assumes "open_bundles H cfg fs = Running (fs', npk)" and "host_ok X A H fs"
    and "cfg_Load X (h_loopback H) (h_toml H) (h_raw H) = Inr cfg"
  shows "\<exists>ds. case npk of None \<Rightarrow> True | Some n \<Rightarrow> store_at ds n \<and> bd_inv X A ds fs'"
proof (cases "np_Enabled (cf_Npk cfg)")
  case True
  with assms(2,3) obtain ds where at: "normal ds" "ds \<noteq> []" "np_CachePath (cf_Npk cfg) = abs_path ds" "tree_ok ds fs"
    and held: "\<forall>sha ys p b. isSHA256 sha \<and> ys \<noteq> [] \<and> normal ys \<and>
        fs (abs_path ((ds @ [sha]) @ ys)) = Some (FFile p b) \<longrightarrow> archive_member X A sha (Join ys slash) b"
    unfolding host_ok_def by blast
  from assms(1) True at(3) obtain u where made: "MkdirAll (h_os H) (abs_path ds) fs = (fs', Inr u)"
    and npk: "npk = Some \<lparr>npk_dir = abs_path ds\<rparr>"
    by (auto simp: open_bundles_def NewBundleStore_def split: prod.splits sum.splits dest!: lift_os_ok)
  have "fs q = Some (FFile p b)" if "fs' q = Some (FFile p b)" for q p b
    using MkdirAll_frame [OF at(1) made, of q] that by fastforce
  with held have "bd_inv X A ds fs'"
    using MkdirAll_creates [OF at(1,4) made] unfolding bd_inv_def by blast
  then show ?thesis using at(1,2) npk by (auto simp: store_at_def)
qed (use assms(1) in \<open>auto simp: open_bundles_def\<close>)

lemma applyBackends_inv:
  assumes "applyBackends H cfg srv = Running srv'" and "host_ok X A H (s_fs srv)"
    and "cfg_Load X (h_loopback H) (h_toml H) (h_raw H) = Inr cfg"
  shows "\<exists>be ds fs'. srv' = srv_Configure be (srv\<lparr>s_fs := fs'\<rparr>) \<and> be_inv X A ds be fs'"
proof -
  obtain be fs' blobs where parts: "srv' = srv_Configure be (srv\<lparr>s_fs := fs'\<rparr>)" "be_blobs be = Some blobs"
      "NewBlobStore (h_cache_mkdir H) (h_cache_entries H) (h_cache_disk H) (li_CacheQuotaBytes (cf_Limits cfg)) = Inr blobs"
      "open_bundles H cfg (s_fs srv) = Running (fs', be_npk be)"
      "be_resolver be = Some (resolver_of H cfg)"
    using applyBackends_Running [OF assms(1)] by metis
  obtain ds where npk: "case be_npk be of None \<Rightarrow> True | Some n \<Rightarrow> store_at ds n \<and> bd_inv X A ds fs'"
    using open_bundles_inv [OF parts(4) assms(2,3)] by blast
  have quota: "0 \<le> li_CacheQuotaBytes (cf_Limits cfg)"
    using Validate_basic [OF Load_valid [OF assms(3)]] by simp
  have listed: "\<And>es. h_cache_entries H = Some es \<Longrightarrow> dir_ok es (h_cache_disk H)"
    and authentic: "\<forall>k b. h_cache_disk H k = Some b \<longrightarrow> hash_hex X b = k"
    using assms(2) by (auto simp: host_ok_def)
  from NewBlobStore_inv [OF parts(3) quota listed] authentic have "bs_inv blobs \<and> bs_verified X blobs"
    by (auto simp: bs_verified_def)
  moreover have "rs_inv X (resolver_of H cfg)" by (simp add: resolver_of_def Let_def rs_New_inv)
  ultimately have "be_inv X A ds be fs'" using parts(2,5) npk by (simp add: be_inv_def)
  then show ?thesis using parts(1) by blast
qed

lemma gw_step_srv:
  assumes "gw_step X J redirect A (host_ok X A) g g'" and "srv_reach X A (gw_srv g)"
  shows "srv_reach X A (gw_srv g')"
  using assms(1)
proof (cases rule: gw_step.cases)
  case (public E r resp s')
  then show ?thesis using assms(2) srv_reach.steps srv_step.public_step by fastforce
next
  case (internal E r resp s')
  then show ?thesis using assms(2) srv_reach.steps srv_step.internal_step by fastforce
next
  case (hup H)
  from hup(2) show ?thesis
  proof (cases rule: sighup_Running)
    case (reloaded cfg srv' bs bound)
    have "s_fs (srv_Reload X cfg (gw_srv g)) = s_fs (gw_srv g)" by (simp add: srv_Reload_def)
    with applyBackends_inv [OF reloaded(2) _ reloaded(1), of A] hup(1)
    obtain be ds fs' where be: "srv' = srv_Configure be ((srv_Reload X cfg (gw_srv g))\<lparr>s_fs := fs'\<rparr>)"
      "be_inv X A ds be fs'" by auto
    have "srv_reach X A (srv_Reload X cfg (gw_srv g))"
      using assms(2) srv_step.reload_step [OF Load_valid [OF reloaded(1)]] by (rule srv_reach.steps)
    then have "srv_reach X A srv'"
      unfolding be(1) using srv_step.configure_step [OF be(2)] by (rule srv_reach.steps)
    then show ?thesis using reloaded(4) by simp
  qed (use assms(2) in simp)
qed (use assms(2) in simp)

lemma gw_boot_srv:
  assumes "gw_main X H c fs = Running g" and "host_ok X A H fs"
  shows "srv_reach X A (gw_srv g)"
proof -
  obtain cfg srv srv' bs bound where run: "cfg_Load X (h_loopback H) (h_toml H) (h_raw H) = Inr cfg"
      "srv_New X cfg fs = Some srv" "applyBackends H cfg srv = Running srv'"
      "g = \<lparr>gw_srv = srv', gw_bs = bs, gw_bound = bound\<rparr>"
    using gw_main_Running [OF assms(1)] by metis
  have "s_fs srv = fs" using srv_New_Some [of X cfg fs] run(2) by auto
  with applyBackends_inv [OF run(3) _ run(1), of A] assms(2)
  obtain be ds fs' where be: "srv' = srv_Configure be (srv\<lparr>s_fs := fs'\<rparr>)" "be_inv X A ds be fs'" by auto
  have "srv_reach X A srv" using Load_valid [OF run(1)] run(2) by (rule srv_reach.start)
  then have "srv_reach X A srv'"
    unfolding be(1) using srv_step.configure_step [OF be(2)] by (rule srv_reach.steps)
  then show ?thesis using run(4) by simp
qed


subsection \<open>A sample host\<close>

definition sample_host :: host where
  "sample_host =
     \<lparr>h_raw = Some [], h_toml = (\<lambda>cfg b. Some cfg), h_loopback = False, h_now = 0, h_cache_mkdir = True,
      h_cache_entries = Some [], h_cache_disk = Map.empty, h_os = reliable_os, h_json = (\<lambda>_. None),
      h_catalogue = (\<lambda>_. ReadError), h_listen = (\<lambda>_. True), h_bl_mkdir = True, h_bl_names = Some [],
      h_bl_info = (\<lambda>_. True), h_bl_rm = (\<lambda>_. True), h_bl_files = (\<lambda>_. []), h_bl_dirs = (\<lambda>_. {})\<rparr>"

text \<open>The same host with another configuration.\<close>

definition host_of :: "config \<Rightarrow> host" where
  "host_of cfg = sample_host\<lparr>h_toml := \<lambda>_ _. Some cfg\<rparr>"

lemma host_of_simps [simp]:
  "h_loopback (host_of cfg) = False" "h_os (host_of cfg) = reliable_os"
  "fetcher_of (host_of cfg) = fetcher_of sample_host" "host_of cfg\<lparr>h_toml := t\<rparr> = sample_host\<lparr>h_toml := t\<rparr>"
  by (simp_all add: host_of_def sample_host_def fetcher_of_def fun_eq_iff)

lemma host_of_Load:
  "cfg_Validate sample_ext False cfg = None \<Longrightarrow>
     cfg_Load sample_ext (h_loopback (host_of cfg)) (h_toml (host_of cfg)) (h_raw (host_of cfg)) = Inr cfg"
  by (simp add: cfg_Load_def) (simp add: host_of_def sample_host_def)

lemma host_of_backends:
  assumes "open_bundles (host_of cfg) cfg (s_fs srv) = Running (fs', npk)"
  obtains srv' where "applyBackends (host_of cfg) cfg srv = Running srv'" "s_cfg srv' = s_cfg srv"
    "be_fetcher (s_be srv') = Some (fetcher_of sample_host cfg)" "be_npk (s_be srv') = npk" "s_fs srv' = fs'"
proof -
  have "NewBlobStore (h_cache_mkdir (host_of cfg)) (h_cache_entries (host_of cfg)) (h_cache_disk (host_of cfg)) q =
      Inr \<lparr>bs_quota = q, bs_used = 0, bs_sizes = [], bs_last_use = [], bs_disk = Map.empty\<rparr>" for q
    by (simp add: NewBlobStore_def scan_def host_of_def sample_host_def)
  with assms have "applyBackends (host_of cfg) cfg srv = Running (srv_Configure
      \<lparr>be_resolver = Some (resolver_of (host_of cfg) cfg), be_fetcher = Some (fetcher_of sample_host cfg),
       be_blobs = Some \<lparr>bs_quota = li_CacheQuotaBytes (cf_Limits cfg), bs_used = 0, bs_sizes = [],
         bs_last_use = [], bs_disk = Map.empty\<rparr>, be_npk = npk\<rparr> (srv\<lparr>s_fs := fs'\<rparr>))"
    by (simp add: applyBackends_def)
  then show thesis by (rule that) simp_all
qed

lemma host_of_boot:
  assumes "cfg_Validate sample_ext False cfg = None"
    and "open_bundles (host_of cfg) cfg fs = Running (fs', npk)"
    and "startBlossom (host_of cfg) cfg {} = Running (bs, bound)"
  obtains g where "gw_main sample_ext (host_of cfg) False fs = Running g" "s_cfg (gw_srv g) = cfg"
    "be_fetcher (s_be (gw_srv g)) = Some (fetcher_of sample_host cfg)" "be_npk (s_be (gw_srv g)) = npk"
    "s_fs (gw_srv g) = fs'" "gw_bs g = bs"
proof -
  obtain srv where srv: "srv_New sample_ext cfg fs = Some srv" "s_cfg srv = cfg" "s_fs srv = fs"
    using srv_New_Some [of sample_ext cfg fs] by auto
  obtain srv' where "applyBackends (host_of cfg) cfg srv = Running srv'" "s_cfg srv' = cfg"
      "be_fetcher (s_be srv') = Some (fetcher_of sample_host cfg)" "be_npk (s_be srv') = npk" "s_fs srv' = fs'"
    by (rule host_of_backends [of cfg srv fs' npk]) (use assms(2) srv in auto)
  then show thesis
    using srv(1) host_of_Load [OF assms(1)] assms(3)
    by (intro that [of "\<lparr>gw_srv = srv', gw_bs = bs, gw_bound = bound\<rparr>"]) (simp_all add: gw_main_def)
qed

lemma sample_boot:
  obtains g where "gw_main sample_ext (host_of cfg_Defaults) False fs = Running g" "s_cfg (gw_srv g) = cfg_Defaults"
  using host_of_boot [OF Defaults_valid, of fs fs None None "{}"]
  by (auto simp: open_bundles_def startBlossom_def cfg_Defaults_def)

text \<open>Packages enabled, with one bundle directory and then with another; and an enabled local server.\<close>

definition npk_config_at :: "string \<Rightarrow> config" where
  "npk_config_at dir =
     cfg_Defaults\<lparr>cf_Npk := (cf_Npk cfg_Defaults)\<lparr>np_Enabled := True, np_CachePath := dir\<rparr>\<rparr>"

definition local_config_on :: config where
  "local_config_on = cfg_Defaults\<lparr>cf_Blossom := (cf_Blossom cfg_Defaults)\<lparr>bc_Local :=
     (bc_Local (cf_Blossom cfg_Defaults))\<lparr>bl_Enabled := True\<rparr>\<rparr>\<rparr>"

lemma sample_configs_valid:
  "cfg_Validate sample_ext False (npk_config_at ''/npk'') = None"
  "cfg_Validate sample_ext False (npk_config_at ''/new'') = None"
  "cfg_Validate sample_ext False local_config_on = None"
  by code_simp+

lemma one_segment: "abs_path [x] = CHR ''/'' # x"
  by (simp add: abs_path_def)

lemma npk_host_ok:
  assumes "cfg_Validate sample_ext False (npk_config_at (CHR ''/'' # d)) = None" and "normal_seg d"
    and "\<forall>q p b. fs q \<noteq> Some (FFile p b)"
  shows "host_ok sample_ext A (host_of (npk_config_at (CHR ''/'' # d))) fs"
proof -
  let ?H = "host_of (npk_config_at (CHR ''/'' # d))"
  have "h_cache_entries ?H = Some []" "h_cache_disk ?H = Map.empty"
    by (simp_all add: host_of_def sample_host_def)
  moreover have "tree_ok [d] fs" by (auto simp: tree_ok_def Cons_eq_append_conv)
  moreover have "np_CachePath (cf_Npk (npk_config_at (CHR ''/'' # d))) = abs_path [d]"
    by (simp add: npk_config_at_def one_segment)
  ultimately show ?thesis
    using assms(2,3) host_of_Load [OF assms(1)] unfolding host_ok_def
    by (auto simp: dir_ok_def intro!: exI [of _ "[d]"])
qed

lemma npk_open_bundles:
  assumes "normal_seg d" and "\<forall>q p b. fs q \<noteq> Some (FFile p b)"
  shows "\<exists>fs'. open_bundles (host_of (npk_config_at (CHR ''/'' # d))) (npk_config_at (CHR ''/'' # d)) fs =
      Running (fs', Some \<lparr>npk_dir = CHR ''/'' # d\<rparr>) \<and> (\<forall>q p b. fs' q \<noteq> Some (FFile p b))"
proof -
  have "fs (abs_path [d]) = None \<or> fs (abs_path [d]) = Some FDir"
    using assms(2) by (metis fnode.exhaust not_None_eq)
  then have "\<exists>fs'. MkdirAll reliable_os (abs_path ([] @ [d])) fs = (fs', Inr ()) \<and> (\<forall>q p b. fs' q \<noteq> Some (FFile p b))"
    using assms by (subst MkdirAll_step) (auto simp: MkdirAll_root reliable_os_def)
  then show ?thesis
    by (auto simp: open_bundles_def NewBundleStore_def lift_os_def npk_config_at_def one_segment)
qed

lemma npk_off_local: "startBlossom H (npk_config_at d) {} = Running (None, {})"
  by (simp add: startBlossom_def npk_config_at_def cfg_Defaults_def)

subsection \<open>Properties\<close>

text \<open>C4: The process runs the server. From the start, through any requests and any number of reloads,
  each with another configuration, the server inside the process is in a state the server's own
  state machine reaches, so what is shown of every state of that machine holds of the
  process. Requests are whole steps here, relays deliver only what matches their filter, and
  whenever the process opens its directories, at the start or on a reload, they are as
  \<open>host_ok\<close> says: the files in the blob cache have the digests of their names, and a
  bundle directory is a clean absolute path other than the root which holds authentic members
  or does not exist yet; a reload may move it.\<close>

theorem process_simulates_server:
  assumes "gw_reach X json_event redirect A (host_ok X A) g"
  shows "srv_reach X A (gw_srv g)"
  using assms by (induction rule: gw_reach.induct) (blast intro: gw_boot_srv gw_step_srv)+

theorem process_simulates_server_witness:
  "\<exists>s. srv_reach sample_ext sample_archive s \<and> be_npk (s_be s) = Some \<lparr>npk_dir = ''/new''\<rparr>"
proof -
  have seg: "normal_seg ''npk''" "normal_seg ''new''" by (simp_all add: normal_seg_def)
  have empty: "\<forall>q p b. Map.empty q \<noteq> Some (FFile p b)" by simp
  obtain fs1 where fs1: "open_bundles (host_of (npk_config_at ''/npk'')) (npk_config_at ''/npk'') Map.empty =
      Running (fs1, Some \<lparr>npk_dir = ''/npk''\<rparr>)" "\<forall>q p b. fs1 q \<noteq> Some (FFile p b)"
    using npk_open_bundles [OF seg(1) empty] by auto
  obtain g where g: "gw_main sample_ext (host_of (npk_config_at ''/npk'')) False Map.empty = Running g"
      "s_fs (gw_srv g) = fs1" "gw_bs g = None"
    by (rule host_of_boot [OF sample_configs_valid(1) fs1(1) npk_off_local])
  have reach: "gw_reach sample_ext J redirect sample_archive (host_ok sample_ext sample_archive) g" for J redirect
    using npk_host_ok [OF sample_configs_valid(1) seg(1) empty] g(1) by (rule gw_reach.boot)
  let ?cfg = "npk_config_at ''/new''"
  obtain fs2 where fs2: "open_bundles (host_of ?cfg) ?cfg (s_fs (srv_Reload sample_ext ?cfg (gw_srv g))) =
      Running (fs2, Some \<lparr>npk_dir = ''/new''\<rparr>)"
    using npk_open_bundles [OF seg(2) fs1(2)] g(2) by (auto simp: srv_Reload_def)
  obtain srv' where srv': "applyBackends (host_of ?cfg) ?cfg (srv_Reload sample_ext ?cfg (gw_srv g)) = Running srv'"
      "be_npk (s_be srv') = Some \<lparr>npk_dir = ''/new''\<rparr>"
    by (rule host_of_backends [OF fs2])
  have "\<not> bl_Enabled (local_cfg ?cfg)" by (simp add: npk_config_at_def cfg_Defaults_def)
  then have "sighup sample_ext (host_of ?cfg) g = Running \<lparr>gw_srv = srv', gw_bs = None, gw_bound = gw_bound g\<rparr>"
    using host_of_Load [OF sample_configs_valid(2)] srv'(1) g(3)
    by (simp add: sighup_def reloadBlossom_def)
  with npk_host_ok [OF sample_configs_valid(2) seg(2)] fs1(2) g(2)
  have "gw_step sample_ext J redirect sample_archive (host_ok sample_ext sample_archive) g
      \<lparr>gw_srv = srv', gw_bs = None, gw_bound = gw_bound g\<rparr>" for J redirect
    by (intro gw_step.hup) auto
  from process_simulates_server [OF gw_reach.more [OF reach this]] srv'(2) show ?thesis by auto
qed

text \<open>C13: The dial policy follows the configuration, exactly. In every state of the process the
  configuration in force is valid, the local Blossom server runs exactly when it is enabled,
  and at most its address is bound; and the fetcher in use may dial an address if and only
  if it has a host and a port and, where the host is an IP literal without a zone, that
  literal is in none of the internal ranges, or it is loopback and the address is the very one
  configured for the enabled local server, or it is loopback and the variable of the test bed
  was set when the backends were built. A literal with a zone, like \<open>fe80::1%eth0\<close>, is
  no IP literal for the code and passes (\<open>zone_bypasses_policy\<close>).\<close>

theorem process_loopback_confined:
  assumes "gw_reach X json_event redirect A ok g" and "cfg = s_cfg (gw_srv g)"
    and "be_fetcher (s_be (gw_srv g)) = Some F"
  shows "(\<exists>loopback. cfg_Validate X loopback cfg = None) \<and>
    (gw_bs g = None \<longleftrightarrow> \<not> bl_Enabled (local_cfg cfg)) \<and> card (gw_bound g) \<le> 1 \<and>
    (checkDialAddr addr (f_allowLoopback F) (f_allowAddrs F) = Inr () \<longleftrightarrow>
      (\<exists>host port. SplitHostPort addr = Inr (host, port) \<and>
        (\<forall>ip. ParseIP host = Some ip \<longrightarrow>
           \<not> internal_ip ip \<or>
           IsLoopback ip \<and> (f_allowLoopback F \<or> bl_Enabled (local_cfg cfg) \<and> addr = bl_Listen (local_cfg cfg)))))"
proof -
  have inv: "gw_inv X g" using assms(1) by (rule gw_reach_inv)
  then obtain H where H: "cfg_Validate X (h_loopback H) cfg = None" "F = fetcher_of H cfg"
    and bound: "gw_bs g = None \<longleftrightarrow> \<not> bl_Enabled (local_cfg cfg)"
      "gw_bound g = (case gw_bs g of None \<Rightarrow> {} | Some b \<Rightarrow> {ls_addr b})"
    using assms(2,3) by (auto simp: gw_inv_def Let_def)
  have allow: "f_allowAddrs F = set (localBlossomAddrs cfg)" by (simp add: H(2) fetcher_of_def fetch_New_def)
  have "checkDialAddr addr (f_allowLoopback F) (f_allowAddrs F) = Inr () \<longleftrightarrow>
      (\<exists>host port. SplitHostPort addr = Inr (host, port) \<and>
        (\<forall>ip. ParseIP host = Some ip \<longrightarrow>
           \<not> internal_ip ip \<or>
           IsLoopback ip \<and> (f_allowLoopback F \<or> bl_Enabled (local_cfg cfg) \<and> addr = bl_Listen (local_cfg cfg))))"
  proof (cases "SplitHostPort addr")
    case (Inr hp)
    obtain host port where hp: "hp = (host, port)" by (cases hp)
    show ?thesis
    proof (cases "ParseIP host")
      case (Some ip)
      then have "forbiddenIP (Some ip) \<longleftrightarrow> internal_ip ip"
        using internal_ip_iff [OF ParseIP_length [OF Some]] ParseIP_length [OF Some]
        by (auto simp: forbiddenIP_def)
      then show ?thesis
        using Inr hp Some by (auto simp: checkDialAddr_def allow localBlossomAddrs_def)
    qed (use Inr hp in \<open>simp add: checkDialAddr_def\<close>)
  qed (simp add: checkDialAddr_def)
  moreover have "card (gw_bound g) \<le> 1" by (simp add: bound(2) split: option.splits)
  ultimately show ?thesis using H(1) bound(1) by blast
qed

theorem process_loopback_confined_witness:
  "\<exists>(g :: gateway) F. be_fetcher (s_be (gw_srv g)) = Some F \<and> gw_bs g \<noteq> None \<and> \<not> f_allowLoopback F \<and>
     checkDialAddr ''127.0.0.1:8197'' (f_allowLoopback F) (f_allowAddrs F) = Inr () \<and>
     checkDialAddr ''127.0.0.1:8198'' (f_allowLoopback F) (f_allowAddrs F) \<noteq> Inr ()"
proof -
  have "open_bundles (host_of local_config_on) local_config_on Map.empty = Running (Map.empty, None)"
    by (simp add: open_bundles_def local_config_on_def cfg_Defaults_def)
  moreover obtain bs bound where "startBlossom (host_of local_config_on) local_config_on {} = Running (bs, bound)"
    by (cases "startBlossom (host_of local_config_on) local_config_on {}")
      (auto simp: startBlossom_def local_config_on_def cfg_Defaults_def host_of_def sample_host_def bl_New_def
        bl_scan_def local_opts_def Let_def split: sum.splits if_splits)
  ultimately obtain g where g: "gw_main sample_ext (host_of local_config_on) False Map.empty = Running g"
      "s_cfg (gw_srv g) = local_config_on"
      "be_fetcher (s_be (gw_srv g)) = Some (fetcher_of sample_host local_config_on)"
    by (rule host_of_boot [OF sample_configs_valid(3)])
  have reach: "gw_reach sample_ext J redirect A (\<lambda>_ _. True) g" for J redirect A
    using TrueI g(1) by (rule gw_reach.boot)
  let ?F = "fetcher_of sample_host local_config_on"
  have off: "\<not> f_allowLoopback ?F" by (simp add: fetcher_of_def fetch_New_def sample_host_def)
  have on: "bl_Enabled (local_cfg local_config_on)" "bl_Listen (local_cfg local_config_on) = ''127.0.0.1:8197''"
    by (simp_all add: local_config_on_def cfg_Defaults_def DefaultBlossomListen_def)
  have addr: "SplitHostPort ''127.0.0.1:8197'' = Inr (''127.0.0.1'', ''8197'')"
    "SplitHostPort ''127.0.0.1:8198'' = Inr (''127.0.0.1'', ''8198'')"
    "map_option (\<lambda>ip. (internal_ip ip, IsLoopback ip)) (ParseIP ''127.0.0.1'') = Some (True, True)"
    by code_simp+
  have "gw_bs g \<noteq> None" "checkDialAddr ''127.0.0.1:8197'' (f_allowLoopback ?F) (f_allowAddrs ?F) = Inr ()"
    using process_loopback_confined [OF reach refl g(3), of "''127.0.0.1:8197''"] g(2) on addr by auto
  moreover have "checkDialAddr ''127.0.0.1:8198'' (f_allowLoopback ?F) (f_allowAddrs ?F) \<noteq> Inr ()"
    using process_loopback_confined [OF reach refl g(3), of "''127.0.0.1:8198''"] g(2) on addr off by auto
  ultimately show ?thesis using g(3) off by blast
qed

subsection \<open>Where the code departs from its comments\<close>

text \<open>A reload that cannot open the new cache directory ends the process: \<open>applyBackends\<close> exits.\<close>

lemma reload_can_exit:
  assumes "cfg_Load X (h_loopback H) (h_toml H) (h_raw H) = Inr cfg" and "\<not> h_cache_mkdir H"
  shows "sighup X H g = Exited 1"
  using assms by (simp add: sighup_def applyBackends_def NewBlobStore_def)

text \<open>A reload with another listen address moves the allowance of the fetcher but not the listener:
  the local server stays where it was, where the fetcher may no longer dial it.\<close>

lemma reload_strands_local_server:
  assumes "gw_bs g = Some b" and "sighup X H g = Running g'"
    and "cfg_Load X (h_loopback H) (h_toml H) (h_raw H) = Inr cfg" and "bl_Enabled (local_cfg cfg)"
    and "bl_Listen (local_cfg cfg) \<noteq> ls_addr b"
  shows "gw_bs g' = Some b" and "be_fetcher (s_be (gw_srv g')) = Some (fetcher_of H cfg)"
    and "ls_addr b \<notin> f_allowAddrs (fetcher_of H cfg)"
proof -
  obtain srv' bs bound where parts: "applyBackends H cfg (srv_Reload X cfg (gw_srv g)) = Running srv'"
      "reloadBlossom H (gw_bs g) cfg (gw_bound g) = Running (bs, bound)"
      "g' = \<lparr>gw_srv = srv', gw_bs = bs, gw_bound = bound\<rparr>"
    using assms(2,3) by (cases rule: sighup_Running) auto
  obtain be fs' where "srv' = srv_Configure be ((srv_Reload X cfg (gw_srv g))\<lparr>s_fs := fs'\<rparr>)"
      "be_fetcher be = Some (fetcher_of H cfg)"
    using applyBackends_Running [OF parts(1)] by metis
  with parts assms(1,4) show "gw_bs g' = Some b" "be_fetcher (s_be (gw_srv g')) = Some (fetcher_of H cfg)"
    by (simp_all add: reloadBlossom_def)
  show "ls_addr b \<notin> f_allowAddrs (fetcher_of H cfg)"
    using assms(4,5) by (simp add: fetcher_of_def fetch_New_def localBlossomAddrs_def)
qed

text \<open>The allowance is compared with the dialled address, which has an IP literal for a host; a listen
  address \<^verbatim>\<open>localhost:port\<close>, which \<open>Validate\<close> accepts, never matches.\<close>

lemma localhost_allowance_useless:
  "isLoopbackHost sample_ext ''localhost''"
  "checkDialAddr ''127.0.0.1:8197'' False {''localhost:8197''} \<noteq> Inr ()"
  by code_simp+

text \<open>The retention in days is multiplied as a 64-bit number of nanoseconds: 213504 days become less
  than half an hour, and 200000 days a negative window, which keeps blobs forever.\<close>

lemma retention_wraps:
  "0 < Duration (213504 * 24) Hour" "2 * Duration (213504 * 24) Hour < Hour"
  "Duration (200000 * 24) Hour < 0"
  by (simp_all add: Duration_def signed_take_bit_eq_take_bit_shift take_bit_eq_mod)

end
