(* ===== verification/Uploads.thy ===== *)
theory Uploads
  imports BlossomHttp
begin

section \<open>Uploads that overlap on the local Blossom server\<close>

text \<open>
  Each request to the local server runs in a goroutine of its own. \<open>Put\<close> checks its arguments,
  reads the body and compares the digest with no lock; from the look at the directory to the
  charge of the counter it holds the mutex, while \<open>WriteFile\<close> creates the file and fills it
  piece by piece. \<open>Get\<close> takes no lock, so it may see a file that is being written. The sweep
  runs before the server listens and overlaps nothing.

  The store under overlapping uploads is the store under the same uploads one after the other,
  in the order in which they end; no upload blocks the others for good; and what a download
  gets is the blob or, while it is being written, a prefix of it.
\<close>

subsection \<open>One upload as a thread\<close>

record upload =
  up_digest :: string
  up_stream :: body_stream
  up_auth :: "event option"
  up_stat :: bool
  up_write :: write_result
  up_now :: int

text \<open>The phases of \<open>Put\<close>: before the checks, waiting for the mutex with the body, holding it, holding
  it with so many bytes written, and ended with its result.\<close>

datatype put_phase =
    UCheck
  | ULock bytes
  | UHeld bytes
  | UWrite bytes nat
  | UDone "bl_error + int"

definition put_check :: "ext \<Rightarrow> upload \<Rightarrow> blossom_srv \<Rightarrow> put_phase" where
  "put_check X u s =
     (if \<not> validSHA (up_digest u) then UDone (Inl InvalidSha)
      else
        (case authorize X s (up_auth u) (up_digest u) of
           Some e \<Rightarrow> UDone (Inl e)
         | None \<Rightarrow>
             (case read_upload (bl_maxBlob s) (up_stream u) of
                Inl e \<Rightarrow> UDone (Inl e)
              | Inr data \<Rightarrow>
                  if hash_hex X data \<noteq> up_digest u then UDone (Inl (UploadMismatch (up_digest u)))
                  else ULock data)))"

definition put_held :: "upload \<Rightarrow> bytes \<Rightarrow> blossom_srv \<Rightarrow> put_phase \<times> blossom_srv" where
  "put_held u data s =
     (if up_stat u \<and> present s (up_digest u) then (UDone (Inr (int (length data))), s)
      else if bl_quota s > 0 \<and> bl_used s + int (length data) > bl_quota s
      then (UDone (Inl (QuotaExceeded (bl_quota s))), s)
      else
        (case (if up_digest u \<in> bl_dirs s then NotOpened ''is a directory'' else up_write u) of
           NotOpened e \<Rightarrow> (UDone (Inl (OsFail e)), s)
         | _ \<Rightarrow> (UWrite data 0, store_file (up_digest u) [] (up_now u) s)))"

text \<open>\<open>WriteFile\<close> writes the next piece, of any length, until the data are through or it fails.\<close>

definition write_limit :: "upload \<Rightarrow> bytes \<Rightarrow> nat" where
  "write_limit u data =
     (case up_write u of Partly n e \<Rightarrow> min n (length data) | _ \<Rightarrow> length data)"

definition put_write :: "nat \<Rightarrow> upload \<Rightarrow> bytes \<Rightarrow> nat \<Rightarrow> blossom_srv \<Rightarrow> put_phase \<times> blossom_srv" where
  "put_write k u data n s =
     (if n < write_limit u data
      then
        (let n' = min (n + Suc k) (write_limit u data)
         in (UWrite data n', store_file (up_digest u) (take n' data) (up_now u) s))
      else
        (case up_write u of
           Partly m e \<Rightarrow> (UDone (Inl (OsFail e)), s)
         | _ \<Rightarrow>
             (UDone (Inr (int (length data))), s\<lparr>bl_used := bl_used s + int (length data)\<rparr>)))"

fun put_move :: "ext \<Rightarrow> nat \<Rightarrow> upload \<Rightarrow> put_phase \<Rightarrow> blossom_srv \<Rightarrow> put_phase \<times> blossom_srv" where
  "put_move X k u UCheck s = (put_check X u s, s)"
| "put_move X k u (ULock data) s = (UHeld data, s)"
| "put_move X k u (UHeld data) s = put_held u data s"
| "put_move X k u (UWrite data n) s = put_write k u data n s"
| "put_move X k u (UDone r) s = (UDone r, s)"

definition holds :: "put_phase \<Rightarrow> bool" where
  "holds p = (case p of UHeld _ \<Rightarrow> True | UWrite _ _ \<Rightarrow> True | _ \<Rightarrow> False)"

definition put_result :: "put_phase \<Rightarrow> (bl_error + int) option" where
  "put_result p = (case p of UDone r \<Rightarrow> Some r | _ \<Rightarrow> None)"

text \<open>Alone, a thread is \<open>Put\<close>.\<close>

definition put_alone :: "ext \<Rightarrow> upload \<Rightarrow> blossom_srv \<Rightarrow> (bl_error + int) \<times> blossom_srv" where
  "put_alone X u s =
     bl_Put X (up_stat u) (up_write u) (up_now u) (up_digest u) (up_stream u) (up_auth u) s"

subsection \<open>Many uploads, one store\<close>

text \<open>The store, the holder of its mutex and the uploads with their phases; \<open>ul_order\<close> (for the
  statements) lists the uploads that have ended, in the order in which they ended.\<close>

record uploads =
  ul_srv :: blossom_srv
  ul_lock :: "nat option"
  ul_calls :: "(upload \<times> put_phase) list"
  ul_order :: "nat list"

abbreviation phase_of :: "uploads \<Rightarrow> nat \<Rightarrow> put_phase" where
  "phase_of w i \<equiv> snd (ul_calls w ! i)"

text \<open>An upload that waits for the mutex can go on when nobody holds it.\<close>

definition put_ready :: "uploads \<Rightarrow> nat \<Rightarrow> bool" where
  "put_ready w i =
     (case phase_of w i of UDone _ \<Rightarrow> False | ULock _ \<Rightarrow> ul_lock w = None | _ \<Rightarrow> True)"

definition run_put :: "ext \<Rightarrow> nat \<Rightarrow> nat \<Rightarrow> uploads \<Rightarrow> uploads" where
  "run_put X k i w =
     (let (u, p) = ul_calls w ! i;
          (p', s) = put_move X k u p (ul_srv w)
      in w\<lparr>ul_srv := s,
           ul_lock := (if holds p' then Some i else if holds p then None else ul_lock w),
           ul_calls := (ul_calls w)[i := (u, p')],
           ul_order := (if put_result p' = None then ul_order w else ul_order w @ [i])\<rparr>)"

inductive lstep :: "ext \<Rightarrow> uploads \<Rightarrow> uploads \<Rightarrow> bool" for X where
    arrive: "lstep X w (w\<lparr>ul_calls := ul_calls w @ [(u, UCheck)]\<rparr>)"
  | run: "i < length (ul_calls w) \<Longrightarrow> put_ready w i \<Longrightarrow> lstep X w (run_put X k i w)"

definition no_uploads :: "blossom_srv \<Rightarrow> uploads" where
  "no_uploads s = \<lparr>ul_srv = s, ul_lock = None, ul_calls = [], ul_order = []\<rparr>"

inductive lreach :: "ext \<Rightarrow> blossom_srv \<Rightarrow> uploads \<Rightarrow> bool" for X s where
    first: "lreach X s (no_uploads s)"
  | further: "lreach X s w \<Longrightarrow> lstep X w w' \<Longrightarrow> lreach X s w'"

text \<open>The store after the listed uploads, one after the other.\<close>

definition settled :: "ext \<Rightarrow> blossom_srv \<Rightarrow> uploads \<Rightarrow> nat list \<Rightarrow> blossom_srv" where
  "settled X s w is = fold (\<lambda>i s. snd (put_alone X (fst (ul_calls w ! i)) s)) is s"

subsection \<open>What a step does\<close>

lemma put_result_None [simp]: "put_result UCheck = None" "put_result (ULock d) = None"
  "put_result (UHeld d) = None" "put_result (UWrite d n) = None" "put_result (UDone r) = Some r"
  by (simp_all add: put_result_def)

lemma holds_simps [simp]: "\<not> holds UCheck" "\<not> holds (ULock d)" "holds (UHeld d)" "holds (UWrite d n)"
  "\<not> holds (UDone r)"
  by (simp_all add: holds_def)

lemma put_check_setup: "kept_setup s s' \<Longrightarrow> put_check X u s' = put_check X u s"
  unfolding put_check_def authorize_def kept_setup_def by (elim conjE) (simp only:)

lemma put_check_result: "(\<exists>d. put_check X u s = ULock d) \<or> (\<exists>r. put_check X u s = UDone r)"
  by (simp add: put_check_def split: option.split sum.split)

lemma alone_refused: "put_check X u s = UDone r \<Longrightarrow> put_alone X u s = (r, s)"
  by (auto simp: put_check_def put_alone_def bl_Put_def split: if_splits option.splits sum.splits)

text \<open>The file is opened for writing.\<close>

definition opens :: "upload \<Rightarrow> bytes \<Rightarrow> blossom_srv \<Rightarrow> bool" where
  "opens u data s \<longleftrightarrow>
     \<not> (up_stat u \<and> present s (up_digest u)) \<and>
     \<not> (bl_quota s > 0 \<and> bl_used s + int (length data) > bl_quota s) \<and>
     up_digest u \<notin> bl_dirs s \<and> (\<forall>e. up_write u \<noteq> NotOpened e)"

lemma take_min: "take (min n (length xs)) xs = take n xs"
  by (simp add: min_def)

lemma alone_held:
  assumes "put_check X u s = ULock data"
  shows "put_alone X u s =
    (if opens u data s
     then (case up_write u of
             Partly m e \<Rightarrow> (Inl (OsFail e), store_file (up_digest u) (take (write_limit u data) data) (up_now u) s)
           | _ \<Rightarrow> (Inr (int (length data)),
               (store_file (up_digest u) data (up_now u) s)\<lparr>bl_used := bl_used s + int (length data)\<rparr>))
     else (the (put_result (fst (put_held u data s))), s))"
proof -
  have "validSHA (up_digest u)" "authorize X s (up_auth u) (up_digest u) = None"
    "read_upload (bl_maxBlob s) (up_stream u) = Inr data" "hash_hex X data = up_digest u"
    using assms by (auto simp: put_check_def split: if_splits option.splits sum.splits)
  then show ?thesis
    by (auto simp: put_alone_def bl_Put_def opens_def put_held_def write_limit_def take_min split: write_result.split)
qed

lemma put_held_opens: "opens u data s \<Longrightarrow> put_held u data s = (UWrite data 0, store_file (up_digest u) [] (up_now u) s)"
  by (auto simp: put_held_def opens_def split: write_result.split)

lemma put_held_refuses: "\<not> opens u data s \<Longrightarrow> \<exists>r. put_held u data s = (UDone r, s)"
  by (auto simp: put_held_def opens_def split: write_result.split)

lemma store_file_twice [simp]: "store_file k d now (store_file k d' now' s) = store_file k d now s"
  by (simp add: store_file_def)

text \<open>The state of the store while an upload holds the mutex, from the settled one.\<close>

fun held_ok :: "upload \<Rightarrow> put_phase \<Rightarrow> blossom_srv \<Rightarrow> blossom_srv \<Rightarrow> bool" where
  "held_ok u (UHeld data) t s \<longleftrightarrow> s = t"
| "held_ok u (UWrite data n) t s \<longleftrightarrow>
     opens u data t \<and> n \<le> write_limit u data \<and> s = store_file (up_digest u) (take n data) (up_now u) t"
| "held_ok u _ t s \<longleftrightarrow> False"

definition checked :: "ext \<Rightarrow> upload \<Rightarrow> put_phase \<Rightarrow> blossom_srv \<Rightarrow> bool" where
  "checked X u p s \<longleftrightarrow>
     (case p of
        ULock data \<Rightarrow> put_check X u s = ULock data
      | UHeld data \<Rightarrow> put_check X u s = ULock data
      | UWrite data n \<Rightarrow> put_check X u s = ULock data
      | _ \<Rightarrow> True)"

lemma checked_setup: "kept_setup s s' \<Longrightarrow> checked X u p s' \<longleftrightarrow> checked X u p s"
  by (simp add: checked_def put_check_setup split: put_phase.split)

lemma held_ok_holds: "held_ok u p t s \<Longrightarrow> holds p"
  by (cases p) simp_all

lemma held_ok_setup: "held_ok u p t s \<Longrightarrow> kept_setup t s"
  by (cases p) (simp_all add: kept_setup_def store_file_def)

text \<open>A step of the holder: it holds on, or it ends and the store is settled again.\<close>

lemma move_held:
  assumes "held_ok u p t s" and "checked X u p t" and "put_move X k u p s = (p', s')"
  shows "(held_ok u p' t s' \<and> checked X u p' t) \<or> (\<exists>r. p' = UDone r \<and> put_alone X u t = (r, s'))"
proof (cases p)
  case (UHeld data)
  then have "put_check X u t = ULock data" "s = t" using assms(1,2) by (simp_all add: checked_def)
  then show ?thesis
    using assms(3) UHeld alone_held [of X u t data] put_held_opens [of u data t] put_held_refuses [of u data t]
    by (cases "opens u data t") (auto simp: checked_def)
next
  case (UWrite data n)
  then have c: "put_check X u t = ULock data" and h: "opens u data t" "n \<le> write_limit u data"
      "s = store_file (up_digest u) (take n data) (up_now u) t"
    using assms(1,2) by (simp_all add: checked_def)
  show ?thesis
  proof (cases "n < write_limit u data")
    case True
    then show ?thesis
      using assms(3) UWrite c h by (auto simp: put_write_def Let_def checked_def)
  next
    case False
    then have n: "n = write_limit u data" using h(2) by simp
    have "up_write u \<noteq> NotOpened e" for e using h(1) by (simp add: opens_def)
    moreover have "bl_used (store_file k d now s) = bl_used s" for k d now and s :: blossom_srv
      by (simp add: store_file_def)
    moreover have "take (write_limit u data) data = data" if "up_write u = Written"
      using that by (simp add: write_limit_def)
    ultimately show ?thesis
      using assms(3) UWrite n h alone_held [OF c]
      by (cases "up_write u") (auto simp: put_write_def)
  qed
qed (use assms(1) in simp_all)

subsection \<open>The invariant of overlapping uploads\<close>

text \<open>The order lists exactly the uploads that have ended; each got the reply it gets in that order;
  the others have passed the checks of their phase; and the store is the settled one, up to
  what the holder of the mutex has done.\<close>

definition ordered :: "uploads \<Rightarrow> bool" where
  "ordered w \<longleftrightarrow>
     distinct (ul_order w) \<and>
     (\<forall>i. i \<in> set (ul_order w) \<longleftrightarrow> i < length (ul_calls w) \<and> put_result (phase_of w i) \<noteq> None)"

definition replied :: "ext \<Rightarrow> blossom_srv \<Rightarrow> uploads \<Rightarrow> nat \<Rightarrow> bool" where
  "replied X s w k \<longleftrightarrow>
     put_result (phase_of w (ul_order w ! k)) =
       Some (fst (put_alone X (fst (ul_calls w ! (ul_order w ! k))) (settled X s w (take k (ul_order w)))))"

definition locked :: "ext \<Rightarrow> blossom_srv \<Rightarrow> uploads \<Rightarrow> bool" where
  "locked X s w \<longleftrightarrow>
     (case ul_lock w of
        None \<Rightarrow> ul_srv w = settled X s w (ul_order w) \<and> (\<forall>i < length (ul_calls w). \<not> holds (phase_of w i))
      | Some i \<Rightarrow> i < length (ul_calls w) \<and>
          held_ok (fst (ul_calls w ! i)) (phase_of w i) (settled X s w (ul_order w)) (ul_srv w) \<and>
          (\<forall>j < length (ul_calls w). j \<noteq> i \<longrightarrow> \<not> holds (phase_of w j)))"

definition linear :: "ext \<Rightarrow> blossom_srv \<Rightarrow> uploads \<Rightarrow> bool" where
  "linear X s w \<longleftrightarrow>
     ordered w \<and> (\<forall>k < length (ul_order w). replied X s w k) \<and>
     (\<forall>i < length (ul_calls w). checked X (fst (ul_calls w ! i)) (phase_of w i) s) \<and> locked X s w"

lemma settled_Nil [simp]: "settled X s w [] = s"
  by (simp add: settled_def)

lemma settled_snoc [simp]:
  "settled X s w (is @ [i]) = snd (put_alone X (fst (ul_calls w ! i)) (settled X s w is))"
  by (simp add: settled_def)

lemma settled_cong:
  "(\<And>i. i \<in> set is \<Longrightarrow> fst (ul_calls w' ! i) = fst (ul_calls w ! i)) \<Longrightarrow> settled X s w' is = settled X s w is"
  unfolding settled_def by (rule fold_cong) simp_all

lemma settled_setup: "kept_setup s (settled X s w is)"
proof (induction "is" rule: rev_induct)
  case (snoc i "is")
  then show ?case
    using kept_setup_trans [OF snoc] bl_Put_setup by (simp add: put_alone_def)
qed simp

text \<open>A step of an upload that may go on, by what it does to the settled store.\<close>

lemma run_cases:
  assumes "linear X s w" and "i < length (ul_calls w)" and "put_ready w i" and "ul_calls w ! i = (u, p)"
    and "put_move X k u p (ul_srv w) = (p', s')" and "t = settled X s w (ul_order w)"
  obtains (holding) "held_ok u p' t s'" "checked X u p' s" "ul_lock w = None \<or> ul_lock w = Some i"
  | (waiting) data where "p' = ULock data" "checked X u p' s" "s' = ul_srv w" "\<not> holds p" "ul_lock w \<noteq> Some i"
  | (ended) r where "p' = UDone r" "put_alone X u t = (r, s')" "holds p" "ul_lock w = Some i"
  | (refused) r where "p' = UDone r" "put_alone X u t = (r, t)" "s' = ul_srv w" "\<not> holds p" "ul_lock w \<noteq> Some i"
proof -
  have ts: "kept_setup s t" by (simp add: assms(6) settled_setup)
  have chk: "checked X u p s" using assms(1,2,4) by (auto simp: linear_def)
  have lock: "ul_lock w = Some i" if "holds p"
    using assms(1,2,4) that by (auto simp: linear_def locked_def split: option.splits)
  show thesis
  proof (cases "holds p")
    case True
    then have "held_ok u p t (ul_srv w)" using assms(1,4,6) lock by (simp add: linear_def locked_def)
    moreover have "checked X u p t" using chk checked_setup [OF ts] by simp
    ultimately show thesis
      using move_held [of u p t "ul_srv w" X k p' s'] assms(5) checked_setup [OF ts] True lock holding ended by metis
  next
    case False
    have free: "ul_lock w \<noteq> Some i"
    proof
      assume "ul_lock w = Some i"
      then have "held_ok u p t (ul_srv w)" using assms(1,4,6) by (simp add: linear_def locked_def)
      then show False using False held_ok_holds by blast
    qed
    have "\<exists>d. p = UCheck \<or> p = ULock d"
      using False assms(3,4) by (cases p) (simp_all add: put_ready_def)
    then obtain d where "p = UCheck \<or> p = ULock d" by blast
    then show thesis
    proof
      assume p: "p = UCheck"
      then have s': "p' = put_check X u (ul_srv w)" "s' = ul_srv w" using assms(5) by auto
      have "kept_setup t (ul_srv w)"
        using assms(1,6) held_ok_setup by (auto simp: linear_def locked_def split: option.splits)
      then have p': "p' = put_check X u t" using s'(1) put_check_setup by blast
      show thesis
        using put_check_result [of X u t]
      proof (elim disjE exE)
        fix data assume "put_check X u t = ULock data"
        then show thesis using waiting [of data] p p' s'(2) free put_check_setup [OF ts] by (simp add: checked_def)
      next
        fix r assume "put_check X u t = UDone r"
        then show thesis using refused [of r] p p' s'(2) free alone_refused by simp
      qed
    next
      assume p: "p = ULock d"
      then have "ul_lock w = None" using assms(3,4) by (simp add: put_ready_def)
      then show thesis
        using holding p assms(1,5,6) chk by (auto simp: linear_def locked_def checked_def)
    qed
  qed
qed

lemma run_put_fields:
  assumes "ul_calls w ! i = (u, p)" and "put_move X k u p (ul_srv w) = (p', s')" and "i < length (ul_calls w)"
  shows "run_put X k i w = w\<lparr>ul_srv := s',
      ul_lock := (if holds p' then Some i else if holds p then None else ul_lock w),
      ul_calls := (ul_calls w)[i := (u, p')],
      ul_order := (if put_result p' = None then ul_order w else ul_order w @ [i])\<rparr>"
    and "fst (ul_calls (run_put X k i w) ! j) = fst (ul_calls w ! j)"
    and "phase_of (run_put X k i w) j = (if j = i then p' else phase_of w j)"
    and "length (ul_calls (run_put X k i w)) = length (ul_calls w)"
    and "settled X s (run_put X k i w) is = settled X s w is"
proof -
  show f: "run_put X k i w = w\<lparr>ul_srv := s',
      ul_lock := (if holds p' then Some i else if holds p then None else ul_lock w),
      ul_calls := (ul_calls w)[i := (u, p')],
      ul_order := (if put_result p' = None then ul_order w else ul_order w @ [i])\<rparr>"
    using assms(1,2) by (simp add: run_put_def)
  show "fst (ul_calls (run_put X k i w) ! j) = fst (ul_calls w ! j)" for j
    using assms(1,3) by (cases "j = i") (simp_all add: f)
  then show "settled X s (run_put X k i w) is = settled X s w is" by (rule settled_cong)
  show "phase_of (run_put X k i w) j = (if j = i then p' else phase_of w j)"
    using assms(3) by (simp add: f)
qed (use assms in \<open>simp add: run_put_def\<close>)

lemma linear_run:
  assumes "linear X s w" and "i < length (ul_calls w)" and "put_ready w i"
  shows "linear X s (run_put X k i w)"
proof -
  let ?w = "run_put X k i w" and ?order = "ul_order w"
  obtain u p p' s' where up: "ul_calls w ! i = (u, p)" "put_move X k u p (ul_srv w) = (p', s')"
    by (metis surj_pair)
  note f = run_put_fields [OF up assms(2)]
  define t where "t = settled X s w ?order"
  have inv: "ordered w" "\<And>k. k < length ?order \<Longrightarrow> replied X s w k" "locked X s w"
    "\<And>i. i < length (ul_calls w) \<Longrightarrow> checked X (fst (ul_calls w ! i)) (phase_of w i) s"
    using assms(1) by (simp_all add: linear_def)
  have unfinished: "put_result p = None"
    using assms(3) up(1) by (cases p) (simp_all add: put_ready_def)
  then have new: "i \<notin> set ?order" using inv(1) up(1) by (simp add: ordered_def)
  have order: "ul_order ?w = (if put_result p' = None then ?order else ?order @ [i])"
    and lock: "ul_lock ?w = (if holds p' then Some i else if holds p then None else ul_lock w)"
    and srv: "ul_srv ?w = s'" by (simp_all add: f(1))
  have call: "fst (ul_calls ?w ! i) = u" "phase_of ?w i = p'" using f(2,3) up(1) by simp_all
  have ordered: "ordered ?w"
    using inv(1) new assms(2) unfinished up(1) by (cases "put_result p' = None") (simp_all add: ordered_def order f(3,4))
  have checks: "\<forall>j < length (ul_calls ?w). checked X (fst (ul_calls ?w ! j)) (phase_of ?w j) s" if "checked X u p' s"
    using inv(4) that up(1) by (simp add: f(2-4))
  have replies: "\<forall>n < length (ul_order ?w). replied X s ?w n"
    if "put_result p' = None \<or> put_result p' = Some (fst (put_alone X u t))"
  proof (intro allI impI)
    fix n assume n: "n < length (ul_order ?w)"
    show "replied X s ?w n"
    proof (cases "n < length ?order")
      case True
      then have "?order ! n \<noteq> i" using new by auto
      then show ?thesis using True inv(2) [OF True] by (simp add: replied_def order nth_append f(2,3,5))
    next
      case False
      then have "n = length ?order" "put_result p' = Some (fst (put_alone X u t))"
        using that n order by (auto split: if_splits)
      then show ?thesis using call by (simp add: replied_def order t_def f(5))
    qed
  qed
  have free: "\<not> holds (phase_of w j)" if "ul_lock w = None \<or> ul_lock w = Some i" "j < length (ul_calls w)" "j \<noteq> i" for j
    using inv(3) that by (auto simp: locked_def)
  have apart: "locked X s ?w" if "\<not> holds p'" "\<not> holds p" "ul_lock w \<noteq> Some i" "s' = ul_srv w"
    "settled X s ?w (ul_order ?w) = t"
  proof (cases "ul_lock w")
    case None
    then show ?thesis using inv(3) that by (simp add: locked_def lock srv f(3,4) t_def)
  next
    case (Some h)
    then have "h \<noteq> i" using that(3) by simp
    then show ?thesis using inv(3) that Some by (simp add: locked_def lock srv f(2-4) t_def)
  qed
  from assms(1-3) up t_def have "checked X u p' s \<and> locked X s ?w \<and>
      (put_result p' = None \<or> put_result p' = Some (fst (put_alone X u t)))"
  proof (cases rule: run_cases)
    case holding
    then have "holds p'" "put_result p' = None" using held_ok_holds by (blast, cases p') auto
    then show ?thesis
      using holding free call assms(2) by (simp add: locked_def lock srv order f(3-5) t_def)
  next
    case (waiting data)
    then show ?thesis using apart by (simp add: order f(5) t_def)
  next
    case (ended r)
    then show ?thesis using free call by (simp add: locked_def lock srv order f(3-5) t_def checked_def)
  next
    case (refused r)
    then have "settled X s ?w (ul_order ?w) = t" using call by (simp add: order f(5) t_def)
    then show ?thesis using refused apart by (simp add: checked_def)
  qed
  then show ?thesis using ordered checks replies by (simp add: linear_def)
qed

lemma linear_arrive:
  assumes "linear X s w"
  shows "linear X s (w\<lparr>ul_calls := ul_calls w @ [(u, UCheck)]\<rparr>)"
proof -
  let ?w = "w\<lparr>ul_calls := ul_calls w @ [(u, UCheck)]\<rparr>"
  have inv: "ordered w" "\<And>k. k < length (ul_order w) \<Longrightarrow> replied X s w k" "locked X s w"
    "\<And>i. i < length (ul_calls w) \<Longrightarrow> checked X (fst (ul_calls w ! i)) (phase_of w i) s"
    using assms by (simp_all add: linear_def)
  have old: "ul_calls ?w ! j = ul_calls w ! j" if "j < length (ul_calls w)" for j
    using that by (simp add: nth_append)
  have ord: "set (ul_order w) \<subseteq> {..< length (ul_calls w)}" using inv(1) by (auto simp: ordered_def)
  have "fst (ul_calls ?w ! j) = fst (ul_calls w ! j)" if "j \<in> set (ul_order w)" for j
    using ord old that by (metis lessThan_iff subsetD)
  then have set: "settled X s ?w is = settled X s w is" if "set is \<subseteq> set (ul_order w)" for "is"
    using that by (intro settled_cong) blast
  have "ordered ?w" using inv(1) by (simp add: ordered_def nth_append less_Suc_eq)
  moreover have "replied X s ?w k" if "k < length (ul_order w)" for k
  proof -
    have "ul_order w ! k < length (ul_calls w)" using ord that nth_mem by blast
    then show ?thesis using inv(2) [OF that] set [OF set_take_subset] by (simp add: replied_def nth_append)
  qed
  moreover have "\<forall>i < length (ul_calls ?w). checked X (fst (ul_calls ?w ! i)) (phase_of ?w i) s"
    using inv(4) by (simp add: nth_append less_Suc_eq checked_def)
  moreover have "locked X s ?w"
    using inv(3) set [OF subset_refl] by (auto simp: locked_def nth_append less_Suc_eq split: option.splits)
  ultimately show ?thesis by (simp add: linear_def)
qed

lemma lreach_linear: "lreach X s w \<Longrightarrow> linear X s w"
proof (induction rule: lreach.induct)
  case first
  then show ?case by (simp add: linear_def no_uploads_def ordered_def locked_def)
next
  case (further w w')
  from further.hyps(2) show ?case
  proof cases
    case (arrive u)
    then show ?thesis using linear_arrive [OF further.IH] by simp
  next
    case (run i k)
    then show ?thesis using linear_run [OF further.IH] by simp
  qed
qed

subsection \<open>An upload ends\<close>

fun put_rank :: "upload \<Rightarrow> put_phase \<Rightarrow> nat" where
  "put_rank u UCheck = 4 + length (fst (up_stream u))"
| "put_rank u (ULock data) = 3 + length data"
| "put_rank u (UHeld data) = 2 + length data"
| "put_rank u (UWrite data n) = 1 + (write_limit u data - n)"
| "put_rank u (UDone r) = 0"

lemma put_check_lock: "put_check X u s = ULock data \<Longrightarrow> data = fst (up_stream u)"
  by (auto simp: put_check_def dest: read_upload_whole split: if_splits option.splits sum.splits)

lemma put_rank_move:
  assumes "put_result p = None"
  shows "put_rank u (fst (put_move X k u p s)) < put_rank u p"
proof (cases p)
  case UCheck
  show ?thesis using put_check_result [of X u s] put_check_lock [of X u s] UCheck by auto
next
  case (UHeld data)
  have "write_limit u data \<le> length data" by (simp add: write_limit_def split: write_result.split)
  then show ?thesis
    using UHeld put_held_opens [of u data s] put_held_refuses [of u data s] by (cases "opens u data s") auto
next
  case (UWrite data n)
  then show ?thesis by (auto simp: put_write_def Let_def split: write_result.split)
qed (use assms in simp_all)

definition puts_left :: "uploads \<Rightarrow> nat" where
  "puts_left w = (\<Sum>(u, p)\<leftarrow>ul_calls w. put_rank u p)"

lemma puts_left_less:
  assumes "i < length (ul_calls w)" and "put_ready w i"
  shows "puts_left (run_put X k i w) < puts_left w"
proof -
  obtain u p where up: "ul_calls w ! i = (u, p)" by force
  then have "put_result p = None" using assms(2) by (cases p) (simp_all add: put_ready_def)
  then have "put_rank u (fst (put_move X k u p (ul_srv w))) < put_rank u p" by (rule put_rank_move)
  then show ?thesis
    using sum_list_update_less [OF assms(1), of "\<lambda>(u, p). put_rank u p" "(u, fst (put_move X k u p (ul_srv w)))"] up
    by (simp add: puts_left_def run_put_def split_beta)
qed

subsection \<open>What the files hold\<close>

text \<open>Each file is a prefix of the blob it is named for, whatever write is cut short or under way.\<close>

definition blob_prefixes :: "ext \<Rightarrow> blossom_srv \<Rightarrow> bool" where
  "blob_prefixes X s \<longleftrightarrow>
     (\<forall>k v. bl_abs s k = Some v \<longrightarrow> (\<exists>data. hash_hex X data = k \<and> prefix (fst v) data))"

lemma put_check_digest: "put_check X u s = ULock data \<Longrightarrow> validSHA (up_digest u) \<and> hash_hex X data = up_digest u"
  by (auto simp: put_check_def split: if_splits option.splits sum.splits)

lemma blob_prefixes_store:
  assumes "blob_prefixes X s" and "validSHA k" and "hash_hex X data = k"
  shows "blob_prefixes X (store_file k (take n data) now s)"
proof -
  have "prefix (take n data) data" by (rule take_is_prefix)
  then show ?thesis using assms by (auto simp: blob_prefixes_def abs_store_file)
qed

lemma blob_prefixes_used [simp]: "blob_prefixes X (bl_used_update f s) \<longleftrightarrow> blob_prefixes X s"
  by (simp add: blob_prefixes_def)

lemma blob_prefixes_alone:
  assumes "blob_prefixes X s"
  shows "blob_prefixes X (snd (put_alone X u s))"
  using put_check_result [of X u s]
proof (elim disjE exE)
  fix r assume "put_check X u s = UDone r"
  then show ?thesis using assms alone_refused by simp
next
  fix data assume c: "put_check X u s = ULock data"
  show ?thesis
    using blob_prefixes_store [OF assms, of "up_digest u" data "length data"]
      blob_prefixes_store [OF assms, of "up_digest u" data] put_check_digest [OF c] alone_held [OF c] assms
    by (auto split: write_result.split)
qed

lemma blob_prefixes_settled: "blob_prefixes X s \<Longrightarrow> blob_prefixes X (settled X s w is)"
  by (induction "is" rule: rev_induct) (simp_all add: blob_prefixes_alone)

lemma blob_prefixes_held:
  "held_ok u p t s \<Longrightarrow> checked X u p t \<Longrightarrow> blob_prefixes X t \<Longrightarrow> blob_prefixes X s"
  by (cases p) (auto simp: checked_def intro: blob_prefixes_store dest: put_check_digest)

text \<open>A file is whole when no write of its digest is cut short or under way.\<close>

definition whole :: "ext \<Rightarrow> string \<Rightarrow> blossom_srv \<Rightarrow> bool" where
  "whole X k s \<longleftrightarrow> (\<forall>v. bl_abs s k = Some v \<longrightarrow> hash_hex X (fst v) = k)"

lemma whole_alone:
  assumes "whole X k s" and "up_digest u = k \<Longrightarrow> \<forall>n e. up_write u \<noteq> Partly n e"
  shows "whole X k (snd (put_alone X u s))"
  using put_check_result [of X u s]
proof (elim disjE exE)
  fix r assume "put_check X u s = UDone r"
  then show ?thesis using assms alone_refused by simp
next
  fix data assume c: "put_check X u s = ULock data"
  show ?thesis
    using put_check_digest [OF c] alone_held [OF c] assms
    by (auto simp: whole_def abs_store_file split: write_result.split)
qed

lemma whole_settled:
  assumes "whole X k s"
    and "\<And>i. i \<in> set is \<Longrightarrow> up_digest (fst (ul_calls w ! i)) = k \<Longrightarrow> \<forall>n e. up_write (fst (ul_calls w ! i)) \<noteq> Partly n e"
  shows "whole X k (settled X s w is)"
  using assms(2) by (induction "is" rule: rev_induct) (simp_all add: assms(1) whole_alone)

lemma whole_held:
  "held_ok u p t s \<Longrightarrow> checked X u p t \<Longrightarrow> up_digest u \<noteq> k \<Longrightarrow> whole X k s \<longleftrightarrow> whole X k t"
  by (cases p) (auto simp: whole_def checked_def abs_store_file dest!: put_check_digest)

lemma verified_prefixes: "bl_verified X s \<Longrightarrow> blob_prefixes X s"
  unfolding bl_verified_def blob_prefixes_def by blast

text \<open>The store between the settled one and the one a step sees.\<close>

lemma lreach_store:
  assumes "lreach X s w" and "t = settled X s w (ul_order w)"
  obtains (free) "ul_lock w = None" "ul_srv w = t"
  | (held) h u p where "ul_lock w = Some h" "h < length (ul_calls w)" "ul_calls w ! h = (u, p)"
      "held_ok u p t (ul_srv w)" "checked X u p t"
proof (cases "ul_lock w")
  case None
  then show thesis using free lreach_linear [OF assms(1)] assms(2) by (simp add: linear_def locked_def)
next
  case (Some h)
  have inv: "linear X s w" using assms(1) by (rule lreach_linear)
  obtain u p where up: "ul_calls w ! h = (u, p)" by force
  have h: "h < length (ul_calls w)" "held_ok u p t (ul_srv w)"
    using inv Some up assms(2) by (simp_all add: linear_def locked_def)
  have "checked X u p s" using inv h(1) up by (auto simp: linear_def)
  then have "checked X u p t" using settled_setup checked_setup assms(2) by blast
  then show thesis using held Some up h by blast
qed

text \<open>The quota holds at every moment, also while a file is being written, when no write fails
  half-way.\<close>

lemma overlapping_uploads_quota:
  assumes "lreach X s w" and "bl_within s" and "spec_used (bl_abs s) \<le> bl_quota s"
    and "\<And>u p n e. (u, p) \<in> set (ul_calls w) \<Longrightarrow> up_write u \<noteq> Partly n e"
  shows "spec_used (bl_abs (ul_srv w)) \<le> bl_quota s"
proof -
  define t where "t = settled X s w (ul_order w)"
  have step: "\<exists>op. snd (put_alone X u s) = bl_step X op s" if "\<And>n e. up_write u \<noteq> Partly n e" for u s
  proof -
    have "up_write u = whole_write (case up_write u of NotOpened e \<Rightarrow> Some e | _ \<Rightarrow> None)"
      using that by (cases "up_write u") (auto simp: whole_write_def)
    then show ?thesis
      by (intro exI [of _ "BlPut (up_stat u) (case up_write u of NotOpened e \<Rightarrow> Some e | _ \<Rightarrow> None)
            (up_now u) (up_digest u) (up_stream u) (up_auth u)"]) (simp only: put_alone_def bl_step.simps)
  qed
  have "bl_within (settled X s w is) \<and> bl_quota (settled X s w is) = bl_quota s \<and>
      spec_used (bl_abs (settled X s w is)) \<le> bl_quota s"
    if "\<forall>i\<in>set is. \<forall>n e. up_write (fst (ul_calls w ! i)) \<noteq> Partly n e" for "is"
    using that
  proof (induction "is" rule: rev_induct)
    case (snoc i "is")
    obtain op where "snd (put_alone X (fst (ul_calls w ! i)) (settled X s w is)) = bl_step X op (settled X s w is)"
      using step snoc.prems by (metis in_set_conv_decomp)
    moreover have "kept_setup (settled X s w is) (bl_step X op (settled X s w is))" by (rule bl_step_setup)
    ultimately show ?case
      using snoc bl_step_bounded [of "settled X s w is" X op] bl_step_slack [of "settled X s w is" X op]
      by (simp add: bl_within_def kept_setup_wf) (simp add: kept_setup_def)
  qed (use assms(2,3) in simp)
  moreover have "\<forall>i\<in>set (ul_order w). \<forall>n e. up_write (fst (ul_calls w ! i)) \<noteq> Partly n e"
    using lreach_linear [OF assms(1)] assms(4) nth_mem by (metis linear_def ordered_def prod.collapse)
  ultimately have t: "bl_within t" "bl_quota t = bl_quota s" "spec_used (bl_abs t) \<le> bl_quota s"
    unfolding t_def by blast+
  from assms(1) t_def show ?thesis
  proof (cases rule: lreach_store)
    case free
    then show ?thesis using t by simp
  next
    case (held h u p)
    show ?thesis
    proof (cases p)
      case (UWrite data n)
      then have k: "validSHA (up_digest u)" "opens u data t" "ul_srv w = store_file (up_digest u) (take n data) (up_now u) t"
        using held put_check_digest by (auto simp: checked_def)
      have "bl_used t + int (length data) \<le> bl_quota t" "spec_used (bl_abs t) \<le> bl_used t"
        using k(2) t(1) by (auto simp: opens_def bl_within_def slack_def)
      then show ?thesis
        using k(1,3) t(2) spec_used_update [of "bl_abs t" "up_digest u" "(take n data, up_now u)"]
        by (auto simp: abs_store_file split: option.splits)
    qed (use held t in auto)
  qed
qed

subsection \<open>A sample run\<close>

text \<open>Two uploads of one blob, run by a schedule; a turn of an upload that has to wait is lost.\<close>

definition scheduled :: "ext \<Rightarrow> nat list \<Rightarrow> uploads \<Rightarrow> uploads" where
  "scheduled X is w =
     fold (\<lambda>i w. if i < length (ul_calls w) \<and> put_ready w i then run_put X 0 i w else w) is w"

lemma lreach_scheduled: "lreach X s w \<Longrightarrow> lreach X s (scheduled X is w)"
proof (induction "is" arbitrary: w)
  case (Cons i "is")
  have "lreach X s (if i < length (ul_calls w) \<and> put_ready w i then run_put X 0 i w else w)"
  proof (cases "i < length (ul_calls w) \<and> put_ready w i")
    case True
    then have "lstep X w (run_put X 0 i w)" by (intro lstep.run) simp_all
    then show ?thesis using True lreach.further [OF Cons.prems] by simp
  next
    case False
    then show ?thesis using Cons.prems by (simp only: if_False)
  qed
  from Cons.IH [OF this] show ?case by (simp add: scheduled_def)
qed (simp add: scheduled_def)

definition sample_call :: upload where
  "sample_call =
     \<lparr>up_digest = up_sha, up_stream = (sample_blob, None), up_auth = Some sample_auth, up_stat = True,
      up_write = Written, up_now = 7\<rparr>"

definition two_uploads :: uploads where
  "two_uploads = \<lparr>ul_srv = sample_srv, ul_lock = None,
     ul_calls = [(sample_call, UCheck), (sample_call, UCheck)], ul_order = []\<rparr>"

lemma two_uploads_reach: "lreach sample_ext sample_srv (scheduled sample_ext is two_uploads)"
proof -
  have "lreach sample_ext sample_srv (((no_uploads sample_srv)\<lparr>ul_calls := ul_calls (no_uploads sample_srv) @
      [(sample_call, UCheck)]\<rparr>)\<lparr>ul_calls := ul_calls ((no_uploads sample_srv)\<lparr>ul_calls :=
      ul_calls (no_uploads sample_srv) @ [(sample_call, UCheck)]\<rparr>) @ [(sample_call, UCheck)]\<rparr>)"
    by (intro lreach.further [OF lreach.further [OF lreach.first lstep.arrive] lstep.arrive])
  then have "lreach sample_ext sample_srv two_uploads" by (simp add: two_uploads_def no_uploads_def)
  then show ?thesis by (rule lreach_scheduled)
qed

text \<open>Both check and wait; the second writes while the first waits, and the first finds the blob
  present.\<close>

definition both_uploads :: uploads where
  "both_uploads = scheduled sample_ext [0, 1, 1, 0, 1, 1, 0, 1, 1, 1, 1, 0, 1, 0, 0] two_uploads"

lemma sample_call_fields: "up_digest sample_call = up_sha" "up_write sample_call = Written"
  "up_now sample_call = 7" "up_stat sample_call"
  by (simp_all add: sample_call_def)

lemma sample_call_check: "put_check sample_ext sample_call sample_srv = ULock ''hello''"
  using sample_authorized sample_digest up_sha_valid
  by (simp add: put_check_def sample_call_def read_upload_def sample_blob_def sample_srv_def)

lemmas sample_run = scheduled_def two_uploads_def sample_srv_def sample_call_fields
  sample_call_check [unfolded sample_srv_def] run_put_def put_ready_def put_held_def put_write_def
  write_limit_def present_def store_file_def

lemma both_uploads_end:
  "ul_order both_uploads = [1, 0]" "ul_lock both_uploads = None"
  "map (put_result \<circ> snd) (ul_calls both_uploads) = [Some (Inr 5), Some (Inr 5)]"
  by (simp_all add: both_uploads_def sample_run)

subsection \<open>Properties\<close>

text \<open>C11: Overlapping uploads are uploads one after the other. Whatever number of \<open>Put\<close> calls run at
  the same time, however their steps and their writes interleave and whatever fails, each call
  that has ended got the result that \<^verbatim>\<open>Put\<close> gives when the calls run one at a time in the order
  in which they ended, and whenever nobody holds the mutex the store, with its files and its
  counter, is the one those calls leave.\<close>

theorem overlapping_uploads_linear:
  assumes "lreach X s w"
  shows "distinct (ul_order w) \<and>
    (\<forall>i. i \<in> set (ul_order w) \<longleftrightarrow> i < length (ul_calls w) \<and> put_result (phase_of w i) \<noteq> None) \<and>
    (\<forall>k < length (ul_order w). put_result (phase_of w (ul_order w ! k)) =
       Some (fst (put_alone X (fst (ul_calls w ! (ul_order w ! k))) (settled X s w (take k (ul_order w)))))) \<and>
    (ul_lock w = None \<longrightarrow> ul_srv w = settled X s w (ul_order w))"
  using lreach_linear [OF assms]
  by (cases "ul_lock w") (simp_all add: linear_def ordered_def replied_def locked_def)

theorem overlapping_uploads_linear_witness:
  "ul_srv both_uploads = settled sample_ext sample_srv both_uploads [1, 0] \<and>
   put_result (phase_of both_uploads 1) = Some (fst (put_alone sample_ext (fst (ul_calls both_uploads ! 1)) sample_srv))"
proof -
  have "lreach sample_ext sample_srv both_uploads" unfolding both_uploads_def by (rule two_uploads_reach)
  note lin = overlapping_uploads_linear [OF this, unfolded both_uploads_end(1,2)]
  then have "\<forall>k < length [1, 0 :: nat]. put_result (phase_of both_uploads ([1, 0] ! k)) =
      Some (fst (put_alone sample_ext (fst (ul_calls both_uploads ! ([1, 0] ! k)))
        (settled sample_ext sample_srv both_uploads (take k [1, 0]))))" by blast
  from spec [OF this, of 0] lin show ?thesis by simp
qed

text \<open>C26: Uploads do not block each other for good. In every reachable state an upload that has not
  ended can take a step, or waits for the mutex while its holder can take one; and no schedule
  runs the uploads that have arrived for ever, in pieces however small.\<close>

theorem overlapping_uploads_end:
  assumes "lreach X s w" and "i < length (ul_calls w)"
  shows "(case put_result (phase_of w i) of
      Some r \<Rightarrow> i \<in> set (ul_order w)
    | None \<Rightarrow> put_ready w i \<or> (\<exists>j. ul_lock w = Some j \<and> j < length (ul_calls w) \<and> put_ready w j)) \<and>
    wf {(w2, w1). \<exists>j k. j < length (ul_calls w1) \<and> put_ready w1 j \<and> w2 = run_put X k j w1}"
proof
  have inv: "linear X s w" using assms(1) by (rule lreach_linear)
  have holder: "j < length (ul_calls w) \<and> put_ready w j" if "ul_lock w = Some j" for j
  proof -
    have "j < length (ul_calls w)" "holds (phase_of w j)"
      using inv that held_ok_holds by (auto simp: linear_def locked_def)
    then show ?thesis by (cases "phase_of w j") (simp_all add: put_ready_def)
  qed
  show "case put_result (phase_of w i) of
      Some r \<Rightarrow> i \<in> set (ul_order w)
    | None \<Rightarrow> put_ready w i \<or> (\<exists>j. ul_lock w = Some j \<and> j < length (ul_calls w) \<and> put_ready w j)"
  proof (cases "put_result (phase_of w i)")
    case None
    then show ?thesis
      using holder by (cases "ul_lock w"; cases "phase_of w i") (simp_all add: put_ready_def)
  next
    case (Some r)
    then show ?thesis using inv assms(2) by (simp add: linear_def ordered_def)
  qed
  show "wf {(w2, w1). \<exists>j k. j < length (ul_calls w1) \<and> put_ready w1 j \<and> w2 = run_put X k j w1}"
    by (rule wf_subset [OF wf_measure [of puts_left]]) (auto intro: puts_left_less)
qed

theorem overlapping_uploads_end_witness:
  "0 \<in> set (ul_order both_uploads) \<and> 1 \<in> set (ul_order both_uploads)"
proof -
  have reach: "lreach sample_ext sample_srv both_uploads" unfolding both_uploads_def by (rule two_uploads_reach)
  have len: "length (ul_calls both_uploads) = 2" using arg_cong [OF both_uploads_end(3), of length] by simp
  have ended: "put_result (phase_of both_uploads i) = Some (Inr 5)" if "i < 2" for i
    using arg_cong [OF both_uploads_end(3), of "\<lambda>rs. rs ! i"] that len by (cases i) (auto simp: less_Suc_eq)
  show ?thesis
    using overlapping_uploads_end [OF reach, of 0] overlapping_uploads_end [OF reach, of 1] ended len by simp
qed

text \<open>C25: What a download gets while uploads run. Every page \<^verbatim>\<open>handleBlob\<close> gives with status 200 has
  a prefix of a blob with the digest asked for as its body; and the whole blob, for \<open>GET\<close>, when
  no upload of that digest is being written or was cut short.\<close>

theorem overlapping_downloads:
  assumes "lreach X s w" and "bl_verified X s"
    and "handleBlob io r (ul_srv w) = resp" and "rp_status resp = 200" and "sha = TrimPrefix (br_path r) ''/''"
  shows "\<exists>data. hash_hex X data = sha \<and> prefix (rp_body resp) data \<and>
    (br_method r = ''GET'' \<and>
     (\<forall>(u, p) \<in> set (ul_calls w). up_digest u = sha \<longrightarrow> \<not> holds p \<and> (\<forall>n e. up_write u \<noteq> Partly n e)) \<longrightarrow>
       rp_body resp = data)"
proof -
  define t where "t = settled X s w (ul_order w)"
  have "\<exists>body. bl_Get (io_read io) (ul_srv w) sha = Inr body \<and>
      rp_body resp = (if br_method r = ''HEAD'' then [] else body)"
    using assms(3-5) by (auto simp: handleBlob_def Let_def not_allowed_def http_Error_def http_NotFound_def
        split: if_splits sum.splits)
  then obtain body m where body: "bl_abs (ul_srv w) sha = Some (body, m)"
      "rp_body resp = (if br_method r = ''HEAD'' then [] else body)"
    by (auto simp: bl_Get_abs)
  have settled: "blob_prefixes X t" using assms(2) verified_prefixes by (simp add: t_def blob_prefixes_settled)
  have whole: "hash_hex X body = sha"
    if "\<forall>(u, p) \<in> set (ul_calls w). up_digest u = sha \<longrightarrow> \<not> holds p \<and> (\<forall>n e. up_write u \<noteq> Partly n e)"
  proof -
    have ord: "i < length (ul_calls w)" if "i \<in> set (ul_order w)" for i
      using lreach_linear [OF assms(1)] that by (simp add: linear_def ordered_def)
    have "whole X sha t"
      unfolding t_def
    proof (rule whole_settled)
      show "whole X sha s" using assms(2) by (simp add: whole_def bl_verified_def)
    next
      fix i assume "i \<in> set (ul_order w)" and k: "up_digest (fst (ul_calls w ! i)) = sha"
      then have "ul_calls w ! i \<in> set (ul_calls w)" using ord by simp
      then show "\<forall>n e. up_write (fst (ul_calls w ! i)) \<noteq> Partly n e"
        using bspec [OF that] k by (simp add: split_beta)
    qed
    from assms(1) t_def have "whole X sha (ul_srv w)"
    proof (cases rule: lreach_store)
      case free
      then show ?thesis using \<open>whole X sha t\<close> by simp
    next
      case (held h u p)
      then have "(u, p) \<in> set (ul_calls w)" using nth_mem by metis
      then have "up_digest u \<noteq> sha" using that held(4) held_ok_holds by fastforce
      then show ?thesis using whole_held [OF held(4,5)] \<open>whole X sha t\<close> by blast
    qed
    then show ?thesis using body(1) by (simp add: whole_def)
  qed
  from assms(1) t_def have "blob_prefixes X (ul_srv w)"
    by (cases rule: lreach_store) (use settled blob_prefixes_held in auto)
  then obtain data where data: "hash_hex X data = sha" "prefix body data"
    using body(1) by (auto simp: blob_prefixes_def)
  show ?thesis
  proof (cases "\<forall>(u, p) \<in> set (ul_calls w). up_digest u = sha \<longrightarrow> \<not> holds p \<and> (\<forall>n e. up_write u \<noteq> Partly n e)")
    case True
    then show ?thesis using whole body(2) by (intro exI [of _ body]) auto
  next
    case False
    then show ?thesis using data body(2) by (intro exI [of _ data]) auto
  qed
qed

theorem overlapping_downloads_witness:
  "\<exists>data. hash_hex sample_ext data = up_sha \<and>
     prefix (rp_body (handleBlob sample_io (blob_request up_sha) (ul_srv both_uploads))) data"
proof -
  have reach: "lreach sample_ext sample_srv both_uploads" unfolding both_uploads_def by (rule two_uploads_reach)
  have clean: "bl_verified sample_ext sample_srv" by (simp add: bl_verified_def bl_abs_def sample_srv_def)
  have "bl_files (ul_srv both_uploads) = [(up_sha, \<lparr>bf_body = ''hello'', bf_mtime = 7\<rparr>)]"
    by (simp add: both_uploads_def sample_run)
  then have ok: "rp_status (handleBlob sample_io (blob_request up_sha) (ul_srv both_uploads)) = 200"
    using up_sha_valid TrimPrefix_append [of "''/''" up_sha]
    by (simp add: handleBlob_def blob_request_def bl_Get_def sample_io_def)
  have "up_sha = TrimPrefix (br_path (blob_request up_sha)) ''/''"
    using TrimPrefix_append [of "''/''" up_sha] by (simp add: blob_request_def)
  from overlapping_downloads [OF reach clean refl ok this] show ?thesis by blast
qed

subsection \<open>Where the code departs from its comments\<close>

text \<open>A download that overlaps the upload of its blob is answered with status 200, the full digest as
  its ETag and an hour of caching, but only with the bytes written so far.\<close>

definition while_writing :: uploads where
  "while_writing = scheduled sample_ext [0, 0, 0, 0, 0] two_uploads"

lemma download_overlaps_upload:
  "lreach sample_ext sample_srv while_writing"
  "handleBlob sample_io (blob_request up_sha) (ul_srv while_writing) =
     \<lparr>rp_status = 200, rp_headers = blob_headers up_sha 2, rp_body = ''he''\<rparr>"
proof -
  show "lreach sample_ext sample_srv while_writing" unfolding while_writing_def by (rule two_uploads_reach)
  have "bl_files (ul_srv while_writing) = [(up_sha, \<lparr>bf_body = ''he'', bf_mtime = 7\<rparr>)]"
    by (simp add: while_writing_def sample_run)
  then show "handleBlob sample_io (blob_request up_sha) (ul_srv while_writing) =
      \<lparr>rp_status = 200, rp_headers = blob_headers up_sha 2, rp_body = ''he''\<rparr>"
    using up_sha_valid TrimPrefix_append [of "''/''" up_sha]
    by (simp add: handleBlob_def blob_request_def bl_Get_def sample_io_def numeral_2_eq_2)
qed

end
