(* ===== verification/Threads.thy ===== *)
theory Threads
  imports Served
begin

section \<open>The public handler as a thread of atomic steps\<close>

text \<open>
  \<^verbatim>\<open>net/http\<close> runs \<open>handlePublic\<close> for each request in a goroutine of its own. Here the handler is
  cut at its lock regions: a phase of \<open>thread\<close> is a point between two of them, and \<open>tstep\<close>
  runs one region (or one call to the outside, which holds no lock) on the server. The write
  of a temporary file in \<open>BlobStore.Put\<close> precedes its lock region and shares nothing, and an
  opened file is immutable, so both belong to one step. \<open>serveFromNpk\<close> is one step.

  Every step brings a request nearer to its end, and a request that takes its steps with
  nothing in between is \<open>handlePublic\<close>.
\<close>

subsection \<open>Threads\<close>

text \<open>What a request asks for, and what is to be served for it: the local variables of
  \<open>handlePublic\<close> and \<open>serveSite\<close>.\<close>

record ask =
  sk_type :: site_type
  sk_pubkey :: string
  sk_d :: string
  sk_path :: string

record target =
  tg_ask :: ask
  tg_event :: event
  tg_sha :: string
  tg_path :: string
  tg_status :: nat

text \<open>The phases. \<open>TDone\<close> keeps the class the request was counted in, with the response.\<close>

datatype thread =
    TArrive
  | TReject
  | TApex
  | TParse
  | TCustom string
  | TAllow site_type string string
  | TCount ask
  | TSite ask
  | TGet ask string nfilter
  | TNeg ask string nfilter
  | TAsk ask string nfilter
  | TStore ask string "event option"
  | TNpk target
  | TBlob target
  | THit target
  | TOpen target
  | TFetch target
  | TFail string
  | TPut target bytes
  | TSend target bytes
  | TDone string response

abbreviation not_found :: thread where
  "not_found \<equiv> TDone ''site'' http_NotFound"

text \<open>\<open>parseHost\<close> up to the lock region that reads the attached domains.\<close>

definition parse_label :: "ext \<Rightarrow> request \<Rightarrow> string \<Rightarrow> thread" where
  "parse_label X r domain =
     (let host = request_host X (rq_host r);
          suf = ''.'' @ domain
      in if host = domain then TReject
         else if \<not> HasSuffix host suf then TCustom host
         else
           (let label = take (length host - length suf) host
            in if length label = 0 \<or> length label > LabelMaxLen then TReject
               else
                 (case DecodeLabel X label of
                    (siteType, hexID, d, ok) \<Rightarrow> if ok then TAllow siteType hexID d else TReject)))"

text \<open>The part of \<open>serveSite\<close> between the manifest and the blob, which takes no lock.\<close>

definition with_manifest :: "ask \<Rightarrow> event \<Rightarrow> server \<Rightarrow> thread" where
  "with_manifest a ev s =
     (case lookup_path (path_map (ev_tags ev)) (sk_path a) of
        None \<Rightarrow> not_found
      | Some (sha, p, code) \<Rightarrow>
          (let g = \<lparr>tg_ask = a, tg_event = ev, tg_sha = sha, tg_path = p, tg_status = code\<rparr>
           in case be_npk (s_be s) of None \<Rightarrow> TBlob g | Some _ \<Rightarrow> TNpk g))"

text \<open>The steps inside \<open>Resolver.Manifest\<close>: a lock region of the manifest cache each.\<close>

definition set_mcache :: "cached manifest_cache \<Rightarrow> resolver \<Rightarrow> server \<Rightarrow> server" where
  "set_mcache m rs s = set_resolver (rs\<lparr>rs_mcache := m\<rparr>) s"

definition get_step :: "int \<Rightarrow> ask \<Rightarrow> string \<Rightarrow> nfilter \<Rightarrow> resolver \<Rightarrow> server \<Rightarrow> thread \<times> server" where
  "get_step now a key f rs s =
     (case mc_Get now key (rs_mcache rs) of
        (Some v, m) \<Rightarrow>
          (case v of CEvent ev \<Rightarrow> with_manifest a ev s | CRelease _ \<Rightarrow> not_found, set_mcache m rs s)
      | (None, m) \<Rightarrow> (TNeg a key f, set_mcache m rs s))"

definition ask_step :: "ext \<Rightarrow> pool \<Rightarrow> ask \<Rightarrow> string \<Rightarrow> nfilter \<Rightarrow> resolver \<Rightarrow> thread" where
  "ask_step X P a key f rs =
     (case newestEvent P (rs_relays rs) f True of
        None \<Rightarrow> TStore a key None
      | Some best \<Rightarrow>
          if v_valid (Validate X best (rs_options rs)) then TStore a key (Some best)
          else TStore a key None)"

definition store_step :: "int \<Rightarrow> ask \<Rightarrow> string \<Rightarrow> event option \<Rightarrow> resolver \<Rightarrow> server \<Rightarrow> thread \<times> server" where
  "store_step now a key found rs s =
     (case found of
        None \<Rightarrow> (not_found, set_mcache (mc_PutNegative now key (rs_mcache rs)) rs s)
      | Some ev \<Rightarrow> (with_manifest a ev s, set_mcache (mc_Put now key (CEvent ev) (rs_mcache rs)) rs s))"

text \<open>The steps of \<open>serveBlob\<close>.\<close>

definition blob_step :: "target \<Rightarrow> server \<Rightarrow> thread" where
  "blob_step g s =
     (case be_blobs (s_be s) of
        None \<Rightarrow> TFetch g
      | Some b \<Rightarrow> if bs_Has b (tg_sha g) then THit g else TFetch g)"

definition open_step :: "'r env \<Rightarrow> target \<Rightarrow> blob_store \<Rightarrow> server \<Rightarrow> thread \<times> server" where
  "open_step E g b s =
     (case bs_Open (en_open E) (en_now E) (tg_sha g) b of
        (Inl e, b') \<Rightarrow> (not_found, set_blobs b' s)
      | (Inr f, b') \<Rightarrow>
          (TSend g (case en_read E of None \<Rightarrow> f | Some n \<Rightarrow> take n f), set_blobs b' s))"

definition fetch_step :: "ext \<Rightarrow> 'r env \<Rightarrow> target \<Rightarrow> server \<Rightarrow> thread" where
  "fetch_step X E g s =
     (case fetchFirst X (be_fetcher (s_be s)) (en_nets E 1)
             (servers_for (en_pools E 3) (be_resolver (s_be s)) (tg_event g)) (tg_sha g) of
        Inl e \<Rightarrow> TFail (ClassifyFetchError (Some e))
      | Inr data \<Rightarrow>
          if length data = 0 then TFail (ClassifyFetchError None)
          else (case be_blobs (s_be s) of None \<Rightarrow> TSend g data | Some _ \<Rightarrow> TPut g data))"

definition put_step :: "ext \<Rightarrow> 'r env \<Rightarrow> target \<Rightarrow> bytes \<Rightarrow> blob_store \<Rightarrow> server \<Rightarrow> server" where
  "put_step X E g data b s =
     set_blobs (snd (bs_Put X (en_put E) (en_rm E) (en_rng E) (en_now E) (tg_sha g) data b)) s"

text \<open>One step of a request. The phases after \<open>TSite\<close> exist only when the resolver is set, \<open>TNpk\<close>
  only with a bundle store, \<open>TOpen\<close> and \<open>TPut\<close> only with a blob cache; a backend that is set
  stays set, so the other branches are never taken.\<close>

fun tstep :: "ext \<Rightarrow> 'r env \<Rightarrow> request \<Rightarrow> thread \<Rightarrow> server \<Rightarrow> thread \<times> server" where
  "tstep X E r TArrive s =
     (if HasPrefix (rq_path r) ''/internal/'' then TReject
      else if isApex X s (rq_host r) then TApex else TParse, s)"
| "tstep X E r TReject s = (TDone ''reject'' http_NotFound, inc (s_reqOther s) s)"
| "tstep X E r TApex s = (TDone ''apex'' serveApex, inc (s_reqApex s) s)"
| "tstep X E r TParse s = (parse_label X r (Domain (s_cfg s)), s)"
| "tstep X E r (TCustom host) s =
     (case map_of (s_custom s) host of
        None \<Rightarrow> TReject | Some cs \<Rightarrow> TAllow (cs_siteType cs) (cs_pubkey cs) (cs_d cs), s)"
| "tstep X E r (TAllow st pk d) s =
     (if \<not> allowlisted s st pk then TReject
      else
        (case normalisePath (rq_path r) of
           None \<Rightarrow> TReject
         | Some path \<Rightarrow> TCount \<lparr>sk_type = st, sk_pubkey = pk, sk_d = d, sk_path = path\<rparr>), s)"
| "tstep X E r (TCount a) s = (TSite a, inc (s_reqSite s) s)"
| "tstep X E r (TSite a) s =
     (case be_resolver (s_be s) of
        None \<Rightarrow> not_found
      | Some rs \<Rightarrow>
          (case keyAndFilter (sk_type a) (sk_pubkey a) (sk_d a) [] of
             Inl e \<Rightarrow> not_found | Inr (key, f) \<Rightarrow> TGet a key f), s)"
| "tstep X E r (TGet a key f) s =
     (case be_resolver (s_be s) of
        None \<Rightarrow> (not_found, s) | Some rs \<Rightarrow> get_step (en_clocks E 0 0) a key f rs s)"
| "tstep X E r (TNeg a key f) s =
     (case be_resolver (s_be s) of
        None \<Rightarrow> not_found
      | Some rs \<Rightarrow>
          if mc_Negative (en_clocks E 0 1) key (rs_mcache rs) then not_found else TAsk a key f, s)"
| "tstep X E r (TAsk a key f) s =
     (case be_resolver (s_be s) of
        None \<Rightarrow> not_found | Some rs \<Rightarrow> ask_step X (en_pools E 0) a key f rs, s)"
| "tstep X E r (TStore a key found) s =
     (case be_resolver (s_be s) of
        None \<Rightarrow> (not_found, s) | Some rs \<Rightarrow> store_step (en_clocks E 0 2) a key found rs s)"
| "tstep X E r (TNpk g) s =
     (case be_resolver (s_be s) of
        None \<Rightarrow> (TBlob g, s)
      | Some rs \<Rightarrow>
          (case be_npk (s_be s) of
             None \<Rightarrow> (TBlob g, s)
           | Some npk \<Rightarrow>
               (case serveFromNpk X E r rs npk (sk_type (tg_ask g)) (tg_event g) (tg_sha g)
                       (tg_path g) (tg_status g) s of
                  (Some p, s') \<Rightarrow> (TDone ''site'' p, s')
                | (None, s') \<Rightarrow> (TBlob g, s'))))"
| "tstep X E r (TBlob g) s = (blob_step g s, s)"
| "tstep X E r (THit g) s = (TOpen g, inc (s_cacheHits s) s)"
| "tstep X E r (TOpen g) s =
     (case be_blobs (s_be s) of None \<Rightarrow> (not_found, s) | Some b \<Rightarrow> open_step E g b s)"
| "tstep X E r (TFetch g) s = (fetch_step X E g s, s)"
| "tstep X E r (TFail cls) s = (not_found, inc_class (s_fetchFailures s) cls s)"
| "tstep X E r (TPut g data) s =
     (TSend g data,
      case be_blobs (s_be s) of None \<Rightarrow> s | Some b \<Rightarrow> put_step X E g data b s)"
| "tstep X E r (TSend g data) s =
     (case serveBytes X r (tg_sha g) (tg_path g) data (tg_status g) s of
        (p, s') \<Rightarrow> (TDone ''site'' p, s'))"
| "tstep X E r (TDone c p) s = (TDone c p, s)"

subsection \<open>A request ends\<close>

text \<open>The steps a thread can still take, at most.\<close>

fun rank :: "thread \<Rightarrow> nat" where
  "rank TArrive = 17"
| "rank TReject = 1"
| "rank TApex = 1"
| "rank TParse = 16"
| "rank (TCustom _) = 15"
| "rank (TAllow _ _ _) = 14"
| "rank (TCount _) = 13"
| "rank (TSite _) = 12"
| "rank (TGet _ _ _) = 11"
| "rank (TNeg _ _ _) = 10"
| "rank (TAsk _ _ _) = 9"
| "rank (TStore _ _ _) = 8"
| "rank (TNpk _) = 7"
| "rank (TBlob _) = 6"
| "rank (THit _) = 5"
| "rank (TOpen _) = 4"
| "rank (TFetch _) = 3"
| "rank (TFail _) = 1"
| "rank (TPut _ _) = 2"
| "rank (TSend _ _) = 1"
| "rank (TDone _ _) = 0"

definition answered :: "thread \<Rightarrow> response option" where
  "answered t = (case t of TDone c p \<Rightarrow> Some p | _ \<Rightarrow> None)"

abbreviation finished :: "thread \<Rightarrow> bool" where
  "finished t \<equiv> answered t \<noteq> None"

lemma rank_finished: "rank t = 0 \<longleftrightarrow> finished t"
  by (cases t) (simp_all add: answered_def)

lemma rank_with_manifest: "rank (with_manifest a ev s) \<le> 7"
  by (simp add: with_manifest_def Let_def split: option.split)

lemma rank_parse_label: "rank (parse_label X r domain) \<le> 15"
  by (simp add: parse_label_def Let_def split: prod.split)

lemmas step_defs = get_step_def ask_step_def store_step_def blob_step_def open_step_def fetch_step_def

lemma rank_tstep:
  assumes "\<not> finished t"
  shows "rank (fst (tstep X E r t s)) < rank t"
proof -
  note [simp] = order.strict_trans1 [OF rank_with_manifest] order.strict_trans1 [OF rank_parse_label]
  show ?thesis
    using assms
    by (cases t) (simp_all add: answered_def step_defs split: option.split sum.split prod.split cached.split)
qed

text \<open>A request run to its end with nothing in between.\<close>

function finish :: "ext \<Rightarrow> 'r env \<Rightarrow> request \<Rightarrow> thread \<Rightarrow> server \<Rightarrow> response \<times> server" where
  "finish X E r t s =
     (case answered t of
        Some p \<Rightarrow> (p, s)
      | None \<Rightarrow> (case tstep X E r t s of (t', s') \<Rightarrow> finish X E r t' s'))"
  by pat_completeness auto
termination
proof (relation "measure (\<lambda>(X, E, r, t, s). rank t)")
  fix X :: ext and E :: "'r env" and r t s t' s'
  assume "answered t = None" and "(t', s') = tstep X E r t s"
  then show "((X, E, r, t', s'), X, E, r, t, s) \<in> measure (\<lambda>(X, E, r, t, s). rank t)"
    using rank_tstep [of t X E r s] by (cases "tstep X E r t s") simp
qed simp

declare finish.simps [simp del]

lemma finish_Done [simp]: "finish X E r (TDone c p) s = (p, s)"
  by (simp add: finish.simps answered_def)

lemma finish_step:
  "\<not> finished t \<Longrightarrow> finish X E r t s = (case tstep X E r t s of (t', s') \<Rightarrow> finish X E r t' s')"
  by (subst finish.simps) simp

subsection \<open>Alone, a thread is the handler\<close>

lemma s_be_inc [simp]: "s_be (inc h s) = s_be s"
  by (simp add: inc_def split: option.split)

lemma set_resolver_same: "be_resolver (s_be s) = Some rs \<Longrightarrow> set_resolver rs s = s"
  by (cases s; cases "s_be s") (simp add: set_resolver_def)

lemma be_resolver_set [simp]: "be_resolver (s_be (set_resolver rs s)) = Some rs"
  "be_blobs (s_be (set_resolver rs s)) = be_blobs (s_be s)"
  "be_npk (s_be (set_resolver rs s)) = be_npk (s_be s)"
  by (simp_all add: set_resolver_def)

lemma set_resolver_twice [simp]: "set_resolver rs (set_resolver rs' s) = set_resolver rs s"
  by (simp add: set_resolver_def)

lemma finish_TSend:
  "finish X E r (TSend g data) s = serveBytes X r (tg_sha g) (tg_path g) data (tg_status g) s"
  by (simp add: finish_step answered_def split: prod.split)

lemma finish_TFail: "finish X E r (TFail c) s = (http_NotFound, inc_class (s_fetchFailures s) c s)"
  by (simp add: finish_step answered_def)

lemma finish_TOpen:
  "be_blobs (s_be s) = Some b \<Longrightarrow> finish X E r (TOpen g) s =
     serveCached X E r b (tg_sha g) (tg_path g) (tg_status g) s"
  by (simp add: finish_step [of "TOpen g"] answered_def open_step_def serveCached_def finish_TSend
      split: prod.split sum.split)

lemma finish_TBlob:
  "finish X E r (TBlob g) s =
     serveBlob X E r (tg_event g) (tg_sha g) (tg_path g) (tg_status g) s"
  by (simp add: finish_step [of "TBlob g"] finish_step [of "THit g"] finish_step [of "TFetch g"]
      finish_step [of "TPut g data" for data] answered_def blob_step_def fetch_step_def put_step_def
      serveBlob_def Let_def finish_TSend finish_TFail finish_TOpen
      split: option.split sum.split)

lemma finish_TNpk:
  "be_resolver (s_be s) = Some rs \<Longrightarrow> be_npk (s_be s) = Some npk \<Longrightarrow> finish X E r (TNpk g) s =
     (case serveFromNpk X E r rs npk (sk_type (tg_ask g)) (tg_event g) (tg_sha g) (tg_path g) (tg_status g) s of
        (Some p, s') \<Rightarrow> (p, s')
      | (None, s') \<Rightarrow> serveBlob X E r (tg_event g) (tg_sha g) (tg_path g) (tg_status g) s')"
  by (simp add: finish_step [of "TNpk g"] answered_def finish_TBlob split: prod.split option.split)

text \<open>\<open>serveSite\<close> once it has the manifest.\<close>

definition serveManifest ::
  "ext \<Rightarrow> 'r env \<Rightarrow> request \<Rightarrow> ask \<Rightarrow> event \<Rightarrow> resolver \<Rightarrow> server \<Rightarrow> response \<times> server" where
  "serveManifest X E r a event rs s =
     (case lookup_path (path_map (ev_tags event)) (sk_path a) of
        None \<Rightarrow> (http_NotFound, s)
      | Some (sha, path', st) \<Rightarrow>
          (case be_npk (s_be s) of
             None \<Rightarrow> serveBlob X E r event sha path' st s
           | Some npk \<Rightarrow>
               (case serveFromNpk X E r rs npk (sk_type a) event sha path' st s of
                  (Some p, s2) \<Rightarrow> (p, s2)
                | (None, s2) \<Rightarrow> serveBlob X E r event sha path' st s2)))"

lemma finish_with_manifest:
  "be_npk (s_be s) = be_npk (s_be s') \<Longrightarrow> be_resolver (s_be s') = Some rs \<Longrightarrow>
     finish X E r (with_manifest a ev s) s' = serveManifest X E r a ev rs s'"
  by (simp add: with_manifest_def serveManifest_def Let_def finish_TBlob finish_TNpk split: option.split prod.split)

lemma serveSite_Manifest:
  assumes "be_resolver (s_be s) = Some rs"
  shows "serveSite X E r (sk_type a) (sk_pubkey a) (sk_d a) (sk_path a) s =
    (case rs_Manifest X (en_pools E 0) (en_clocks E 0) (sk_type a) (sk_pubkey a) (sk_d a) [] rs of
       (Inr (Some event), rs1) \<Rightarrow> serveManifest X E r a event rs1 (set_resolver rs1 s)
     | (_, rs1) \<Rightarrow> (http_NotFound, set_resolver rs1 s))"
proof -
  obtain ans rs1 where "rs_Manifest X (en_pools E 0) (en_clocks E 0) (sk_type a) (sk_pubkey a) (sk_d a) [] rs =
      (ans, rs1)" by force
  then show ?thesis
    using assms by (simp add: serveSite_def serveManifest_def Let_def split: sum.split option.split)
qed

lemma finish_TStore:
  assumes "be_resolver (s_be s) = Some rs"
  shows "finish X E r (TStore a key found) s =
    (case found of
       None \<Rightarrow> (http_NotFound, set_mcache (mc_PutNegative (en_clocks E 0 2) key (rs_mcache rs)) rs s)
     | Some ev \<Rightarrow>
         (let m = mc_Put (en_clocks E 0 2) key (CEvent ev) (rs_mcache rs)
          in serveManifest X E r a ev (rs\<lparr>rs_mcache := m\<rparr>) (set_mcache m rs s)))"
  using assms
  by (simp add: finish_step [of "TStore a key found"] answered_def store_step_def set_mcache_def Let_def
      finish_with_manifest split: option.split)

lemma finish_TAsk:
  assumes "be_resolver (s_be s) = Some rs"
  shows "finish X E r (TAsk a key f) s =
    finish X E r (TStore a key
      (case newestEvent (en_pools E 0) (rs_relays rs) f True of
         None \<Rightarrow> None
       | Some best \<Rightarrow> if v_valid (Validate X best (rs_options rs)) then Some best else None)) s"
  using assms by (simp add: finish_step [of "TAsk a key f"] answered_def ask_step_def split: option.split)

lemma finish_TGet:
  assumes "be_resolver (s_be s) = Some rs"
    and "keyAndFilter (sk_type a) (sk_pubkey a) (sk_d a) [] = Inr (key, f)"
  shows "finish X E r (TGet a key f) s =
    serveSite X E r (sk_type a) (sk_pubkey a) (sk_d a) (sk_path a) s"
proof -
  obtain v m where g: "mc_Get (en_clocks E 0 0) key (rs_mcache rs) = (v, m)" by force
  define s1 where "s1 = set_mcache m rs s"
  define rs1 where "rs1 = rs\<lparr>rs_mcache := m\<rparr>"
  have s1: "be_resolver (s_be s1) = Some rs1" "be_npk (s_be s1) = be_npk (s_be s)"
    "rs_mcache rs1 = m" "rs_relays rs1 = rs_relays rs" "rs_options rs1 = rs_options rs"
    by (simp_all add: s1_def rs1_def set_mcache_def rs_options_def)
  have again: "set_mcache m' rs1 s1 = set_resolver (rs\<lparr>rs_mcache := m'\<rparr>) s"
    "rs1\<lparr>rs_mcache := m'\<rparr> = rs\<lparr>rs_mcache := m'\<rparr>" for m'
    by (simp_all add: s1_def rs1_def set_mcache_def)
  have set_mcache_eq: "set_resolver (rs\<lparr>rs_mcache := m\<rparr>) s = s1"
    "serveManifest X E r a ev (rs\<lparr>rs_mcache := m\<rparr>) s' = serveManifest X E r a ev rs1 s'" for ev s'
    by (simp_all add: s1_def rs1_def set_mcache_def)
  have hit: "finish X E r (with_manifest a ev s) s1 = serveManifest X E r a ev rs1 s1" for ev
    using s1 by (intro finish_with_manifest) simp_all
  have neg: "finish X E r (TNeg a key f) s1 =
      (if mc_Negative (en_clocks E 0 1) key m then (http_NotFound, s1)
       else finish X E r (TAsk a key f) s1)"
    using s1 by (simp add: finish_step [of "TNeg a key f"] answered_def)
  have "tstep X E r (TGet a key f) s =
      (case v of Some (CEvent ev) \<Rightarrow> with_manifest a ev s | Some (CRelease _) \<Rightarrow> not_found
       | None \<Rightarrow> TNeg a key f, s1)"
    using assms(1) g by (simp add: get_step_def s1_def split: option.split)
  then have "finish X E r (TGet a key f) s =
      finish X E r (case v of Some (CEvent ev) \<Rightarrow> with_manifest a ev s | Some (CRelease _) \<Rightarrow> not_found
        | None \<Rightarrow> TNeg a key f) s1"
    by (subst finish_step) (simp_all add: answered_def)
  also have "\<dots> = (case rs_Manifest X (en_pools E 0) (en_clocks E 0) (sk_type a) (sk_pubkey a) (sk_d a) [] rs of
       (Inr (Some event), rs1) \<Rightarrow> serveManifest X E r a event rs1 (set_resolver rs1 s)
     | (_, rs1) \<Rightarrow> (http_NotFound, set_resolver rs1 s))"
  proof (cases v)
    case None
    then show ?thesis
      using g assms(2)
      by (simp add: rs_Manifest_def neg finish_TAsk [OF s1(1)] finish_TStore [OF s1(1)] s1 again
          set_mcache_eq rs_options_def [of rs, symmetric] Let_def split: option.split)
  next
    case (Some c)
    then show ?thesis
      using g assms(2) by (cases c) (simp_all add: rs_Manifest_def hit set_mcache_eq)
  qed
  finally show ?thesis by (simp add: serveSite_Manifest [OF assms(1)])
qed

lemma finish_TSite:
  "finish X E r (TSite a) s = serveSite X E r (sk_type a) (sk_pubkey a) (sk_d a) (sk_path a) s"
proof (cases "be_resolver (s_be s)")
  case None
  then show ?thesis by (simp add: finish_step [of "TSite a"] answered_def serveSite_def)
next
  case (Some rs)
  then show ?thesis
    using set_resolver_same [OF Some]
    by (cases "keyAndFilter (sk_type a) (sk_pubkey a) (sk_d a) []")
      (auto simp: finish_step [of "TSite a"] answered_def finish_TGet serveSite_Manifest rs_Manifest_def)
qed

lemma finish_TReject: "finish X E r TReject s = reject s"
  by (simp add: finish_step answered_def reject_def)

lemma finish_TAllow:
  "finish X E r (TAllow st pk d) s =
     (if \<not> allowlisted s st pk then reject s
      else
        (case normalisePath (rq_path r) of
           None \<Rightarrow> reject s
         | Some path \<Rightarrow> serveSite X E r st pk d path (inc (s_reqSite s) s)))"
  by (simp add: finish_step [of "TAllow st pk d"] finish_step [of "TCount a" for a] answered_def
      finish_TReject finish_TSite split: option.split)

lemma finish_TParse:
  "finish X E r TParse s =
     (case parseHost X s (rq_host r) of
        None \<Rightarrow> finish X E r TReject s
      | Some (label, st, pk, d) \<Rightarrow> finish X E r (TAllow st pk d) s)"
  by (simp add: finish_step [of TParse] finish_step [of "TCustom h" for h] answered_def parse_label_def
      parseHost_def Let_def split: option.split prod.split)

lemma finish_handlePublic: "finish X E r TArrive s = handlePublic X E r s"
  by (simp add: finish_step [of TArrive] finish_step [of TApex] answered_def handlePublic_def finish_TReject
      finish_TParse finish_TAllow split: option.split prod.split)

definition tmove :: "ext \<Rightarrow> 'r env \<Rightarrow> request \<Rightarrow> thread \<times> server \<Rightarrow> thread \<times> server" where
  "tmove X E r ts = tstep X E r (fst ts) (snd ts)"

lemma finish_moves:
  "rank t \<le> n \<Longrightarrow> \<exists>c. (tmove X E r ^^ n) (t, s) =
     (TDone c (fst (finish X E r t s)), snd (finish X E r t s))"
proof (induction n arbitrary: t s)
  case 0
  then show ?case by (cases t) (simp_all add: tmove_def)
next
  case (Suc n)
  show ?case
  proof (cases "finished t")
    case True
    then obtain c p where "t = TDone c p" by (cases t) (auto simp: answered_def)
    then show ?thesis using Suc.IH [of "TDone c p" s] by (simp add: funpow_Suc_right tmove_def del: funpow.simps)
  next
    case False
    obtain t' s' where m: "tstep X E r t s = (t', s')" by force
    have "rank t' \<le> n" using rank_tstep [OF False, of X E r s] Suc.prems m by simp
    moreover have "finish X E r t s = finish X E r t' s'" using finish_step [OF False, of X E r s] m by simp
    ultimately show ?thesis
      using Suc.IH [of t' s'] m by (simp add: funpow_Suc_right tmove_def del: funpow.simps)
  qed
qed

end
