(* ===== verification/Concurrent.thy ===== *)
theory Concurrent
  imports Threads
begin

section \<open>Requests that overlap\<close>

text \<open>
  Any number of requests take their steps (theory \<open>Threads\<close>) in any order on one server, and
  \<open>Reload\<close> and \<open>Configure\<close> swap the configuration and the backends between any two steps. A
  request keeps the backends it read (\<open>be := s.be\<close>), so the \<open>world\<close> keeps every generation of
  backends, and generations with the same cache directory share its files.

  The proof follows the rely-guarantee pattern: an assertion for each phase, that a step of
  its request establishes and that the steps of others leave alone; what a step guarantees to
  the others; and the invariant of the world they add up to.

  The bundle store is the exception: \<open>Unpack\<close> takes no lock and shares a directory, so one step
  for it would not do it justice. The interleavings are those of a gateway without bundles
  (what two overlapping \<open>Unpack\<close> calls do is shown in theory \<open>Bundle\<close>).
\<close>

subsection \<open>The world: many requests, one server\<close>

text \<open>A job is a request with the environment it meets, the backends it holds, its phase, and
  (for the statements) the configurations that were in force at its steps so far.\<close>

record 'r job =
  jb_env :: "'r env"
  jb_req :: request
  jb_gen :: "nat option"
  jb_thread :: thread
  jb_seen :: "config list"

text \<open>The backends of \<open>w_srv\<close> are not used: they are in \<open>w_gens\<close>, each with the directory of its
  blob cache, and the files of a directory are in \<open>w_disk\<close>.\<close>

record 'r world =
  w_srv :: server
  w_gens :: "(string \<times> backends) list"
  w_disk :: "string \<Rightarrow> string \<Rightarrow> bytes option"
  w_jobs :: "'r job list"

definition gen_backends :: "nat \<Rightarrow> 'r world \<Rightarrow> backends" where
  "gen_backends g w =
     (case w_gens w ! g of
        (dir, be) \<Rightarrow> be\<lparr>be_blobs := map_option (\<lambda>b. b\<lparr>bs_disk := w_disk w dir\<rparr>) (be_blobs be)\<rparr>)"

definition at_gen :: "nat \<Rightarrow> 'r world \<Rightarrow> server" where
  "at_gen g w = (w_srv w)\<lparr>s_be := gen_backends g w\<rparr>"

definition put_gen :: "nat \<Rightarrow> server \<Rightarrow> 'r world \<Rightarrow> 'r world" where
  "put_gen g s w =
     w\<lparr>w_srv := s,
       w_gens := (w_gens w)[g := (fst (w_gens w ! g), s_be s)],
       w_disk := (case be_blobs (s_be s) of
           None \<Rightarrow> w_disk w | Some b \<Rightarrow> (w_disk w)(fst (w_gens w ! g) := bs_disk b))\<rparr>"

text \<open>The backends a job works on: those it has read, or else the current ones.\<close>

definition job_gen :: "'r world \<Rightarrow> 'r job \<Rightarrow> nat" where
  "job_gen w j = (case jb_gen j of None \<Rightarrow> length (w_gens w) - 1 | Some g \<Rightarrow> g)"

definition reads_backends :: "thread \<Rightarrow> bool" where
  "reads_backends t \<longleftrightarrow> (case t of TSite _ \<Rightarrow> True | _ \<Rightarrow> False)"

definition new_job :: "'r env \<Rightarrow> request \<Rightarrow> 'r job" where
  "new_job E r = \<lparr>jb_env = E, jb_req = r, jb_gen = None, jb_thread = TArrive, jb_seen = []\<rparr>"

definition moved_job :: "'r world \<Rightarrow> 'r job \<Rightarrow> thread \<Rightarrow> 'r job" where
  "moved_job w j t =
     j\<lparr>jb_thread := t,
       jb_gen := (if reads_backends (jb_thread j) then Some (job_gen w j) else jb_gen j),
       jb_seen := jb_seen j @ [s_cfg (w_srv w)]\<rparr>"

definition run_job :: "ext \<Rightarrow> nat \<Rightarrow> 'r world \<Rightarrow> 'r world" where
  "run_job X i w =
     (let j = w_jobs w ! i;
          g = job_gen w j
      in if finished (jb_thread j) then w
         else
           (case tstep X (jb_env j) (jb_req j) (jb_thread j) (at_gen g w) of
              (t, s) \<Rightarrow> (put_gen g s w)\<lparr>w_jobs := (w_jobs w)[i := moved_job w j t]\<rparr>))"

text \<open>The backends \<open>Configure\<close> is given: a consistent resolver and, here, no bundle store.\<close>

definition gen_ready :: "ext \<Rightarrow> backends \<Rightarrow> bool" where
  "gen_ready X be \<longleftrightarrow>
     (case be_resolver be of None \<Rightarrow> True | Some rs \<Rightarrow> rs_inv X rs) \<and> be_npk be = None"

definition pools_ok :: "'r env \<Rightarrow> bool" where
  "pools_ok E \<longleftrightarrow> (\<forall>i. pool_ok (en_pools E i))"

inductive cstep :: "ext \<Rightarrow> 'r world \<Rightarrow> 'r world \<Rightarrow> bool" for X where
    arrive: "pools_ok E \<Longrightarrow> cstep X w (w\<lparr>w_jobs := w_jobs w @ [new_job E r]\<rparr>)"
  | run: "i < length (w_jobs w) \<Longrightarrow> \<not> finished (jb_thread (w_jobs w ! i)) \<Longrightarrow> cstep X w (run_job X i w)"
  | reload: "cfg_Validate X loopback cfg = None \<Longrightarrow>
      cstep X w (w\<lparr>w_srv := srv_Reload X cfg (w_srv w)\<rparr>)"
  | configure: "gen_ready X be \<Longrightarrow> cstep X w (w\<lparr>w_gens := w_gens w @ [(dir, be)]\<rparr>)"

text \<open>A server just made, before \<open>Configure\<close>, over cache directories that hold authentic blobs.\<close>

definition disks_verified :: "ext \<Rightarrow> (string \<Rightarrow> string \<Rightarrow> bytes option) \<Rightarrow> bool" where
  "disks_verified X disk \<longleftrightarrow> (\<forall>dir k b. disk dir k = Some b \<longrightarrow> hash_hex X b = k)"

definition first_world :: "server \<Rightarrow> (string \<Rightarrow> string \<Rightarrow> bytes option) \<Rightarrow> 'r world" where
  "first_world s disk = \<lparr>w_srv = s, w_gens = [('''', no_backends)], w_disk = disk, w_jobs = []\<rparr>"

inductive creach :: "ext \<Rightarrow> 'r world \<Rightarrow> bool" for X where
    first: "cfg_Validate X loopback cfg = None \<Longrightarrow> srv_New X cfg fs = Some s \<Longrightarrow> disks_verified X disk \<Longrightarrow>
      creach X (first_world s disk)"
  | further: "creach X w \<Longrightarrow> cstep X w w' \<Longrightarrow> creach X w'"

subsection \<open>What a request knows\<close>

text \<open>The site a host names, and the permission to serve it, each under some configuration of a
  set.\<close>

definition named :: "ext \<Rightarrow> config set \<Rightarrow> string \<Rightarrow> site_type \<Rightarrow> string \<Rightarrow> string \<Rightarrow> bool" where
  "named X cs host st pk d \<longleftrightarrow>
     (\<exists>cfg \<in> cs.
        (\<exists>label. request_host X host = CanonicalSiteURL label (Domain cfg) \<and>
           0 < length label \<and> length label \<le> LabelMaxLen \<and> DecodeLabel X label = (st, pk, d, True)) \<or>
        (\<exists>cd \<in> set (cf_CustomDomains cfg). request_host X host = norm_fqdn X (cd_FQDN cd) \<and>
           st = (if cd_D cd \<noteq> [] then SiteNamed else SiteRoot) \<and> pk = cd_Pubkey cd \<and> d = cd_D cd))"

definition permitted :: "config set \<Rightarrow> site_type \<Rightarrow> string \<Rightarrow> bool" where
  "permitted cs st pk \<longleftrightarrow>
     (\<exists>cfg \<in> cs. Mode cfg = ''open'' \<or>
        (st = SiteRoot \<or> st = SiteNamed) \<and> pk \<in> st_Pubkey ` set (cf_Sites cfg))"

definition apex_host :: "ext \<Rightarrow> config set \<Rightarrow> string \<Rightarrow> bool" where
  "apex_host X cs host \<longleftrightarrow> (\<exists>cfg \<in> cs. request_host X host = Domain cfg)"

definition ask_ok :: "ext \<Rightarrow> config set \<Rightarrow> request \<Rightarrow> ask \<Rightarrow> bool" where
  "ask_ok X cs r a \<longleftrightarrow>
     \<not> HasPrefix (rq_path r) ''/internal/'' \<and> length (sk_pubkey a) = 64 \<and>
     named X cs (rq_host r) (sk_type a) (sk_pubkey a) (sk_d a) \<and>
     permitted cs (sk_type a) (sk_pubkey a) \<and> normalisePath (rq_path r) = Some (sk_path a)"

text \<open>A valid manifest of the asked site, under the options of a resolver.\<close>

definition answers :: "ext \<Rightarrow> options option \<Rightarrow> ask \<Rightarrow> event \<Rightarrow> bool" where
  "answers X opts a ev \<longleftrightarrow>
     (\<exists>opt k f. opts = Some opt \<and> v_valid (Validate X ev opt) \<and>
        keyAndFilter (sk_type a) (sk_pubkey a) (sk_d a) [] = Inr (k, f) \<and> matches f ev)"

definition target_ok :: "ext \<Rightarrow> config set \<Rightarrow> request \<Rightarrow> options option \<Rightarrow> target \<Rightarrow> bool" where
  "target_ok X cs r opts g \<longleftrightarrow>
     ask_ok X cs r (tg_ask g) \<and> answers X opts (tg_ask g) (tg_event g) \<and>
     lookup_path (path_map (ev_tags (tg_event g))) (sk_path (tg_ask g)) =
       Some (tg_sha g, tg_path g, tg_status g)"

definition reply_ok :: "ext \<Rightarrow> config set \<Rightarrow> request \<Rightarrow> nat option \<Rightarrow> options option \<Rightarrow> response \<Rightarrow> bool" where
  "reply_ok X cs r lim opts p \<longleftrightarrow>
     p = http_NotFound \<or>
     (p = serveApex \<and> \<not> HasPrefix (rq_path r) ''/internal/'' \<and> apex_host X cs (rq_host r)) \<or>
     (\<exists>g data. target_ok X cs r opts g \<and> read_of X lim (tg_sha g) data \<and>
        p = page X r (tg_sha g) (tg_path g) data (tg_status g))"

text \<open>The assertion of each phase. \<open>opts\<close> are the options of the resolver the request holds; a
  request that holds none is not past \<open>TSite\<close>.\<close>

fun thread_ok ::
  "ext \<Rightarrow> config set \<Rightarrow> request \<Rightarrow> nat option \<Rightarrow> options option \<Rightarrow> thread \<Rightarrow> bool" where
  "thread_ok X cs r lim opts TArrive \<longleftrightarrow> True"
| "thread_ok X cs r lim opts TReject \<longleftrightarrow> True"
| "thread_ok X cs r lim opts TApex \<longleftrightarrow>
     \<not> HasPrefix (rq_path r) ''/internal/'' \<and> apex_host X cs (rq_host r)"
| "thread_ok X cs r lim opts TParse \<longleftrightarrow> \<not> HasPrefix (rq_path r) ''/internal/''"
| "thread_ok X cs r lim opts (TCustom host) \<longleftrightarrow>
     \<not> HasPrefix (rq_path r) ''/internal/'' \<and> host = request_host X (rq_host r)"
| "thread_ok X cs r lim opts (TAllow st pk d) \<longleftrightarrow>
     \<not> HasPrefix (rq_path r) ''/internal/'' \<and> length pk = 64 \<and> named X cs (rq_host r) st pk d"
| "thread_ok X cs r lim opts (TCount a) \<longleftrightarrow> ask_ok X cs r a"
| "thread_ok X cs r lim opts (TSite a) \<longleftrightarrow> ask_ok X cs r a"
| "thread_ok X cs r lim opts (TGet a k f) \<longleftrightarrow>
     ask_ok X cs r a \<and> opts \<noteq> None \<and> keyAndFilter (sk_type a) (sk_pubkey a) (sk_d a) [] = Inr (k, f)"
| "thread_ok X cs r lim opts (TNeg a k f) \<longleftrightarrow>
     ask_ok X cs r a \<and> opts \<noteq> None \<and> keyAndFilter (sk_type a) (sk_pubkey a) (sk_d a) [] = Inr (k, f)"
| "thread_ok X cs r lim opts (TAsk a k f) \<longleftrightarrow>
     ask_ok X cs r a \<and> opts \<noteq> None \<and> keyAndFilter (sk_type a) (sk_pubkey a) (sk_d a) [] = Inr (k, f)"
| "thread_ok X cs r lim opts (TStore a k found) \<longleftrightarrow>
     ask_ok X cs r a \<and> opts \<noteq> None \<and>
     (\<exists>f. keyAndFilter (sk_type a) (sk_pubkey a) (sk_d a) [] = Inr (k, f)) \<and>
     (case found of None \<Rightarrow> True | Some ev \<Rightarrow> answers X opts a ev)"
| "thread_ok X cs r lim opts (TNpk g) \<longleftrightarrow> target_ok X cs r opts g"
| "thread_ok X cs r lim opts (TBlob g) \<longleftrightarrow> target_ok X cs r opts g"
| "thread_ok X cs r lim opts (THit g) \<longleftrightarrow> target_ok X cs r opts g"
| "thread_ok X cs r lim opts (TOpen g) \<longleftrightarrow> target_ok X cs r opts g"
| "thread_ok X cs r lim opts (TFetch g) \<longleftrightarrow> target_ok X cs r opts g"
| "thread_ok X cs r lim opts (TFail c) \<longleftrightarrow> True"
| "thread_ok X cs r lim opts (TPut g data) \<longleftrightarrow>
     target_ok X cs r opts g \<and> hash_hex X data = tg_sha g"
| "thread_ok X cs r lim opts (TSend g data) \<longleftrightarrow>
     target_ok X cs r opts g \<and> read_of X lim (tg_sha g) data"
| "thread_ok X cs r lim opts (TDone c p) \<longleftrightarrow> reply_ok X cs r lim opts p"

lemma named_mono: "named X cs host st pk d \<Longrightarrow> cs \<subseteq> cs' \<Longrightarrow> named X cs' host st pk d"
  unfolding named_def by blast

lemma permitted_mono: "permitted cs st pk \<Longrightarrow> cs \<subseteq> cs' \<Longrightarrow> permitted cs' st pk"
  unfolding permitted_def by blast

lemma apex_host_mono: "apex_host X cs host \<Longrightarrow> cs \<subseteq> cs' \<Longrightarrow> apex_host X cs' host"
  unfolding apex_host_def by blast

lemma ask_ok_mono: "ask_ok X cs r a \<Longrightarrow> cs \<subseteq> cs' \<Longrightarrow> ask_ok X cs' r a"
  using named_mono permitted_mono unfolding ask_ok_def by blast

lemma target_ok_mono: "target_ok X cs r opts g \<Longrightarrow> cs \<subseteq> cs' \<Longrightarrow> target_ok X cs' r opts g"
  using ask_ok_mono unfolding target_ok_def by blast

lemma reply_ok_mono: "reply_ok X cs r lim opts p \<Longrightarrow> cs \<subseteq> cs' \<Longrightarrow> reply_ok X cs' r lim opts p"
  using target_ok_mono apex_host_mono unfolding reply_ok_def by blast

lemmas ok_monos = named_mono permitted_mono apex_host_mono ask_ok_mono target_ok_mono reply_ok_mono

lemma thread_ok_mono: "thread_ok X cs r lim opts t \<Longrightarrow> cs \<subseteq> cs' \<Longrightarrow> thread_ok X cs' r lim opts t"
  by (cases t) (auto intro: ok_monos)

subsection \<open>What the steps share\<close>

definition backends_ok :: "ext \<Rightarrow> backends \<Rightarrow> bool" where
  "backends_ok X be \<longleftrightarrow> gen_ready X be \<and>
     (case be_blobs be of None \<Rightarrow> True | Some b \<Rightarrow> bs_verified X b)"

definition setup_ok :: "ext \<Rightarrow> server \<Rightarrow> bool" where
  "setup_ok X s \<longleftrightarrow> handles_ok s \<and>
     fst ` set (s_allow s) = st_Pubkey ` set (cf_Sites (s_cfg s)) \<and>
     (\<forall>k cs. map_of (s_custom s) k = Some cs \<longrightarrow>
        length (cs_pubkey cs) = 64 \<and>
        (\<exists>cd \<in> set (cf_CustomDomains (s_cfg s)). k = norm_fqdn X (cd_FQDN cd) \<and>
           cs_pubkey cs = cd_Pubkey cd \<and> cs_d cs = cd_D cd \<and>
           cs_siteType cs = (if cd_D cd \<noteq> [] then SiteNamed else SiteRoot)))"

definition held_options :: "backends \<Rightarrow> options option" where
  "held_options be = map_option rs_options (be_resolver be)"

lemma backends_okD:
  assumes "backends_ok X be"
  shows "be_resolver be = Some rs \<Longrightarrow> rs_inv X rs" and "be_npk be = None"
    and "be_blobs be = Some b \<Longrightarrow> bs_verified X b"
  using assms by (auto simp: backends_ok_def gen_ready_def)

lemma same_setup_ok: "same_setup s s' \<Longrightarrow> setup_ok X s' = setup_ok X s"
  using same_setup_handles [of s s'] by (simp add: setup_ok_def same_setup_def)

lemma backends_ok_resolver:
  "backends_ok X be \<Longrightarrow> rs_inv X rs \<Longrightarrow> backends_ok X (be\<lparr>be_resolver := Some rs\<rparr>)"
  by (simp add: backends_ok_def gen_ready_def)

lemma backends_ok_blobs:
  "backends_ok X be \<Longrightarrow> bs_verified X b \<Longrightarrow> backends_ok X (be\<lparr>be_blobs := Some b\<rparr>)"
  by (simp add: backends_ok_def gen_ready_def)

text \<open>What a step of a request guarantees to the others: the configuration and the instruments
  stay, the backends stay consistent and keep the options of their resolver, and of the
  counters of requests only the one the request is counted in moves, by one.\<close>

definition class_of :: "thread \<Rightarrow> string option" where
  "class_of t =
     (case t of
        TDone c _ \<Rightarrow> Some c
      | TArrive \<Rightarrow> None | TReject \<Rightarrow> None | TApex \<Rightarrow> None | TParse \<Rightarrow> None | TCustom _ \<Rightarrow> None
      | TAllow _ _ _ \<Rightarrow> None | TCount _ \<Rightarrow> None | _ \<Rightarrow> Some ''site'')"

definition step_guar :: "ext \<Rightarrow> thread \<Rightarrow> server \<Rightarrow> thread \<Rightarrow> server \<Rightarrow> bool" where
  "step_guar X t s t' s' \<longleftrightarrow>
     same_setup s s' \<and> backends_ok X (s_be s') \<and> held_options (s_be s') = held_options (s_be s) \<and>
     (class_of t \<noteq> None \<longrightarrow> class_of t' = class_of t) \<and>
     (\<forall>c. count_of (s_reg s') (requests_total, [c]) =
        count_of (s_reg s) (requests_total, [c]) +
          (if class_of t = None \<and> class_of t' = Some c then 1 else 0))"

lemma inc_effect:
  assumes "handles_ok s"
  shows "\<exists>r. inc (s_reqApex s) s = s\<lparr>s_reg := r\<rparr> \<and> (\<forall>c. count_of r (requests_total, [c]) =
      count_of (s_reg s) (requests_total, [c]) + (if c = ''apex'' then 1 else 0))"
    and "\<exists>r. inc (s_reqSite s) s = s\<lparr>s_reg := r\<rparr> \<and> (\<forall>c. count_of r (requests_total, [c]) =
      count_of (s_reg s) (requests_total, [c]) + (if c = ''site'' then 1 else 0))"
    and "\<exists>r. inc (s_reqOther s) s = s\<lparr>s_reg := r\<rparr> \<and> (\<forall>c. count_of r (requests_total, [c]) =
      count_of (s_reg s) (requests_total, [c]) + (if c = ''reject'' then 1 else 0))"
    and "\<exists>r. inc (s_cacheHits s) s = s\<lparr>s_reg := r\<rparr> \<and> (\<forall>c. count_of r (requests_total, [c]) =
      count_of (s_reg s) (requests_total, [c]))"
proof -
  note u = handles_usable [OF assms]
  show "\<exists>r. inc (s_reqApex s) s = s\<lparr>s_reg := r\<rparr> \<and> (\<forall>c. count_of r (requests_total, [c]) =
      count_of (s_reg s) (requests_total, [c]) + (if c = ''apex'' then 1 else 0))"
    by (rule inc_usable [OF u(1), of s]) (auto simp: u)
  show "\<exists>r. inc (s_reqSite s) s = s\<lparr>s_reg := r\<rparr> \<and> (\<forall>c. count_of r (requests_total, [c]) =
      count_of (s_reg s) (requests_total, [c]) + (if c = ''site'' then 1 else 0))"
    by (rule inc_usable [OF u(2), of s]) (auto simp: u)
  show "\<exists>r. inc (s_reqOther s) s = s\<lparr>s_reg := r\<rparr> \<and> (\<forall>c. count_of r (requests_total, [c]) =
      count_of (s_reg s) (requests_total, [c]) + (if c = ''reject'' then 1 else 0))"
    by (rule inc_usable [OF u(3), of s]) (auto simp: u)
  show "\<exists>r. inc (s_cacheHits s) s = s\<lparr>s_reg := r\<rparr> \<and> (\<forall>c. count_of r (requests_total, [c]) =
      count_of (s_reg s) (requests_total, [c]))"
    by (rule inc_usable [OF u(4), of s]) (auto simp: u)
qed

lemma failure_effect:
  assumes "handles_ok s"
  shows "\<exists>r. inc_class (s_fetchFailures s) cls s = s\<lparr>s_reg := r\<rparr> \<and>
    (\<forall>c. count_of r (requests_total, [c]) = count_of (s_reg s) (requests_total, [c]))"
  by (rule inc_class_usable [OF handles_usable(6) [OF assms], of cls s])
    (auto simp: handles_usable(11) [OF assms])

lemma observe_effect:
  assumes "handles_ok s"
  shows "\<exists>r. observe (s_bytesServed s) n s = s\<lparr>s_reg := r\<rparr> \<and>
    (\<forall>c. count_of r (requests_total, [c]) = count_of (s_reg s) (requests_total, [c]))"
  by (rule observe_usable [OF handles_usable(5) [OF assms], of n s]) (auto simp: count_of_def)

text \<open>The two kinds of step: one that writes the registry, one that writes a backend.\<close>

lemma guar_reg:
  assumes "backends_ok X (s_be s)" and "s' = s\<lparr>s_reg := r\<rparr>" and "class_of t \<noteq> None \<longrightarrow> class_of t' = class_of t"
    and "\<And>c. count_of r (requests_total, [c]) = count_of (s_reg s) (requests_total, [c]) +
      (if class_of t = None \<and> class_of t' = Some c then 1 else 0)"
  shows "step_guar X t s t' s'"
  using assms by (simp add: step_guar_def)

lemma guar_same:
  assumes "backends_ok X (s_be s)" and "class_of t' = class_of t"
  shows "step_guar X t s t' s"
  using assms by (auto simp: step_guar_def)

lemma guar_be:
  assumes "backends_ok X be" and "held_options be = held_options (s_be s)" and "class_of t' = class_of t"
  shows "step_guar X t s t' (s\<lparr>s_be := be\<rparr>)"
  using assms by (auto simp: step_guar_def)

lemma guar_resolver:
  assumes "backends_ok X (s_be s)" and "be_resolver (s_be s) = Some rs" and "rs_inv X (rs\<lparr>rs_mcache := m\<rparr>)"
    and "class_of t' = class_of t"
  shows "step_guar X t s t' (set_mcache m rs s)"
  unfolding set_mcache_def set_resolver_def using assms
  by (intro guar_be backends_ok_resolver) (simp_all add: held_options_def rs_options_def)

lemma guar_blobs:
  assumes "backends_ok X (s_be s)" and "bs_verified X b" and "class_of t' = class_of t"
  shows "step_guar X t s t' (set_blobs b s)"
  unfolding set_blobs_def using assms
  by (intro guar_be backends_ok_blobs) (simp_all add: held_options_def)

lemma class_of_with_manifest [simp]: "class_of (with_manifest a ev s) = Some ''site''"
  by (simp add: with_manifest_def class_of_def Let_def split: option.split)

lemma class_of_parse_label [simp]: "class_of (parse_label X r domain) = None"
  by (simp add: parse_label_def class_of_def Let_def split: prod.split)

lemma class_of_simps [simp]:
  "class_of TArrive = None" "class_of TReject = None" "class_of TApex = None" "class_of TParse = None"
  "class_of (TCustom h) = None" "class_of (TAllow st pk d) = None" "class_of (TCount a) = None"
  "class_of (TSite a) = Some ''site''" "class_of (TGet a k f) = Some ''site''"
  "class_of (TNeg a k f) = Some ''site''" "class_of (TAsk a k f) = Some ''site''"
  "class_of (TStore a k e) = Some ''site''" "class_of (TNpk g) = Some ''site''"
  "class_of (TBlob g) = Some ''site''" "class_of (THit g) = Some ''site''"
  "class_of (TOpen g) = Some ''site''" "class_of (TFetch g) = Some ''site''"
  "class_of (TFail c) = Some ''site''" "class_of (TPut g b) = Some ''site''"
  "class_of (TSend g b) = Some ''site''" "class_of (TDone c p) = Some c"
  by (simp_all add: class_of_def)

lemma parse_label_ok:
  assumes "\<not> HasPrefix (rq_path r) ''/internal/''" and "cfg \<in> cs"
  shows "thread_ok X cs r lim opts (parse_label X r (Domain cfg))"
proof (cases "HasSuffix (request_host X (rq_host r)) (''.'' @ Domain cfg)")
  case False
  then show ?thesis using assms by (simp add: parse_label_def Let_def)
next
  case True
  define label where
    "label = take (length (request_host X (rq_host r)) - length (''.'' @ Domain cfg)) (request_host X (rq_host r))"
  have host: "request_host X (rq_host r) = CanonicalSiteURL label (Domain cfg)"
    using True by (auto simp: label_def CanonicalSiteURL_def suffix_def)
  obtain st pk d ok where dec: "DecodeLabel X label = (st, pk, d, ok)" by (cases "DecodeLabel X label")
  have "length pk = 64 \<and> named X cs (rq_host r) st pk d" if "ok" "0 < length label" "length label \<le> LabelMaxLen"
  proof -
    have d: "DecodeLabel X label = (st, pk, d, True)" using dec that by simp
    show ?thesis using DecodeLabel_hexID [OF d] d host assms(2) that(2,3) unfolding named_def by blast
  qed
  then show ?thesis
    using True assms(1) dec by (simp add: parse_label_def Let_def label_def)
qed

lemma custom_ok_step:
  assumes "setup_ok X s" and "s_cfg s \<in> cs" and "map_of (s_custom s) (request_host X host) = Some c"
  shows "length (cs_pubkey c) = 64 \<and> named X cs host (cs_siteType c) (cs_pubkey c) (cs_d c)"
  using assms unfolding setup_ok_def named_def by fastforce

lemma allowlisted_permitted:
  assumes "setup_ok X s" and "s_cfg s \<in> cs" and "allowlisted s st pk"
  shows "permitted cs st pk"
  using assms unfolding setup_ok_def permitted_def allowlisted_def by (cases st) (auto split: if_splits)

lemma with_manifest_ok:
  assumes "ask_ok X cs r a" and "answers X opts a ev" and "be_npk (s_be s) = None"
  shows "thread_ok X cs r lim opts (with_manifest a ev s)"
  using assms
  by (cases "lookup_path (path_map (ev_tags ev)) (sk_path a)")
    (auto simp: with_manifest_def Let_def target_ok_def reply_ok_def)

text \<open>The steps of the resolver.\<close>

lemma get_step_ok:
  assumes "backends_ok X (s_be s)" and "be_resolver (s_be s) = Some rs" and "ask_ok X cs r a"
    and "keyAndFilter (sk_type a) (sk_pubkey a) (sk_d a) [] = Inr (k, f)"
    and "get_step now a k f rs s = (t', s')"
  shows "thread_ok X cs r lim (Some (rs_options rs)) t' \<and> step_guar X (TGet a k f) s t' s'"
proof -
  have ri: "rs_inv X rs" using backends_okD(1) [OF assms(1,2)] .
  have len: "length (sk_pubkey a) = 64" using assms(3) by (simp add: ask_ok_def)
  obtain v m where g: "mc_Get now k (rs_mcache rs) = (v, m)" by force
  have inv: "rs_inv X (rs\<lparr>rs_mcache := m\<rparr>)" using rs_inv_get [OF ri, of now k] g by simp
  have guar: "class_of t'' = Some ''site'' \<Longrightarrow> step_guar X (TGet a k f) s t'' (set_mcache m rs s)" for t''
    using assms(1,2) inv by (intro guar_resolver) simp_all
  show ?thesis
  proof (cases v)
    case None
    then have "t' = TNeg a k f" "s' = set_mcache m rs s" using assms(5) g by (simp_all add: get_step_def)
    then show ?thesis using guar assms(3,4) by simp
  next
    case (Some c)
    have item: "\<exists>e. mc_items (rs_mcache rs) k = Some (c, e)"
      using mc_Get_cases [of now k "rs_mcache rs"] g Some by (metis fst_conv option.distinct(1) option.inject)
    show ?thesis
    proof (cases c)
      case (CEvent ev)
      from item ri have "good_cached X rs k c" by (auto simp: rs_inv_def)
      then obtain st pk d i f' where h: "length pk = 64" "keyAndFilter st pk d i = Inr (k, f')"
          "good_manifest X rs f' ev"
        using CEvent by (auto simp: good_cached_def)
      then have "good_manifest X rs f ev" using key_filter_unique [OF assms(4) h(2) len h(1)] by simp
      then have "answers X (Some (rs_options rs)) a ev"
        using assms(4) by (simp add: answers_def good_manifest_def rs_options_def)
      moreover have "t' = with_manifest a ev s" "s' = set_mcache m rs s"
        using assms(5) g Some CEvent by (simp_all add: get_step_def)
      ultimately show ?thesis
        using guar assms(3) with_manifest_ok backends_okD(2) [OF assms(1)] by simp
    next
      case (CRelease rel)
      then have "t' = not_found" "s' = set_mcache m rs s"
        using assms(5) g Some by (simp_all add: get_step_def)
      then show ?thesis using guar by (simp add: reply_ok_def)
    qed
  qed
qed

lemma store_step_ok:
  assumes "backends_ok X (s_be s)" and "be_resolver (s_be s) = Some rs" and "ask_ok X cs r a"
    and "keyAndFilter (sk_type a) (sk_pubkey a) (sk_d a) [] = Inr (k, f)"
    and "case found of None \<Rightarrow> True | Some ev \<Rightarrow> answers X (Some (rs_options rs)) a ev"
    and "store_step now a k found rs s = (t', s')"
  shows "thread_ok X cs r lim (Some (rs_options rs)) t' \<and> step_guar X (TStore a k found) s t' s'"
proof -
  have ri: "rs_inv X (rs\<lparr>rs_mcache := rs_mcache rs\<rparr>)" using backends_okD(1) [OF assms(1,2)] by simp
  show ?thesis
  proof (cases found)
    case None
    then show ?thesis
      using assms(6) guar_resolver [OF assms(1,2) rs_inv_neg [OF ri], of not_found "TStore a k found" now k]
      by (auto simp: store_step_def reply_ok_def)
  next
    case (Some ev)
    have a: "answers X (Some (rs_options rs)) a ev" using assms(5) Some by simp
    then have "good_manifest X rs f ev" using assms(4) by (auto simp: answers_def good_manifest_def rs_options_def)
    moreover have "length (sk_pubkey a) = 64" using assms(3) by (simp add: ask_ok_def)
    ultimately have "good_cached X rs k (CEvent ev)"
      using assms(4) unfolding good_cached_def cached.case by blast
    from guar_resolver [OF assms(1,2) rs_inv_put [OF ri this], of "with_manifest a ev s" "TStore a k found" now]
    show ?thesis
      using assms(6) with_manifest_ok [OF assms(3) a] backends_okD(2) [OF assms(1)] Some
      by (auto simp: store_step_def)
  qed
qed

lemma ask_step_ok:
  assumes "pool_ok P" and "ask_ok X cs r a"
    and "keyAndFilter (sk_type a) (sk_pubkey a) (sk_d a) [] = Inr (k, f)"
  shows "thread_ok X cs r lim (Some (rs_options rs)) (ask_step X P a k f rs) \<and>
    class_of (ask_step X P a k f rs) = Some ''site''"
  using assms newestEvent_matches [OF assms(1), of "rs_relays rs" f True]
  by (auto simp: ask_step_def answers_def split: option.split)

text \<open>The steps of the blob cache.\<close>

lemma open_step_ok:
  assumes "backends_ok X (s_be s)" and "be_blobs (s_be s) = Some b" and "target_ok X cs r opts g"
    and "open_step E g b s = (t', s')"
  shows "thread_ok X cs r (en_read E) opts t' \<and> step_guar X (TOpen g) s t' s'"
proof -
  have v: "bs_verified X b" using backends_okD(3) [OF assms(1,2)] .
  show ?thesis
    using v
  proof (cases rule: bs_Open_cases [where ok = "en_open E" and now = "en_now E" and sha = "tg_sha g"])
    case none
    then show ?thesis
      using assms(4) guar_blobs [OF assms(1) v, of not_found "TOpen g"]
      by (auto simp: open_step_def reply_ok_def)
  next
    case (some f)
    define d where "d = (case en_read E of None \<Rightarrow> f | Some n \<Rightarrow> take n f)"
    define b' where "b' = snd (bs_Open (en_open E) (en_now E) (tg_sha g) b)"
    have v': "bs_verified X b'" unfolding b'_def by (rule bs_Open_verified [OF v])
    have "t' = TSend g d" "s' = set_blobs b' s"
      using assms(4) some(1) by (simp_all add: open_step_def d_def b'_def)
    moreover have "read_of X (en_read E) (tg_sha g) d"
      using some(2) by (auto simp: read_of_def d_def split: option.split)
    ultimately show ?thesis using assms(3) guar_blobs [OF assms(1) v', of t' "TOpen g"] by simp
  qed
qed

lemma fetch_step_ok:
  assumes "target_ok X cs r opts g"
  shows "thread_ok X cs r (en_read E) opts (fetch_step X E g s) \<and>
    class_of (fetch_step X E g s) = Some ''site''"
  using assms
  by (auto simp: fetch_step_def read_of_def split: sum.split option.split dest!: fetchFirst_verified)

text \<open>Each phase's assertion is established by the step before it, and each step gives the
  guarantee.\<close>

lemma gate_steps_ok:
  assumes "setup_ok X s" and "backends_ok X (s_be s)" and "s_cfg s \<in> cs"
    and "thread_ok X cs r (en_read E) opts t" and "class_of t = None" and "tstep X E r t s = (t', s')"
  shows "thread_ok X cs r (en_read E) opts t' \<and> step_guar X t s t' s'"
proof -
  have h: "handles_ok s" using assms(1) by (simp add: setup_ok_def)
  note counted = inc_effect [OF h] and be = assms(2)
  show ?thesis
  proof (cases t)
    case TArrive
    then show ?thesis
      using assms by (auto simp: isApex_def apex_host_def intro!: guar_same)
  next
    case TReject
    obtain reg where r: "inc (s_reqOther s) s = s\<lparr>s_reg := reg\<rparr>" "\<forall>c. count_of reg (requests_total, [c]) =
        count_of (s_reg s) (requests_total, [c]) + (if c = ''reject'' then 1 else 0)"
      using counted(3) by blast
    have "step_guar X TReject s (TDone ''reject'' http_NotFound) (s\<lparr>s_reg := reg\<rparr>)"
      by (rule guar_reg [OF be refl]) (auto simp: r(2))
    then show ?thesis using assms(6) TReject r(1) by (auto simp: reply_ok_def)
  next
    case TApex
    obtain reg where r: "inc (s_reqApex s) s = s\<lparr>s_reg := reg\<rparr>" "\<forall>c. count_of reg (requests_total, [c]) =
        count_of (s_reg s) (requests_total, [c]) + (if c = ''apex'' then 1 else 0)"
      using counted(1) by blast
    have "step_guar X TApex s (TDone ''apex'' serveApex) (s\<lparr>s_reg := reg\<rparr>)"
      by (rule guar_reg [OF be refl]) (auto simp: r(2))
    then show ?thesis using assms(4,6) TApex r(1) by (auto simp: reply_ok_def)
  next
    case TParse
    then show ?thesis
      using assms parse_label_ok [of r "s_cfg s" cs X "en_read E" opts] by (auto intro!: guar_same)
  next
    case (TCustom host)
    then show ?thesis
      using assms custom_ok_step [of X s cs "rq_host r"]
      by (cases "map_of (s_custom s) host") (auto intro!: guar_same)
  next
    case (TAllow st pk d)
    then show ?thesis
      using assms allowlisted_permitted [of X s cs st pk]
      by (cases "normalisePath (rq_path r)") (auto simp: ask_ok_def split: if_splits intro!: guar_same)
  next
    case (TCount a)
    obtain reg where r: "inc (s_reqSite s) s = s\<lparr>s_reg := reg\<rparr>" "\<forall>c. count_of reg (requests_total, [c]) =
        count_of (s_reg s) (requests_total, [c]) + (if c = ''site'' then 1 else 0)"
      using counted(2) by blast
    have "step_guar X (TCount a) s (TSite a) (s\<lparr>s_reg := reg\<rparr>)"
      by (rule guar_reg [OF be refl]) (auto simp: r(2))
    then show ?thesis using assms(4,6) TCount r(1) by auto
  qed (use assms(5) in simp_all)
qed

lemma site_steps_ok:
  assumes "setup_ok X s" and "backends_ok X (s_be s)" and "pools_ok E"
    and "thread_ok X cs r (en_read E) opts t" and "class_of t \<noteq> None" and "tstep X E r t s = (t', s')"
    and "opts = held_options (s_be s) \<or> opts = None"
  shows "thread_ok X cs r (en_read E) (if reads_backends t then held_options (s_be s) else opts) t' \<and>
    step_guar X t s t' s'"
proof -
  have h: "handles_ok s" using assms(1) by (simp add: setup_ok_def)
  note be = assms(2) and npk = backends_okD(2) [OF assms(2)]
  have po: "pool_ok (en_pools E i)" for i using assms(3) by (simp add: pools_ok_def)
  have held: "\<exists>rs. be_resolver (s_be s) = Some rs \<and> opts = Some (rs_options rs)" if "opts \<noteq> None"
    using that assms(7) by (cases "be_resolver (s_be s)") (auto simp: held_options_def)
  have stay: "step_guar X t s t'' s" if "class_of t'' = class_of t" for t''
    using that by (intro guar_same [OF be])
  have reg: "step_guar X t s t'' (s\<lparr>s_reg := r\<rparr>)"
    if "\<forall>c. count_of r (requests_total, [c]) = count_of (s_reg s) (requests_total, [c])"
      "class_of t'' = class_of t" for t'' r
    using that assms(5) by (intro guar_reg [OF be refl]) auto
  show ?thesis
  proof (cases t)
    case (TSite a)
    have "t' = (case be_resolver (s_be s) of None \<Rightarrow> not_found
        | Some rs \<Rightarrow> (case keyAndFilter (sk_type a) (sk_pubkey a) (sk_d a) [] of
            Inl e \<Rightarrow> not_found | Inr (key, f) \<Rightarrow> TGet a key f))" "s' = s"
      using assms(6) TSite by auto
    then show ?thesis
      using assms(4) stay TSite
      by (auto simp: reads_backends_def held_options_def reply_ok_def split: option.split sum.split)
  next
    case (TGet a k f)
    then obtain rs where "be_resolver (s_be s) = Some rs" "opts = Some (rs_options rs)"
      using held assms(4) by auto
    then show ?thesis
      using get_step_ok [OF be, of rs cs r a k f] assms(4,6) TGet by (auto simp: reads_backends_def)
  next
    case (TNeg a k f)
    then show ?thesis
      using assms(4,6) held stay by (auto simp: reads_backends_def reply_ok_def)
  next
    case (TAsk a k f)
    then obtain rs where "be_resolver (s_be s) = Some rs" "opts = Some (rs_options rs)"
      using held assms(4) by auto
    then show ?thesis
      using ask_step_ok [OF po, of X cs r a k f "en_read E" rs 0] assms(4,6) TAsk stay
      by (auto simp: reads_backends_def)
  next
    case (TStore a k found)
    then obtain rs where "be_resolver (s_be s) = Some rs" "opts = Some (rs_options rs)"
      using held assms(4) by auto
    then show ?thesis
      using store_step_ok [OF be, of rs cs r a k _ found] assms(4,6) TStore by (auto simp: reads_backends_def)
  next
    case (TNpk g)
    then show ?thesis
      using assms(4,6) npk stay by (auto simp: reads_backends_def split: option.splits)
  next
    case (TBlob g)
    then show ?thesis
      using assms(4,6) stay by (auto simp: reads_backends_def blob_step_def split: option.splits)
  next
    case (THit g)
    then show ?thesis
      using assms(4,6) inc_effect(4) [OF h] reg by (auto simp: reads_backends_def)
  next
    case (TOpen g)
    then show ?thesis
      using assms(4,6) open_step_ok [OF be, of _ cs r opts g E] stay
      by (cases "be_blobs (s_be s)") (auto simp: reads_backends_def reply_ok_def)
  next
    case (TFetch g)
    then show ?thesis
      using assms(4,6) fetch_step_ok [of X cs r opts g E s] stay by (auto simp: reads_backends_def)
  next
    case (TFail cls)
    then show ?thesis
      using assms(6) failure_effect [OF h, of cls] reg by (auto simp: reads_backends_def reply_ok_def)
  next
    case (TPut g data)
    have "read_of X (en_read E) (tg_sha g) data" using assms(4) TPut by (auto simp: read_of_def)
    then show ?thesis
      using assms(4,6) TPut stay guar_blobs [OF be bs_Put_verified [OF backends_okD(3) [OF be]]]
      by (cases "be_blobs (s_be s)") (auto simp: reads_backends_def put_step_def)
  next
    case (TSend g data)
    then have "reply_ok X cs r (en_read E) opts (page X r (tg_sha g) (tg_path g) data (tg_status g))"
      using assms(4) unfolding reply_ok_def by auto
    then show ?thesis
      using assms(6) observe_effect [OF h, of "length data"] reg TSend
      by (auto simp: reads_backends_def serveBytes_page)
  next
    case (TDone c p)
    then show ?thesis using assms(4,6) stay by (auto simp: reads_backends_def)
  qed (use assms(5) in simp_all)
qed

lemma tstep_ok:
  assumes "setup_ok X s" and "backends_ok X (s_be s)" and "pools_ok E" and "s_cfg s \<in> cs"
    and "thread_ok X cs r (en_read E) opts t" and "opts = held_options (s_be s) \<or> opts = None"
    and "tstep X E r t s = (t', s')"
  shows "thread_ok X cs r (en_read E) (if reads_backends t then held_options (s_be s) else opts) t' \<and>
    step_guar X t s t' s'"
proof (cases "class_of t")
  case None
  then have "\<not> reads_backends t" by (cases t) (simp_all add: reads_backends_def)
  then show ?thesis using gate_steps_ok [OF assms(1,2,4,5) None assms(7)] by simp
next
  case (Some c)
  then show ?thesis using site_steps_ok [OF assms(1-3,5) _ assms(7,6)] by simp
qed

subsection \<open>The invariant of the world\<close>

definition job_options :: "'r world \<Rightarrow> 'r job \<Rightarrow> options option" where
  "job_options w j = (case jb_gen j of None \<Rightarrow> None | Some g \<Rightarrow> held_options (snd (w_gens w ! g)))"

definition job_ok :: "ext \<Rightarrow> 'r world \<Rightarrow> 'r job \<Rightarrow> bool" where
  "job_ok X w j \<longleftrightarrow>
     pools_ok (jb_env j) \<and>
     (case jb_gen j of None \<Rightarrow> True | Some g \<Rightarrow> g < length (w_gens w)) \<and>
     thread_ok X (set (jb_seen j)) (jb_req j) (en_read (jb_env j)) (job_options w j) (jb_thread j) \<and>
     length (jb_seen j) + rank (jb_thread j) \<le> 17"

definition jobs_in :: "string \<Rightarrow> 'r world \<Rightarrow> nat" where
  "jobs_in c w = length (filter (\<lambda>j. class_of (jb_thread j) = Some c) (w_jobs w))"

definition world_inv :: "ext \<Rightarrow> 'r world \<Rightarrow> bool" where
  "world_inv X w \<longleftrightarrow>
     setup_ok X (w_srv w) \<and> w_gens w \<noteq> [] \<and> (\<forall>g \<in> set (w_gens w). gen_ready X (snd g)) \<and>
     disks_verified X (w_disk w) \<and> (\<forall>j \<in> set (w_jobs w). job_ok X w j) \<and>
     (\<forall>c. count_of (s_reg (w_srv w)) (requests_total, [c]) = int (jobs_in c w))"

lemma world_inv_job: "world_inv X w \<Longrightarrow> j \<in> set (w_jobs w) \<Longrightarrow> job_ok X w j"
  by (simp add: world_inv_def)

lemma gen_ready_blobs [simp]: "gen_ready X (be\<lparr>be_blobs := b\<rparr>) = gen_ready X be"
  by (simp add: gen_ready_def)

lemma held_options_blobs [simp]: "held_options (be\<lparr>be_blobs := b\<rparr>) = held_options be"
  by (simp add: held_options_def)

lemma gen_backends_eq:
  "w_gens w ! g = (dir, be) \<Longrightarrow> gen_backends g w =
     be\<lparr>be_blobs := map_option (\<lambda>b. b\<lparr>bs_disk := w_disk w dir\<rparr>) (be_blobs be)\<rparr>"
  by (simp add: gen_backends_def)

lemma at_gen_ok:
  assumes "world_inv X w" and "g < length (w_gens w)"
  shows "setup_ok X (at_gen g w)" and "backends_ok X (s_be (at_gen g w))"
    and "held_options (s_be (at_gen g w)) = held_options (snd (w_gens w ! g))"
    and "s_cfg (at_gen g w) = s_cfg (w_srv w)" and "s_reg (at_gen g w) = s_reg (w_srv w)"
    and "same_setup (w_srv w) (at_gen g w)"
proof -
  obtain dir be where g: "w_gens w ! g = (dir, be)" by force
  show same: "same_setup (w_srv w) (at_gen g w)" by (simp add: at_gen_def)
  show "setup_ok X (at_gen g w)" using same_setup_ok [OF same, of X] assms(1) by (simp add: world_inv_def)
  have "gen_ready X be" using assms nth_mem [OF assms(2)] g unfolding world_inv_def by fastforce
  moreover have "disks_verified X (w_disk w)" using assms(1) by (simp add: world_inv_def)
  ultimately show "backends_ok X (s_be (at_gen g w))"
    by (auto simp: at_gen_def gen_backends_eq [OF g] backends_ok_def bs_verified_def disks_verified_def
        split: option.split)
  show "held_options (s_be (at_gen g w)) = held_options (snd (w_gens w ! g))"
    by (simp add: at_gen_def gen_backends_eq [OF g] g)
  show "s_cfg (at_gen g w) = s_cfg (w_srv w)" "s_reg (at_gen g w) = s_reg (w_srv w)"
    by (simp_all add: at_gen_def)
qed

text \<open>Putting the result of a step back keeps what the other jobs rely on.\<close>

lemma put_gen_options:
  assumes "g < length (w_gens w)" and "held_options (s_be s) = held_options (snd (w_gens w ! g))"
  shows "length (w_gens (put_gen g s w)) = length (w_gens w)"
    and "held_options (snd (w_gens (put_gen g s w) ! h)) = held_options (snd (w_gens w ! h))"
  using assms by (cases "h = g"; simp add: put_gen_def)+

lemma put_gen_ok:
  assumes "world_inv X w" and "backends_ok X (s_be s)"
  shows "\<forall>g \<in> set (w_gens (put_gen g s w)). gen_ready X (snd g)" and "disks_verified X (w_disk (put_gen g s w))"
    and "w_gens (put_gen g s w) \<noteq> []"
proof -
  have "gen_ready X (s_be s)" using assms(2) by (simp add: backends_ok_def)
  then show "\<forall>g \<in> set (w_gens (put_gen g s w)). gen_ready X (snd g)"
    using assms(1) set_update_subset_insert [of "w_gens w" g "(fst (w_gens w ! g), s_be s)"]
    by (auto simp: put_gen_def world_inv_def)
  show "disks_verified X (w_disk (put_gen g s w))"
    using assms by (auto simp: put_gen_def world_inv_def backends_ok_def bs_verified_def disks_verified_def
        split: option.split)
  show "w_gens (put_gen g s w) \<noteq> []" using assms(1) by (simp add: put_gen_def world_inv_def)
qed

lemma job_ok_keep:
  assumes "job_ok X w j" and "length (w_gens w) \<le> length (w_gens w')"
    and "\<And>h. h < length (w_gens w) \<Longrightarrow> held_options (snd (w_gens w' ! h)) = held_options (snd (w_gens w ! h))"
  shows "job_ok X w' j"
  using assms by (auto simp: job_ok_def job_options_def split: option.splits)

lemma job_gen_bound:
  assumes "world_inv X w" and "j \<in> set (w_jobs w)"
  shows "job_gen w j < length (w_gens w)"
  using assms by (auto simp: world_inv_def job_ok_def job_gen_def split: option.splits)

text \<open>The job that moves.\<close>

lemma moved_job_ok:
  assumes "world_inv X w" and "j \<in> set (w_jobs w)" and "\<not> finished (jb_thread j)"
    and "tstep X (jb_env j) (jb_req j) (jb_thread j) (at_gen (job_gen w j) w) = (t, s)"
  shows "job_ok X (put_gen (job_gen w j) s w) (moved_job w j t) \<and>
    step_guar X (jb_thread j) (at_gen (job_gen w j) w) t s"
proof -
  let ?g = "job_gen w j"
  let ?cs = "set (jb_seen j) \<union> {s_cfg (w_srv w)}"
  have b: "?g < length (w_gens w)" using job_gen_bound [OF assms(1,2)] .
  note at = at_gen_ok [OF assms(1) b]
  have ok: "job_ok X w j" using assms(1,2) by (simp add: world_inv_def)
  have opts: "job_options w j = held_options (s_be (at_gen ?g w)) \<or> job_options w j = None"
    using at(3) by (cases "jb_gen j") (simp_all add: job_options_def job_gen_def)
  have th: "thread_ok X ?cs (jb_req j) (en_read (jb_env j)) (job_options w j) (jb_thread j)"
    using ok thread_ok_mono [of X "set (jb_seen j)" _ _ _ _ ?cs] by (auto simp: job_ok_def)
  have po: "pools_ok (jb_env j)" using ok by (simp add: job_ok_def)
  have cfg: "s_cfg (at_gen ?g w) \<in> ?cs" by (simp add: at(4))
  note step = tstep_ok [OF at(1,2) po cfg th opts assms(4)]
  then have "held_options (s_be s) = held_options (snd (w_gens w ! ?g))"
    by (simp add: step_guar_def at(3))
  note put = put_gen_options [OF b this]
  have new: "job_options (put_gen ?g s w) (moved_job w j t) =
      (if reads_backends (jb_thread j) then held_options (s_be (at_gen ?g w)) else job_options w j)"
    using put by (auto simp: job_options_def moved_job_def at(3) split: option.split)
  have "rank t < rank (jb_thread j)" using rank_tstep [OF assms(3)] assms(4) by (metis fst_conv)
  then have "length (jb_seen (moved_job w j t)) + rank t \<le> 17"
    using ok by (simp add: moved_job_def job_ok_def)
  moreover have "case jb_gen (moved_job w j t) of None \<Rightarrow> True | Some g \<Rightarrow> g < length (w_gens (put_gen ?g s w))"
    using ok b put(1) by (auto simp: moved_job_def job_ok_def split: option.splits)
  moreover have "set (jb_seen (moved_job w j t)) = ?cs" "jb_thread (moved_job w j t) = t"
      "jb_env (moved_job w j t) = jb_env j" "jb_req (moved_job w j t) = jb_req j"
    by (auto simp: moved_job_def)
  ultimately show ?thesis using step po new by (simp add: job_ok_def)
qed

lemma filter_update_length:
  assumes "i < length xs"
  shows "int (length (filter P (xs[i := y]))) =
    int (length (filter P xs)) + (if P y then 1 else 0) - (if P (xs ! i) then 1 else 0)"
proof -
  have "xs = take i xs @ xs ! i # drop (Suc i) xs" "xs[i := y] = take i xs @ y # drop (Suc i) xs"
    using assms by (simp_all add: id_take_nth_drop upd_conv_take_nth_drop)
  then have "filter P xs = filter P (take i xs) @ filter P [xs ! i] @ filter P (drop (Suc i) xs)"
    "filter P (xs[i := y]) = filter P (take i xs) @ filter P [y] @ filter P (drop (Suc i) xs)"
    by (metis append_Cons append_Nil filter_append)+
  then show ?thesis by simp
qed

lemma run_job_inv:
  assumes "world_inv X w" and "i < length (w_jobs w)" and "\<not> finished (jb_thread (w_jobs w ! i))"
  shows "world_inv X (run_job X i w)"
proof -
  define j where "j = w_jobs w ! i"
  define g where "g = job_gen w j"
  have j: "j \<in> set (w_jobs w)" using assms(2) by (simp add: j_def)
  obtain t s where st: "tstep X (jb_env j) (jb_req j) (jb_thread j) (at_gen g w) = (t, s)" by force
  have w': "run_job X i w = (put_gen g s w)\<lparr>w_jobs := (w_jobs w)[i := moved_job w j t]\<rparr>"
    using st assms(3) by (simp add: run_job_def Let_def j_def g_def)
  have b: "g < length (w_gens w)" using job_gen_bound [OF assms(1) j] by (simp add: g_def)
  note at = at_gen_ok [OF assms(1) b]
  have m: "job_ok X (put_gen g s w) (moved_job w j t)"
    "step_guar X (jb_thread j) (at_gen g w) t s"
    using moved_job_ok [OF assms(1) j] assms(3) st by (simp_all add: j_def g_def)
  have sok: "setup_ok X s" using same_setup_ok [of "at_gen g w" s X] m(2) at(1) by (simp add: step_guar_def)
  have be: "backends_ok X (s_be s)" using m(2) by (simp add: step_guar_def)
  have opts: "held_options (s_be s) = held_options (snd (w_gens w ! g))"
    using m(2) at(3) by (simp add: step_guar_def)
  have other: "job_ok X (put_gen g s w) k" if "k \<in> set (w_jobs w)" for k
    by (rule job_ok_keep [OF world_inv_job [OF assms(1) that]]) (simp_all add: put_gen_options [OF b opts])
  have jobs: "job_ok X (run_job X i w) k" if "k \<in> set (w_jobs (run_job X i w))" for k
  proof -
    have "k = moved_job w j t \<or> k \<in> set (w_jobs w)"
      using that set_update_subset_insert [of "w_jobs w" i "moved_job w j t"] by (auto simp: w')
    then have "job_ok X (put_gen g s w) k" using m(1) other by blast
    then show ?thesis by (rule job_ok_keep) (simp_all add: w')
  qed
  have counts: "count_of (s_reg s) (requests_total, [c]) = int (jobs_in c (run_job X i w))" for c
  proof -
    have "jb_thread (moved_job w j t) = t" by (simp add: moved_job_def)
    then have "int (jobs_in c (run_job X i w)) = int (jobs_in c w) +
        (if class_of t = Some c then 1 else 0) - (if class_of (jb_thread j) = Some c then 1 else 0)"
      using filter_update_length [OF assms(2), of "\<lambda>j. class_of (jb_thread j) = Some c" "moved_job w j t"]
      by (simp add: jobs_in_def w' j_def)
    moreover have "count_of (s_reg s) (requests_total, [c]) = int (jobs_in c w) +
        (if class_of (jb_thread j) = None \<and> class_of t = Some c then 1 else 0)"
      using m(2) at(5) assms(1) by (simp add: step_guar_def world_inv_def)
    moreover have "class_of (jb_thread j) \<noteq> None \<Longrightarrow> class_of t = class_of (jb_thread j)"
      using m(2) by (simp add: step_guar_def)
    ultimately show ?thesis by (cases "class_of (jb_thread j)") auto
  qed
  show ?thesis
    using sok put_gen_ok [OF assms(1) be, of g] jobs counts
    unfolding world_inv_def by (simp add: w' put_gen_def)
qed

lemma setup_ok_apply:
  assumes "cfg_Validate X loopback cfg = None" and "handles_ok s"
  shows "setup_ok X (srv_apply X cfg s)"
proof -
  have "length (cs_pubkey cs) = 64" if "map_of (s_custom (srv_apply X cfg s)) k = Some cs" for k cs
    using custom_keys_valid [OF assms(1) that] .
  then show ?thesis using assms(2) custom_apply [of X cfg s] by (auto simp: setup_ok_def allow_apply)
qed

lemma cstep_inv:
  assumes "world_inv X w" and "cstep X w w'"
  shows "world_inv X w'"
  using assms(2)
proof cases
  case (arrive E r)
  have "job_ok X w' (new_job E r)" using arrive(2) by (simp add: job_ok_def new_job_def)
  moreover have "job_ok X w' j" if "j \<in> set (w_jobs w)" for j
    by (rule job_ok_keep [OF world_inv_job [OF assms(1) that]]) (simp_all add: arrive(1))
  moreover have "jobs_in c w' = jobs_in c w" for c by (simp add: jobs_in_def arrive(1) new_job_def)
  ultimately show ?thesis using assms(1) by (auto simp: world_inv_def arrive(1))
next
  case (run i)
  then show ?thesis using run_job_inv [OF assms(1)] by simp
next
  case (reload loopback cfg)
  have "job_ok X w' j" if "j \<in> set (w_jobs w)" for j
    by (rule job_ok_keep [OF world_inv_job [OF assms(1) that]]) (simp_all add: reload(1))
  moreover have "setup_ok X (srv_apply X cfg (w_srv w))"
    using assms(1) by (intro setup_ok_apply [OF reload(2)]) (simp add: world_inv_def setup_ok_def)
  ultimately show ?thesis
    using assms(1) by (simp add: world_inv_def reload(1) srv_Reload_def jobs_in_def)
next
  case (configure be dir)
  have "job_ok X w' j" if "j \<in> set (w_jobs w)" for j
    by (rule job_ok_keep [OF world_inv_job [OF assms(1) that]]) (simp_all add: configure(1) nth_append)
  then show ?thesis using assms(1) configure(2) by (simp add: world_inv_def configure(1) jobs_in_def)
qed

text \<open>A new server has counted nothing.\<close>

lemma Counter_count: "rg_Counter name help ks r = Some (h, r') \<Longrightarrow> count_of r' k = count_of r k"
  by (auto simp: rg_Counter_def count_of_def touch_eq split: option.splits if_splits)

lemma Histogram_count: "rg_Histogram name help bs ks r = Some (h, r') \<Longrightarrow> count_of r' k = count_of r k"
  by (auto simp: rg_Histogram_def count_of_def split: option.splits if_splits)

lemma class_counter_count: "class_counter cls r = Some (h, r') \<Longrightarrow> count_of r' k = count_of r k"
  by (auto simp: class_counter_def Counter_count With_count split: Option.bind_splits)

lemma srv_New_counts:
  assumes "srv_New X cfg fs = Some s"
  shows "count_of (s_reg s) k = 0"
proof -
  obtain apex r1 site r2 other r3 hits r4 fails r5 served r6 where
    "class_counter ''apex'' metrics_New = Some (apex, r1)" "class_counter ''site'' r1 = Some (site, r2)"
    "class_counter ''reject'' r2 = Some (other, r3)" "rg_Counter cache_hits_total ''blob served from the on-disk cache'' [] r3 = Some (hits, r4)"
    "rg_Counter fetch_failures_total ''blob fetch failures by class'' [''class''] r4 = Some (fails, r5)"
    "rg_Histogram bytes_served ''response body bytes served'' served_buckets [] r5 = Some (served, r6)" "s_reg s = r6"
    using assms by (auto simp: srv_New_def Let_def split: Option.bind_splits)
  moreover have "count_of metrics_New k = 0" by (simp add: metrics_New_def count_of_def)
  ultimately show ?thesis by (simp add: class_counter_count Counter_count Histogram_count)
qed

lemma creach_inv:
  assumes "creach X w"
  shows "world_inv X w"
  using assms
proof induction
  case (first loopback cfg fs s disk)
  obtain s0 where s0: "s = srv_apply X cfg s0" "handles_ok s0"
    using srv_New_Some [of X cfg fs] first(2) by auto
  have "gen_ready X no_backends" by (simp add: gen_ready_def no_backends_def)
  then show ?case
    using first(3) setup_ok_apply [OF first(1) s0(2)] srv_New_counts [OF first(2)]
    by (simp add: world_inv_def first_world_def s0(1) jobs_in_def)
next
  case (further w w')
  then show ?case using cstep_inv by blast
qed

subsection \<open>A job that runs alone\<close>

lemma at_gen_put_gen:
  assumes "g < length (w_gens w)"
  shows "at_gen g ((put_gen g s w)\<lparr>w_jobs := js\<rparr>) = s"
proof -
  have "w_gens ((put_gen g s w)\<lparr>w_jobs := js\<rparr>) ! g = (fst (w_gens w ! g), s_be s)"
    using assms by (simp add: put_gen_def)
  from gen_backends_eq [OF this] show ?thesis
    by (cases s; cases "s_be s"; cases "be_blobs (s_be s)") (simp_all add: at_gen_def put_gen_def)
qed

lemma run_job_length [simp]:
  "length (w_jobs (run_job X i w)) = length (w_jobs w)"
  "length (w_gens (run_job X i w)) = length (w_gens w)"
  by (simp_all add: run_job_def put_gen_def Let_def split: prod.split)

lemma run_job_once:
  fixes X :: ext and w :: "'r world"
  assumes "i < length (w_jobs w)" and "job_gen w (w_jobs w ! i) < length (w_gens w)"
  defines "w' \<equiv> run_job X i w"
  shows "(jb_thread (w_jobs w' ! i), at_gen (job_gen w (w_jobs w ! i)) w') =
      tmove X (jb_env (w_jobs w ! i)) (jb_req (w_jobs w ! i))
        (jb_thread (w_jobs w ! i), at_gen (job_gen w (w_jobs w ! i)) w)"
    and "job_gen w' (w_jobs w' ! i) = job_gen w (w_jobs w ! i)"
    and "jb_env (w_jobs w' ! i) = jb_env (w_jobs w ! i)" and "jb_req (w_jobs w' ! i) = jb_req (w_jobs w ! i)"
proof -
  define j where "j = w_jobs w ! i"
  define g where "g = job_gen w j"
  obtain t s where st: "tstep X (jb_env j) (jb_req j) (jb_thread j) (at_gen g w) = (t, s)" by force
  have "(jb_thread (w_jobs w' ! i), at_gen g w') = tmove X (jb_env j) (jb_req j) (jb_thread j, at_gen g w) \<and>
    job_gen w' (w_jobs w' ! i) = g \<and> jb_env (w_jobs w' ! i) = jb_env j \<and> jb_req (w_jobs w' ! i) = jb_req j"
  proof (cases "finished (jb_thread j)")
    case True
    then obtain c p where "jb_thread j = TDone c p" by (cases "jb_thread j") (auto simp: answered_def)
    then show ?thesis
      using True by (simp add: w'_def run_job_def Let_def tmove_def j_def [symmetric] g_def)
  next
    case False
    then have w': "w' = (put_gen g s w)\<lparr>w_jobs := (w_jobs w)[i := moved_job w j t]\<rparr>"
      using st by (simp add: w'_def run_job_def Let_def j_def g_def)
    have "job_gen w' (moved_job w j t) = g"
      by (auto simp: w' job_gen_def moved_job_def put_gen_def g_def split: option.split)
    moreover have "at_gen g w' = s"
      unfolding w' using assms(2) by (intro at_gen_put_gen) (simp add: g_def j_def)
    ultimately show ?thesis
      using st assms(1) by (simp add: tmove_def w' moved_job_def)
  qed
  then show "(jb_thread (w_jobs w' ! i), at_gen (job_gen w (w_jobs w ! i)) w') =
      tmove X (jb_env (w_jobs w ! i)) (jb_req (w_jobs w ! i))
        (jb_thread (w_jobs w ! i), at_gen (job_gen w (w_jobs w ! i)) w)"
    "job_gen w' (w_jobs w' ! i) = job_gen w (w_jobs w ! i)"
    "jb_env (w_jobs w' ! i) = jb_env (w_jobs w ! i)" "jb_req (w_jobs w' ! i) = jb_req (w_jobs w ! i)"
    by (simp_all add: g_def j_def)
qed

lemma run_job_alone:
  assumes "i < length (w_jobs w)" and "job_gen w (w_jobs w ! i) < length (w_gens w)"
  shows "(jb_thread (w_jobs ((run_job X i ^^ n) w) ! i), at_gen (job_gen w (w_jobs w ! i)) ((run_job X i ^^ n) w)) =
    (tmove X (jb_env (w_jobs w ! i)) (jb_req (w_jobs w ! i)) ^^ n)
      (jb_thread (w_jobs w ! i), at_gen (job_gen w (w_jobs w ! i)) w)"
  using assms
proof (induction n arbitrary: w)
  case (Suc n)
  note once = run_job_once [OF Suc.prems, of X]
  have "i < length (w_jobs (run_job X i w))" using Suc.prems(1) by simp
  moreover have "job_gen (run_job X i w) (w_jobs (run_job X i w) ! i) < length (w_gens (run_job X i w))"
    using Suc.prems(2) by (simp add: once(2))
  ultimately show ?case
    using Suc.IH [of "run_job X i w"] once by (simp add: funpow_Suc_right del: funpow.simps)
qed simp

lemma creach_runs: "creach X w \<Longrightarrow> i < length (w_jobs w) \<Longrightarrow> creach X ((run_job X i ^^ n) w)"
proof (induction n arbitrary: w)
  case (Suc n)
  have "creach X (run_job X i w)"
  proof (cases "finished (jb_thread (w_jobs w ! i))")
    case True
    then show ?thesis using Suc.prems(1) by (simp add: run_job_def Let_def)
  next
    case False
    then show ?thesis using Suc.prems cstep.run creach.further by blast
  qed
  then show ?case using Suc.IH [of "run_job X i w"] Suc.prems(2) by (simp add: funpow_Suc_right del: funpow.simps)
qed simp

end
