(* ===== verification/Overlap.thy ===== *)
theory Overlap
  imports Concurrent Gateway
begin

section \<open>What overlapping requests get: the properties of the concurrent gateway\<close>

text \<open>
  The properties of any number of overlapping requests, reloads and new backends, and where
  overlapping shows what one request at a time does not: an admission under two
  configurations, a cached blob that is gone when it is opened, a blob charged twice, and
  files that no generation of the cache accounts for.
\<close>

subsection \<open>A sample run\<close>

definition site_world :: "unit world" where
  "site_world = (first_world (the (srv_New sample_ext site_config Map.empty)) (\<lambda>_ _. None))
     \<lparr>w_gens := [('''', no_backends), ('''', site_backends)]\<rparr>"

definition site_run :: "unit world" where
  "site_run = (run_job sample_ext 0 ^^ 17) (site_world\<lparr>w_jobs := [new_job site_env site_request]\<rparr>)"

lemma site_world_fields:
  "w_jobs site_world = []" "length (w_gens site_world) = 2" "at_gen (Suc 0) site_world = site_server"
  by (simp_all add: site_world_def first_world_def at_gen_def gen_backends_def site_server_def
      srv_Configure_def site_backends_def empty_store_def)

lemma site_world_reach: "creach sample_ext site_world"
proof -
  obtain s where s: "srv_New sample_ext site_config Map.empty = Some s" using srv_New_Some by blast
  have "creach sample_ext (first_world s (\<lambda>_ _. None) :: unit world)"
    by (rule creach.first [OF site_config_valid s]) (simp add: disks_verified_def)
  moreover have "gen_ready sample_ext site_backends"
    using rs_New_inv by (simp add: gen_ready_def site_backends_def sample_resolver_def)
  ultimately have "creach sample_ext ((first_world s (\<lambda>_ _. None) :: unit world)
      \<lparr>w_gens := w_gens (first_world s (\<lambda>_ _. None) :: unit world) @ [('''', site_backends)]\<rparr>)"
    using cstep.configure creach.further by blast
  then show ?thesis by (simp add: site_world_def s first_world_def)
qed

lemma site_run_reach: "creach sample_ext site_run"
proof -
  have "pools_ok site_env" by (simp add: pools_ok_def site_env_def relay_of_ok)
  from creach.further [OF site_world_reach cstep.arrive [OF this]]
  have "creach sample_ext (site_world\<lparr>w_jobs := [new_job site_env site_request]\<rparr>)"
    by (simp add: site_world_fields)
  then show ?thesis unfolding site_run_def by (rule creach_runs) simp
qed

text \<open>The request on its own gets the page.\<close>

lemma site_run_page:
  "\<exists>c. jb_thread (w_jobs site_run ! 0) =
     TDone c (page sample_ext site_request blob_digest ''/index.html'' ''abcdef'' 200)"
proof -
  let ?w = "site_world\<lparr>w_jobs := [new_job site_env site_request]\<rparr>"
  have g: "job_gen ?w (w_jobs ?w ! 0) = Suc 0" "at_gen (Suc 0) ?w = site_server"
    using site_world_fields by (simp_all add: job_gen_def new_job_def at_gen_def gen_backends_def)
  obtain c where "(tmove sample_ext site_env site_request ^^ 17) (TArrive, site_server) =
      (TDone c (fst (finish sample_ext site_env site_request TArrive site_server)),
       snd (finish sample_ext site_env site_request TArrive site_server))"
    using finish_moves [where t = TArrive and n = 17 and X = sample_ext and E = site_env and r = site_request
        and s = site_server] by auto
  moreover have "(jb_thread (w_jobs site_run ! 0), at_gen (Suc 0) site_run) =
      (tmove sample_ext site_env site_request ^^ 17) (TArrive, site_server)"
    using run_job_alone [where i = 0 and w = ?w and X = sample_ext and n = 17] site_world_fields(2) g by (simp add: site_run_def new_job_def)
  ultimately show ?thesis using site_served by (auto simp: finish_handlePublic)
qed

lemma site_run_job:
  "length (w_jobs site_run) = 1" "jb_env (w_jobs site_run ! 0) = site_env"
  "jb_req (w_jobs site_run ! 0) = site_request"
proof -
  have "jb_env (w_jobs ((run_job X 0 ^^ n) w) ! 0) = jb_env (w_jobs w ! 0) \<and>
      jb_req (w_jobs ((run_job X 0 ^^ n) w) ! 0) = jb_req (w_jobs w ! 0) \<and>
      length (w_jobs ((run_job X 0 ^^ n) w)) = length (w_jobs w)"
    if "w_jobs w \<noteq> []" for X n and w :: "unit world"
    using that
  proof (induction n)
    case (Suc n)
    let ?w = "(run_job X 0 ^^ n) w"
    have "w_jobs ?w \<noteq> []" using Suc by auto
    then show ?case
      using Suc by (cases "w_jobs ?w")
        (simp_all add: run_job_def moved_job_def put_gen_def Let_def split: prod.split)
  qed simp
  from this [where w = "site_world\<lparr>w_jobs := [new_job site_env site_request]\<rparr>" and X = sample_ext and n = 17]
  show "length (w_jobs site_run) = 1" "jb_env (w_jobs site_run ! 0) = site_env"
    "jb_req (w_jobs site_run ! 0) = site_request"
    by (simp_all add: site_run_def new_job_def)
qed

lemma site_page_found: "page sample_ext site_request blob_digest ''/index.html'' ''abcdef'' 200 \<noteq> http_NotFound"
  by (simp add: page_def http_NotFound_def http_Error_def)

subsection \<open>Properties\<close>

text \<open>C3: What a visitor gets is signed, when requests overlap. The gateway has no bundle store here
  (with one, a body may be a member of an archive, \<open>bundle_bytes_unchecked\<close>), and the files in
  its cache directories are authentic when it starts. Any number of requests take their steps
  in any order, with reloads and new backends in between, any answers of relays and servers, any
  failures of the caches and any evictions. A finished request whose answer is neither the
  bounded 404 nor the apex page (for a host that was the gateway's domain) is a page of a valid
  manifest by the key of a site that its host named and that might be served, each under a
  configuration in force at one of the request's own steps. The ETag is the digest the manifest
  gives for the path served. The body, unless the client has it already, is the content with
  that digest; a request whose read of a cached file ends early may get a beginning of it.\<close>

theorem overlapping_requests_signed:
  assumes "sha256_ok X" and "creach X w" and "j \<in> set (w_jobs w)" and "jb_thread j = TDone c resp"
    and "resp \<noteq> http_NotFound" and "resp \<noteq> serveApex"
  shows "\<exists>(a :: ask) opts (ev :: event) p sha.
    ask_ok X (set (jb_seen j)) (jb_req j) a \<and> answers X opts a ev \<and> ev_pubkey ev = sk_pubkey a \<and>
    opts \<in> held_options ` snd ` set (w_gens w) \<and> [''path'', p, sha] \<in> set (ev_tags ev) \<and>
    (p = sk_path a \<and> rp_status resp \<in> {200, 304} \<or> p = ''/404.html'' \<and> rp_status resp \<in> {404, 304}) \<and>
    map_of (rp_headers resp) ''ETag'' = Some (etag_of sha) \<and>
    (if rp_status resp = 304 then rp_body resp = []
     else \<exists>content. hash_hex X content = sha \<and>
       (rp_body resp = content \<or> (\<exists>n. en_read (jb_env j) = Some n \<and> rp_body resp = take n content)))"
proof -
  have ok: "job_ok X w j" using creach_inv [OF assms(2)] assms(3) by (rule world_inv_job)
  then obtain g data where g: "target_ok X (set (jb_seen j)) (jb_req j) (job_options w j) g"
      "read_of X (en_read (jb_env j)) (tg_sha g) data" "resp = page X (jb_req j) (tg_sha g) (tg_path g) data (tg_status g)"
    using assms(4-6) by (auto simp: job_ok_def reply_ok_def)
  then have ask: "ask_ok X (set (jb_seen j)) (jb_req j) (tg_ask g)"
    and ans: "answers X (job_options w j) (tg_ask g) (tg_event g)"
    and path: "lookup_path (path_map (ev_tags (tg_event g))) (sk_path (tg_ask g)) =
      Some (tg_sha g, tg_path g, tg_status g)"
    by (simp_all add: target_ok_def)
  obtain opt k f where o: "job_options w j = Some opt" "v_valid (Validate X (tg_event g) opt)"
      "keyAndFilter (sk_type (tg_ask g)) (sk_pubkey (tg_ask g)) (sk_d (tg_ask g)) [] = Inr (k, f)"
      "matches f (tg_event g)"
    using ans by (auto simp: answers_def)
  have "sk_type (tg_ask g) \<noteq> SiteSnapshot" using o(3) by (auto simp: keyAndFilter_def)
  then have pk: "ev_pubkey (tg_event g) = sk_pubkey (tg_ask g)"
    using manifest_site [OF assms(1) o(2-4)] by simp
  have gen: "job_options w j \<in> held_options ` snd ` set (w_gens w)"
  proof -
    obtain h where h: "jb_gen j = Some h" using o(1) by (auto simp: job_options_def split: option.splits)
    then have "w_gens w ! h \<in> set (w_gens w)" using ok by (simp add: job_ok_def)
    then show ?thesis using h by (auto simp: job_options_def)
  qed
  have code: "tg_path g = sk_path (tg_ask g) \<and> tg_status g = 200 \<or> tg_path g = ''/404.html'' \<and> tg_status g = 404"
    and tag: "[''path'', tg_path g, tg_sha g] \<in> set (ev_tags (tg_event g))"
    using lookup_path_tag [OF assms(1) o(2) path] by blast+
  show ?thesis
    using code g(2) by (intro exI conjI) (rule ask ans pk gen tag | force simp: g(3) read_of_def)+
qed

theorem overlapping_requests_signed_witness:
  "\<exists>(a :: ask) (ev :: event) p. ask_ok sample_ext (set (jb_seen (w_jobs site_run ! 0))) site_request a \<and>
     ev_pubkey ev = sk_pubkey a \<and> [''path'', p, hash_hex sample_ext ''abcdef''] \<in> set (ev_tags ev)"
proof -
  obtain c where t: "jb_thread (w_jobs site_run ! 0) =
      TDone c (page sample_ext site_request blob_digest ''/index.html'' ''abcdef'' 200)"
    using site_run_page by blast
  have j: "w_jobs site_run ! 0 \<in> set (w_jobs site_run)" using site_run_job(1) by simp
  have apex: "page sample_ext site_request blob_digest ''/index.html'' ''abcdef'' 200 \<noteq> serveApex"
    by (simp add: page_def serveApex_def)
  obtain a :: ask and ev :: event and p sha where x: "ask_ok sample_ext (set (jb_seen (w_jobs site_run ! 0))) site_request a"
      "ev_pubkey ev = sk_pubkey a" "[''path'', p, sha] \<in> set (ev_tags ev)"
      "map_of (rp_headers (page sample_ext site_request blob_digest ''/index.html'' ''abcdef'' 200)) ''ETag'' =
         Some (etag_of sha)"
    using overlapping_requests_signed [OF sample_ext_ok(1) site_run_reach j t site_page_found apex]
    unfolding site_run_job(3) by blast
  then have "sha = hash_hex sample_ext ''abcdef''" by (simp add: etag_of_def site_digest)
  then show ?thesis using x by blast
qed

lemma run_job_rank:
  assumes "i < length (w_jobs w)" and "\<not> finished (jb_thread (w_jobs w ! i))"
  shows "rank (jb_thread (w_jobs (run_job X i w) ! i)) < rank (jb_thread (w_jobs w ! i))"
    and "k \<noteq> i \<Longrightarrow> w_jobs (run_job X i w) ! k = w_jobs w ! k"
  using assms rank_tstep [OF assms(2), of X "jb_env (w_jobs w ! i)" "jb_req (w_jobs w ! i)"
      "at_gen (job_gen w (w_jobs w ! i)) w"]
  by (auto simp: run_job_def moved_job_def put_gen_def Let_def split: prod.split)

definition work_left :: "'r world \<Rightarrow> nat" where
  "work_left w = (\<Sum>j\<leftarrow>w_jobs w. rank (jb_thread j))"

lemma work_left_less:
  assumes "i < length (w_jobs w)" and "\<not> finished (jb_thread (w_jobs w ! i))"
  shows "work_left (run_job X i w) < work_left w"
proof -
  have "w_jobs (run_job X i w) = (w_jobs w)[i := w_jobs (run_job X i w) ! i]"
    using run_job_rank(2) [OF assms] assms(1) by (intro nth_equalityI) (auto simp: nth_list_update)
  then show ?thesis
    using sum_list_update_less [OF assms(1), of "\<lambda>j. rank (jb_thread j)"] run_job_rank(1) [OF assms]
    unfolding work_left_def by metis
qed

text \<open>A request takes at most 17 steps of its own, and no schedule runs the requests that have
  arrived for ever. That a request can always move is how \<open>cstep\<close> is built: a lock region is a
  single step, so no lock is ever waited for, and neither is the network.\<close>

lemma request_steps:
  assumes "creach X w" and "i < length (w_jobs w)"
  shows "length (jb_seen (w_jobs w ! i)) + rank (jb_thread (w_jobs w ! i)) \<le> 17"
proof -
  have "job_ok X w (w_jobs w ! i)"
    using creach_inv [OF assms(1)] assms(2) by (intro world_inv_job) simp_all
  then show ?thesis by (simp add: job_ok_def)
qed

lemma schedules_end:
  "wf {(w2, w1 :: 'r world). \<exists>k < length (w_jobs w1).
      \<not> finished (jb_thread (w_jobs w1 ! k)) \<and> w2 = run_job X k w1}"
  by (rule wf_subset [OF wf_measure [of work_left]]) (auto intro: work_left_less)

text \<open>C14: No request is lost and none is counted twice, whatever overlaps: in every reachable
  state each of the request counters is exactly the number of requests that are past their
  counting step in that class; and a request keeps its class to its end.\<close>

theorem requests_counted:
  assumes "creach X w"
  shows "count_of (s_reg (w_srv w)) (requests_total, [c]) =
      int (length (filter (\<lambda>j. class_of (jb_thread j) = Some c) (w_jobs w))) \<and>
    (\<forall>i < length (w_jobs w). case class_of (jb_thread (w_jobs w ! i)) of
       None \<Rightarrow> \<not> finished (jb_thread (w_jobs w ! i))
     | Some cls \<Rightarrow> class_of (jb_thread (w_jobs (run_job X i w) ! i)) = Some cls)"
proof (intro conjI allI impI)
  have inv: "world_inv X w" using creach_inv [OF assms] .
  then show "count_of (s_reg (w_srv w)) (requests_total, [c]) =
      int (length (filter (\<lambda>j. class_of (jb_thread j) = Some c) (w_jobs w)))"
    by (simp add: world_inv_def jobs_in_def)
  fix i assume i: "i < length (w_jobs w)"
  let ?j = "w_jobs w ! i"
  have j: "?j \<in> set (w_jobs w)" using i by simp
  show "case class_of (jb_thread ?j) of
       None \<Rightarrow> \<not> finished (jb_thread ?j)
     | Some cls \<Rightarrow> class_of (jb_thread (w_jobs (run_job X i w) ! i)) = Some cls"
  proof (cases "finished (jb_thread ?j)")
    case True
    then obtain c p where "jb_thread ?j = TDone c p" by (cases "jb_thread ?j") (auto simp: answered_def)
    then show ?thesis by (simp add: run_job_def answered_def)
  next
    case False
    obtain t s where st: "tstep X (jb_env ?j) (jb_req ?j) (jb_thread ?j) (at_gen (job_gen w ?j) w) = (t, s)"
      by force
    have "step_guar X (jb_thread ?j) (at_gen (job_gen w ?j) w) t s"
      using moved_job_ok [OF inv j False st] by simp
    then show ?thesis
      using False st i
      by (auto simp: step_guar_def run_job_def put_gen_def moved_job_def Let_def split: option.split)
  qed
qed

theorem requests_counted_witness:
  "count_of (s_reg (w_srv site_run)) (requests_total, [''site'']) =
     int (length (filter (\<lambda>j. class_of (jb_thread j) = Some ''site'') (w_jobs site_run)))"
  using requests_counted [OF site_run_reach, of "''site''"] by simp

definition run_new :: "ext \<Rightarrow> 'r env \<Rightarrow> request \<Rightarrow> 'r world \<Rightarrow> 'r world" where
  "run_new X E r w = (run_job X (length (w_jobs w)) ^^ 17) (w\<lparr>w_jobs := w_jobs w @ [new_job E r]\<rparr>)"

text \<open>The phases are the handler, cut in pieces: a request that takes its steps with nothing in
  between gets the response of \<^verbatim>\<open>handlePublic\<close> on the current configuration and backends, and
  leaves the server, with the backends and the files of their blob cache, as it does.\<close>

lemma undisturbed_request:
  assumes "w_gens w \<noteq> []"
  shows "answered (jb_thread (w_jobs (run_new X E r w) ! length (w_jobs w))) =
      Some (fst (handlePublic X E r (at_gen (length (w_gens w) - 1) w))) \<and>
    at_gen (length (w_gens w) - 1) (run_new X E r w) =
      snd (handlePublic X E r (at_gen (length (w_gens w) - 1) w))"
proof -
  let ?w1 = "run_new X E r w"
  let ?w = "w\<lparr>w_jobs := w_jobs w @ [new_job E r]\<rparr>" and ?g = "length (w_gens w) - 1"
  have g: "job_gen ?w (w_jobs ?w ! length (w_jobs w)) = ?g" "at_gen ?g ?w = at_gen ?g w"
    by (simp_all add: job_gen_def new_job_def at_gen_def gen_backends_def)
  obtain c where "(tmove X E r ^^ 17) (TArrive, at_gen ?g w) =
      (TDone c (fst (handlePublic X E r (at_gen ?g w))), snd (handlePublic X E r (at_gen ?g w)))"
    using finish_moves [where t = TArrive and n = 17 and X = X and E = E and r = r and s = "at_gen ?g w"]
    by (auto simp: finish_handlePublic)
  moreover have "(jb_thread (w_jobs ?w1 ! length (w_jobs w)), at_gen ?g ?w1) =
      (tmove X E r ^^ 17) (TArrive, at_gen ?g w)"
    using run_job_alone [where i = "length (w_jobs w)" and w = ?w and X = X and n = 17] assms(1) g
    by (simp add: run_new_def new_job_def)
  ultimately show ?thesis by (simp add: answered_def)
qed

subsection \<open>The process overlaps its requests\<close>

text \<open>A \<^verbatim>\<open>SIGHUP\<close> whose configuration loads is a \<open>reload\<close> step and then a \<open>configure\<close> step, when
  packages are off: \<open>applyBackends\<close> builds backends that \<open>configure\<close> admits.\<close>

lemma applyBackends_ready:
  assumes "applyBackends H cfg s = Running s'" and "\<not> np_Enabled (cf_Npk cfg)"
  shows "gen_ready X (s_be s') \<and> s' = srv_Configure (s_be s') s"
proof -
  from applyBackends_Running [OF assms(1)] obtain be fs' where be: "s' = srv_Configure be (s\<lparr>s_fs := fs'\<rparr>)"
      "be_resolver be = Some (resolver_of H cfg)" "open_bundles H cfg (s_fs s) = Running (fs', be_npk be)"
    by metis
  have "rs_inv X (resolver_of H cfg)" unfolding resolver_of_def Let_def by (rule rs_New_inv)
  moreover have "be_npk be = None" "fs' = s_fs s" using be(3) assms(2) by (simp_all add: open_bundles_def)
  ultimately show ?thesis using be(1,2) by (simp add: gen_ready_def srv_Configure_def)
qed

lemma sighup_overlaps:
  assumes "cfg_Load X (h_loopback H) (h_toml H) (h_raw H) = Inr cfg" and "\<not> np_Enabled (cf_Npk cfg)"
    and "applyBackends H cfg (srv_Reload X cfg (w_srv w)) = Running s'" and "creach X w"
  shows "creach X (w\<lparr>w_srv := srv_Reload X cfg (w_srv w), w_gens := w_gens w @ [(CachePath cfg, s_be s')]\<rparr>)"
proof -
  let ?w1 = "w\<lparr>w_srv := srv_Reload X cfg (w_srv w)\<rparr>"
  have "creach X ?w1" using assms(4) cstep.reload [OF Load_valid [OF assms(1)]] by (rule creach.further)
  moreover have "cstep X ?w1 (?w1\<lparr>w_gens := w_gens ?w1 @ [(CachePath cfg, s_be s')]\<rparr>)"
    using applyBackends_ready [OF assms(3,2)] by (intro cstep.configure) simp
  ultimately have "creach X (?w1\<lparr>w_gens := w_gens ?w1 @ [(CachePath cfg, s_be s')]\<rparr>)" by (rule creach.further)
  then show ?thesis by simp
qed

subsection \<open>Where overlapping departs from the sequential reading\<close>

text \<open>A request reads the configuration in three lock regions. Here the domain and the attached
  domains are read before a reload and the allowlist after it: the request is admitted,
  though the gateway rejects it under the old configuration and under the new one.\<close>

definition old_config :: config where
  "old_config = site_config\<lparr>cf_Sites := []\<rparr>"

definition new_config :: config where
  "new_config = site_config\<lparr>cf_CustomDomains := []\<rparr>"

lemma mixed_configurations_valid:
  "cfg_Validate sample_ext False old_config = None" "cfg_Validate sample_ext False new_config = None"
proof -
  have "custom_checks sample_ext (Domain cfg_Defaults) {} (cf_CustomDomains site_config) = None"
    by code_simp
  then show "cfg_Validate sample_ext False old_config = None" "cfg_Validate sample_ext False new_config = None"
    using Defaults_valid unfolding cfg_Validate_def first_error_None list.pred_inject
    by (simp_all add: all_relays_def old_config_def new_config_def site_config_def zeros64_def split: if_splits)
qed

lemma mixed_configurations_admit:
  fixes s :: server
  assumes "s1 = srv_apply sample_ext old_config s" and "s2 = srv_apply sample_ext new_config s"
  shows "gate sample_ext s1 site_request = None" and "gate sample_ext s2 site_request = None"
    and "tstep sample_ext E site_request TArrive s1 = (TParse, s1)"
    and "tstep sample_ext E site_request TParse s1 = (TCustom ''a.example'', s1)"
    and "tstep sample_ext E site_request (TCustom ''a.example'') s1 = (TAllow SiteRoot zeros64 [], s1)"
    and "tstep sample_ext E site_request (TAllow SiteRoot zeros64 []) s2 =
      (TCount \<lparr>sk_type = SiteRoot, sk_pubkey = zeros64, sk_d = [], sk_path = ''/index.html''\<rparr>, s2)"
proof -
  have h: "request_host sample_ext ''a.example:443'' = ''a.example''"
    using request_host_plain(2) [of "''a.example''" "''443''"] by (simp add: host_char_def ascii_defs)
  have n: "normalisePath ''/'' = Some ''/index.html''" and f: "norm_fqdn sample_ext ''a.example'' = ''a.example''"
    and suf: "\<not> suffix (''.'' @ ''sites.example.org'') ''a.example''" by code_simp+
  have one: "s_cfg s1 = old_config" "s_allow s1 = []" "Domain old_config = ''sites.example.org''"
    "Mode old_config = ''hosted''"
    "s_custom s1 = [(''a.example'', \<lparr>cs_siteType = SiteRoot, cs_pubkey = zeros64, cs_d = []\<rparr>)]"
    by (simp_all add: assms(1) srv_apply_def old_config_def site_config_def cfg_Defaults_def f)
  have two: "s_cfg s2 = new_config" "s_allow s2 = [(zeros64, ())]" "Domain new_config = ''sites.example.org''"
    "Mode new_config = ''hosted''" "s_custom s2 = []"
    by (simp_all add: assms(2) srv_apply_def new_config_def site_config_def cfg_Defaults_def)
  show "gate sample_ext s1 site_request = None" "gate sample_ext s2 site_request = None"
    using h suf by (simp_all add: gate_def isApex_def parseHost_def site_request_def one two allowlisted_def)
  show "tstep sample_ext E site_request TArrive s1 = (TParse, s1)"
    using h by (simp add: site_request_def isApex_def one prefix_def)
  show "tstep sample_ext E site_request TParse s1 = (TCustom ''a.example'', s1)"
    using h suf by (simp add: site_request_def parse_label_def one)
  show "tstep sample_ext E site_request (TCustom ''a.example'') s1 = (TAllow SiteRoot zeros64 [], s1)"
    by (simp add: one)
  show "tstep sample_ext E site_request (TAllow SiteRoot zeros64 []) s2 =
      (TCount \<lparr>sk_type = SiteRoot, sk_pubkey = zeros64, sk_d = [], sk_path = ''/index.html''\<rparr>, s2)"
    using n by (simp add: allowlisted_def two site_request_def)
qed

text \<open>\<open>serveBlob\<close> asks the cache whether it has the blob and opens it in a later lock region. A
  \<open>Put\<close> of another request in between may evict it, and then the answer is 404: nothing
  falls back to the servers, though the blob was there when the request asked.\<close>

lemma evicted_before_open:
  assumes "be_blobs (s_be s) = Some b" and "bs_Has b (tg_sha g)"
    and "snd (bs_Put X (en_put E') (en_rm E') (en_rng E') (en_now E') (tg_sha g') data b) = b'"
    and "bs_disk b' (tg_sha g) = None"
  shows "tstep X E r (TBlob g) s = (THit g, s)"
    and "fst (tstep X E r (TOpen g) (snd (tstep X E' r' (TPut g' data) (snd (tstep X E r (THit g) s))))) = not_found"
  using assms
  by (simp_all add: blob_step_def put_step_def open_step_def bs_Open_def set_blobs_def)

definition full_cache :: blob_store where
  "full_cache = \<lparr>bs_quota = 10, bs_used = 6, bs_sizes = [(blob_digest, 6)], bs_last_use = [(blob_digest, 0)],
     bs_disk = [blob_digest \<mapsto> ''abcdef'']\<rparr>"

lemma full_cache_evicts:
  "bs_inv full_cache \<and> bs_verified sample_ext full_cache \<and> bs_Has full_cache blob_digest \<and>
   bs_disk (snd (bs_Put sample_ext all_io (\<lambda>_. True) id 1 (hash_hex sample_ext ''ghijkl'') ''ghijkl'' full_cache))
     blob_digest = None"
proof -
  have "hash_hex sample_ext ''ghijkl'' \<noteq> blob_digest" unfolding blob_digest_def by code_simp
  then show ?thesis
    by (auto simp: full_cache_def bs_inv_def bs_verified_def distinct_keys_def bs_Has_def size_of_def site_digest
        bs_Put_def all_io_def evictLocked_def stored_blob_def evict_order_def last_use_of_def drop_blob_def)
qed

text \<open>After a reload two generations of backends keep count of one cache directory. What a request
  of the old generation stores lies in the directory, but the new generation does not know of
  it: it does not count towards the quota and is never evicted before a restart.\<close>

lemma stale_generation_unaccounted:
  assumes "i < length (w_jobs w)" and "w_jobs w ! i = j" and "jb_thread j = TPut g data"
    and "jb_gen j = Some old" and "old \<noteq> new" and "old < length (w_gens w)" and "new < length (w_gens w)"
    and "w_gens w ! old = (dir, be)" and "be_blobs be = Some b"
    and "w_gens w ! new = (dir, be')" and "be_blobs be' = Some b'"
    and "en_put (jb_env j) = all_io" and "hash_hex X data = tg_sha g"
    and "bs_used b + int (length data) \<le> bs_quota b"
  shows "w_disk (run_job X i w) dir (tg_sha g) = Some data"
    and "be_blobs (gen_backends new (run_job X i w)) =
      Some (b'\<lparr>bs_disk := w_disk (run_job X i w) dir\<rparr>)"
proof -
  define st where "st = b\<lparr>bs_disk := w_disk w dir\<rparr>"
  define s where "s = at_gen old w"
  define put where "put = stored_blob (en_now (jb_env j)) (tg_sha g) data st"
  have be: "s_be s = be\<lparr>be_blobs := Some st\<rparr>"
    using assms(8,9) by (simp add: s_def at_gen_def gen_backends_def st_def)
  have "snd (bs_Put X all_io (en_rm (jb_env j)) (en_rng (jb_env j)) (en_now (jb_env j)) (tg_sha g) data st) = put"
    using assms(13,14) by (simp add: bs_Put_def all_io_def evictLocked_def put_def stored_blob_def st_def)
  then have "tstep X (jb_env j) (jb_req j) (TPut g data) s = (TSend g data, set_blobs put s)"
    using assms(12) by (simp add: be put_step_def)
  then have w': "run_job X i w =
      (put_gen old (set_blobs put s) w)\<lparr>w_jobs := (w_jobs w)[i := moved_job w j (TSend g data)]\<rparr>"
    using assms(2-4) by (simp add: run_job_def job_gen_def answered_def s_def)
  show "w_disk (run_job X i w) dir (tg_sha g) = Some data"
    using assms(8) by (simp add: w' put_gen_def set_blobs_def put_def stored_blob_def)
  show "be_blobs (gen_backends new (run_job X i w)) = Some (b'\<lparr>bs_disk := w_disk (run_job X i w) dir\<rparr>)"
    using assms(5-11) by (simp add: w' put_gen_def gen_backends_def set_blobs_def)
qed

text \<open>Two requests for a blob that is not cached both fetch it and both store it, and \<open>Put\<close> charges
  it twice. One after the other they would not: the second would find it cached.\<close>

lemma overlapping_puts_charge_twice:
  assumes "be_blobs (s_be s) = Some b" and "\<not> bs_Has b sha" and "hash_hex X data = sha"
    and "bs_used b + 2 * int (length data) \<le> bs_quota b"
    and "en_put E = all_io" and "en_put E' = all_io" and "tg_sha g = sha" and "tg_sha g' = sha"
  shows "tstep X E r (TBlob g) s = (TFetch g, s)" and "tstep X E' r' (TBlob g') s = (TFetch g', s)"
    and "\<exists>b2. be_blobs (s_be (snd (tstep X E' r' (TPut g' data) (snd (tstep X E r (TPut g data) s))))) = Some b2 \<and>
      bs_used b2 = bs_used b + 2 * int (length data) \<and> size_of b2 sha = int (length data)"
proof -
  show "tstep X E r (TBlob g) s = (TFetch g, s)" "tstep X E' r' (TBlob g') s = (TFetch g', s)"
    using assms(1,2,7,8) by (simp_all add: blob_step_def)
  have put: "snd (bs_Put X all_io rm rng now sha data b') = stored_blob now sha data b'"
    if "bs_used b' + int (length data) \<le> bs_quota b'" for rm rng now b'
    using assms(3) that by (simp add: bs_Put_def all_io_def evictLocked_def stored_blob_def)
  define b1 where "b1 = stored_blob (en_now E) sha data b"
  have 1: "snd (tstep X E r (TPut g data) s) = set_blobs b1 s"
    using assms put by (simp add: put_step_def b1_def)
  have "bs_used b1 + int (length data) \<le> bs_quota b1" using assms(4) by (simp add: b1_def stored_blob_def)
  then have "snd (tstep X E' r' (TPut g' data) (set_blobs b1 s)) =
      set_blobs (stored_blob (en_now E') sha data b1) s"
    using assms put by (simp add: put_step_def set_blobs_def)
  then show "\<exists>b2. be_blobs (s_be (snd (tstep X E' r' (TPut g' data) (snd (tstep X E r (TPut g data) s))))) = Some b2 \<and>
      bs_used b2 = bs_used b + 2 * int (length data) \<and> size_of b2 sha = int (length data)"
    unfolding 1 by (simp add: set_blobs_def b1_def stored_blob_def size_of_def update_conv')
qed

end
