(* ===== verification/MainLoop.thy ===== *)
theory MainLoop
  imports Gateway
begin

section \<open>The listeners and the loops of the process (\<^verbatim>\<open>main.go\<close>, \<^verbatim>\<open>Server.Start\<close>)\<close>

text \<open>
  \<open>Start\<close> reads the two listen addresses once, gives a handler to each and starts a goroutine
  per listener, which binds the address or fails; then it waits for the end of the process or
  for a failure, and in the first case shuts both down. Next to it, the \<^verbatim>\<open>SIGHUP\<close> goroutine
  reloads until the process ends. What reaches the process is a list of events: a listener is
  bound, a whole request on a listener, a signal, or the failure of a listener; requests that
  overlap are in theory \<open>Concurrent\<close>. \<open>Shutdown\<close> closes the listener whether or not the
  connections end within its five seconds. The end of the process is the return of \<open>main\<close>
  with the addresses still bound then, or an \<open>os.Exit\<close>.
\<close>

datatype endpoint = HandlePublic | HandleInternal

record http_server =
  hs_Addr :: string
  hs_Handler :: endpoint
  hs_bound :: bool





definition serve_on ::
  "ext \<Rightarrow> 'r env \<Rightarrow> request \<Rightarrow> http_server \<Rightarrow> server \<Rightarrow> response \<times> server" where
  "serve_on X E r l s =
     (case hs_Handler l of
        HandlePublic \<Rightarrow> handlePublic X E r s | HandleInternal \<Rightarrow> handleInternal X E r s)"

text \<open>The process while \<open>Start\<close> blocks.\<close>

record serving =
  sv_gateway :: gateway
  sv_public :: http_server
  sv_internal :: http_server




datatype 'r event_in =
    Bound endpoint
  | PublicConn "'r env" request
  | InternalConn "'r env" request
  | SigHup host
  | Terminate
  | ListenFailed string



text \<open>A connection needs a listener that is bound; without one the process sees nothing.\<close>

definition connected :: "ext \<Rightarrow> 'r env \<Rightarrow> request \<Rightarrow> http_server \<Rightarrow> serving \<Rightarrow> serving" where
  "connected X E r l v =
     (if hs_bound l
      then v\<lparr>sv_gateway := (sv_gateway v)\<lparr>gw_srv := snd (serve_on X E r l (gw_srv (sv_gateway v)))\<rparr>\<rparr>
      else v)"




lemma connected_fields [simp]:
  "sv_public (connected X E r l v) = sv_public v" "sv_internal (connected X E r l v) = sv_internal v"
  by (simp_all add: connected_def)



text \<open>The two servers after some events: the start's, bound once their listener came up.\<close>

definition after_bound :: "'r event_in list \<Rightarrow> http_server \<Rightarrow> http_server" where
  "after_bound es l = l\<lparr>hs_bound := hs_bound l \<or> Bound (hs_Handler l) \<in> set es\<rparr>"


lemma after_bound_Nil [simp]: "after_bound [] l = l"
  by (simp add: after_bound_def)


lemma after_bound_Handler [simp]: "hs_Handler (after_bound es l) = hs_Handler l"
  by (simp add: after_bound_def)


subsection \<open>Properties\<close>



subsection \<open>Settings without an effect\<close>

text \<open>The configuration has fallback servers, a request rate with a burst, a bound on concurrent
  fetches and a lifetime for releases. Nothing reads them after validation: two configurations
  that differ only there give the same backends, and admit and refuse the same requests. The
  README counts the fallback servers among the places blobs are fetched from.\<close>

definition retuned :: "string list \<Rightarrow> int \<Rightarrow> int \<Rightarrow> int \<Rightarrow> int \<Rightarrow> config \<Rightarrow> config" where
  "retuned fallback ttl conc rps burst cfg =
     cfg\<lparr>cf_Blossom := (cf_Blossom cfg)\<lparr>FallbackServers := fallback\<rparr>,
         cf_Npk := (cf_Npk cfg)\<lparr>np_ReleaseTTL := ttl\<rparr>,
         cf_Limits := (cf_Limits cfg)
           \<lparr>li_FetchConcurrency := conc, li_RequestsPerSecond := rps, li_RequestsBurst := burst\<rparr>\<rparr>"

lemma retuned_apply:
  "isApex X (srv_apply X (retuned fallback ttl conc rps burst cfg) s) host = isApex X (srv_apply X cfg s) host"
  "parseHost X (srv_apply X (retuned fallback ttl conc rps burst cfg) s) host = parseHost X (srv_apply X cfg s) host"
  "allowlisted (srv_apply X (retuned fallback ttl conc rps burst cfg) s) st pk = allowlisted (srv_apply X cfg s) st pk"
proof -
  let ?s1 = "srv_apply X cfg s" and ?s2 = "srv_apply X (retuned fallback ttl conc rps burst cfg) s"
  have f: "Domain (s_cfg ?s2) = Domain (s_cfg ?s1)" "Mode (s_cfg ?s2) = Mode (s_cfg ?s1)"
    "s_custom ?s2 = s_custom ?s1" "s_allow ?s2 = s_allow ?s1"
    by (simp_all add: srv_apply_def retuned_def)
  show "isApex X ?s2 host = isApex X ?s1 host" "parseHost X ?s2 host = parseHost X ?s1 host"
    "allowlisted ?s2 st pk = allowlisted ?s1 st pk"
    by (simp_all only: isApex_def parseHost_def allowlisted_def f)
qed

lemma idle_settings:
  "applyBackends H (retuned fallback ttl conc rps burst cfg) s = applyBackends H cfg s"
  "gate X (srv_apply X (retuned fallback ttl conc rps burst cfg) s) r = gate X (srv_apply X cfg s) r"
  "apex_request X (srv_apply X (retuned fallback ttl conc rps burst cfg) s) r = apex_request X (srv_apply X cfg s) r"
proof -
  let ?cfg = "retuned fallback ttl conc rps burst cfg"
  have local: "local_cfg ?cfg = local_cfg cfg" "bc_AllowHTTP (cf_Blossom ?cfg) = bc_AllowHTTP (cf_Blossom cfg)"
    by (simp_all add: retuned_def)
  have npk: "np_Enabled (cf_Npk ?cfg) = np_Enabled (cf_Npk cfg)" "np_CachePath (cf_Npk ?cfg) = np_CachePath (cf_Npk cfg)"
    "np_CataloguePath (cf_Npk ?cfg) = np_CataloguePath (cf_Npk cfg)" "cf_Relays ?cfg = cf_Relays cfg"
    by (simp_all add: retuned_def)
  have lim: "li_MaxBlobBytes (cf_Limits ?cfg) = li_MaxBlobBytes (cf_Limits cfg)"
    "li_FetchTimeoutSeconds (cf_Limits ?cfg) = li_FetchTimeoutSeconds (cf_Limits cfg)"
    "li_MaxRedirects (cf_Limits ?cfg) = li_MaxRedirects (cf_Limits cfg)"
    "li_CacheQuotaBytes (cf_Limits ?cfg) = li_CacheQuotaBytes (cf_Limits cfg)"
    "li_MaxPathsPerManifest (cf_Limits ?cfg) = li_MaxPathsPerManifest (cf_Limits cfg)"
    by (simp_all add: retuned_def)
  have "fetcher_of H ?cfg = fetcher_of H cfg" "resolver_of H ?cfg = resolver_of H cfg"
    "open_bundles H ?cfg fs = open_bundles H cfg fs" for fs
    by (simp_all only: fetcher_of_def resolver_of_def open_bundles_def load_catalogue_def localBlossomAddrs_def
        local npk lim)
  then show "applyBackends H ?cfg s = applyBackends H cfg s" by (simp only: applyBackends_def lim)
  show "gate X (srv_apply X ?cfg s) r = gate X (srv_apply X cfg s) r"
    "apex_request X (srv_apply X ?cfg s) r = apex_request X (srv_apply X cfg s) r"
    by (simp_all only: gate_def apex_request_def retuned_apply)
qed

end
